(* ===== verification/Prelude.thy ===== *)
theory Prelude
  imports Main "HOL-Library.Word" "HOL-Library.AList" "HOL-Library.Sublist"
    "HOL-Library.Char_ord" "HOL-Library.List_Lexorder"
begin

text \<open>
  Shared vocabulary of the development: the machine integers of the Go sources, Go's errors as
  values of a sum type, the sequencing of fallible operations on a state, and Go's built-in maps.

  \<^item> \<open>byte\<close>, \<open>u32\<close>, \<open>u64\<close> are the fixed-width unsigned integers. A Go \<open>int64\<close> that the
    program only copies and compares (a modification time) is an \<open>int\<close>.
  \<^item> A Go function returning \<open>(T, error)\<close> is a function into \<open>error + T\<close>; one that also changes
    a state \<open>'s\<close> is a function \<open>'s \<Rightarrow> (error + T) \<times> 's\<close>, because Go keeps the changes made
    before an early \<open>return err\<close>.
  \<^item> A Go map is an association list with distinct keys. Its list order stands for the iteration
    order of \<open>range\<close>, which Go leaves unspecified: statements quantify over every list.
\<close>

section \<open>Machine integers\<close>

type_synonym byte = "8 word"
type_synonym u32 = "32 word"
type_synonym u64 = "64 word"

named_theorems gomap_simps "rewrite rules for reads of Go maps after writes"
named_theorems run_simps "unfolding rules of the result and state combinators"

section \<open>Errors\<close>

text \<open>
  The errors of the system calls the program makes, and the errors its own code builds.
  \<open>NetError\<close> is a failure of a connection, \<open>NetClosed\<close> is \<open>net.ErrClosed\<close>, \<open>CtxErr\<close> the error of a
  cancelled context. \<open>Wrap ctx e\<close> is \<open>fmt.Errorf("ctx: %w", e)\<close>; \<open>GoPanic\<close> is a run-time panic, for instance the
  dereference of a nil pointer, which unwinds past every ordinary error check.
\<close>

datatype errno =
    ENOENT | ENOTDIR | EISDIR | EEXIST | ENOTEMPTY | ELOOP | EINVAL | EACCES | EPERM | ENOSPC
  | EIO | EBUSY

datatype error =
    OsError errno
  | IoEOF
  | IoUnexpectedEOF
  | ErrFrameTooLarge
  | ErrInvalidType
  | ErrMsg string
  | NetError
  | NetClosed
  | CtxErr
  | GoPanic
  | Wrap string error

type_synonym 'a res = "error + 'a"

text \<open>\<open>os.IsPermission\<close> looks at the error itself and not through \<open>fmt.Errorf\<close> wrappers.\<close>

fun os_IsPermission :: "error \<Rightarrow> bool" where
  "os_IsPermission (OsError e) = (e = EACCES \<or> e = EPERM)"
| "os_IsPermission _ = False"

fun os_IsNotExist :: "error \<Rightarrow> bool" where
  "os_IsNotExist (OsError e) = (e = ENOENT)"
| "os_IsNotExist _ = False"

definition is_ok :: "'a res \<Rightarrow> bool" where
  "is_ok r = (case r of Inl _ \<Rightarrow> False | Inr _ \<Rightarrow> True)"

lemma is_ok_simps [simp]: "is_ok (Inr x)" "\<not> is_ok (Inl e)"
  by (simp_all add: is_ok_def)

lemma is_ok_iff: "is_ok r \<longleftrightarrow> (\<exists>x. r = Inr x)"
  by (cases r) auto

section \<open>Sequencing with early return\<close>

text \<open>
  \<open>add_ctx\<close> is what \<open>fmt.Errorf\<close> does to an error on its way out; a panic is not an error value and
  passes unchanged. \<open>and_then m f\<close> runs \<open>m\<close>; when \<open>m\<close> fails the error is returned with the state \<open>m\<close> left behind,
  otherwise \<open>f\<close> continues from the new state. \<open>wrap_err\<close> adds the context of \<open>fmt.Errorf\<close> to a
  failure.
\<close>

definition add_ctx :: "string \<Rightarrow> error \<Rightarrow> error" where
  "add_ctx ctx e = (if e = GoPanic then GoPanic else Wrap ctx e)"

definition and_then :: "('s \<Rightarrow> 'a res \<times> 's) \<Rightarrow> ('a \<Rightarrow> 's \<Rightarrow> 'b res \<times> 's) \<Rightarrow> 's \<Rightarrow> 'b res \<times> 's" where
  "and_then m f s = (case m s of (Inl e, s') \<Rightarrow> (Inl e, s') | (Inr x, s') \<Rightarrow> f x s')"

definition wrap_err :: "string \<Rightarrow> ('s \<Rightarrow> 'a res \<times> 's) \<Rightarrow> 's \<Rightarrow> 'a res \<times> 's" where
  "wrap_err ctx m s = (case m s of (Inl e, s') \<Rightarrow> (Inl (add_ctx ctx e), s') | (Inr x, s') \<Rightarrow> (Inr x, s'))"

lemma and_then_Inr [run_simps]: "m s = (Inr x, s') \<Longrightarrow> and_then m f s = f x s'"
  by (simp add: and_then_def)

lemma and_then_Inl [run_simps]: "m s = (Inl e, s') \<Longrightarrow> and_then m f s = (Inl e, s')"
  by (simp add: and_then_def)

lemma and_then_okE:
  assumes "and_then m f s = (Inr y, t)"
  obtains x s' where "m s = (Inr x, s')" and "f x s' = (Inr y, t)"
  using assms by (cases "m s") (auto simp: and_then_def split: sum.splits)

lemma wrap_err_okD: "wrap_err ctx m s = (Inr y, t) \<Longrightarrow> m s = (Inr y, t)"
  by (cases "m s") (auto simp: wrap_err_def split: sum.splits)

lemma wrap_err_Inr [run_simps]: "m s = (Inr x, s') \<Longrightarrow> wrap_err ctx m s = (Inr x, s')"
  by (simp add: wrap_err_def)

lemma snd_wrap_err [simp]: "snd (wrap_err ctx m s) = snd (m s)"
  by (cases "m s") (auto simp: wrap_err_def split: sum.splits)

lemma snd_and_then:
  "snd (and_then m f s) =
     (case fst (m s) of Inl e \<Rightarrow> snd (m s) | Inr x \<Rightarrow> snd (f x (snd (m s))))"
  by (cases "m s") (auto simp: and_then_def split: sum.splits)

text \<open>A relation between states that both parts respect is respected by the sequence.\<close>

lemma and_then_rel:
  assumes "R s (snd (m s))"
    and "\<And>x. R (snd (m s)) (snd (f x (snd (m s))))"
    and "\<And>a b c. R a b \<Longrightarrow> R b c \<Longrightarrow> R a c"
  shows "R s (snd (and_then m f s))"
  using assms by (auto simp: snd_and_then split: sum.splits)

lemma and_then_inv:
  assumes "P s" "\<And>s. P s \<Longrightarrow> P (snd (m s))" "\<And>x s. P s \<Longrightarrow> P (snd (f x s))"
  shows "P (snd (and_then m f s))"
  using assms by (auto simp: snd_and_then split: sum.splits)

section \<open>Strings and bytes\<close>

text \<open>A Go string is a sequence of bytes, and so is an Isabelle one.\<close>

definition str_bytes :: "string \<Rightarrow> byte list" where
  "str_bytes s = map of_char s"

definition bytes_str :: "byte list \<Rightarrow> string" where
  "bytes_str bs = map (\<lambda>b. char_of (unat b)) bs"

lemma bytes_str_bytes [simp]: "bytes_str (str_bytes s) = s"
proof -
  have "char_of (unat (of_char c :: byte)) = c" for c
  proof -
    have lt: "(of_char c :: nat) < 256" by simp
    have "(of_char c :: byte) = of_nat (of_char c)" by (simp add: of_nat_of_char)
    then have "unat (of_char c :: byte) = of_char c"
      using lt by (simp only: unat_of_nat) simp
    then show ?thesis by simp
  qed
  then show ?thesis by (simp add: bytes_str_def str_bytes_def comp_def)
qed

lemma str_bytes_append [simp]: "str_bytes (a @ b) = str_bytes a @ str_bytes b"
  by (simp add: str_bytes_def)

lemma str_bytes_eq_Nil [simp]: "str_bytes s = [] \<longleftrightarrow> s = []"
  by (simp add: str_bytes_def)

lemma length_str_bytes [simp]: "length (str_bytes s) = length s"
  by (simp add: str_bytes_def)

section \<open>Go maps\<close>

type_synonym ('k, 'v) gomap = "('k \<times> 'v) list"

abbreviation gm_make :: "('k, 'v) gomap" where
  "gm_make \<equiv> []"

definition gm_get :: "('k, 'v) gomap \<Rightarrow> 'k \<Rightarrow> 'v option" where
  "gm_get m k = map_of m k"

definition gm_set :: "('k, 'v) gomap \<Rightarrow> 'k \<Rightarrow> 'v \<Rightarrow> ('k, 'v) gomap" where
  "gm_set m k v = AList.update k v m"

definition gm_delete :: "('k, 'v) gomap \<Rightarrow> 'k \<Rightarrow> ('k, 'v) gomap" where
  "gm_delete m k = AList.delete k m"

definition gm_keys :: "('k, 'v) gomap \<Rightarrow> 'k list" where
  "gm_keys m = map fst m"

definition gm_ok :: "('k, 'v) gomap \<Rightarrow> bool" where
  "gm_ok m = distinct (map fst m)"

text \<open>A read of a \<open>map[string]bool\<close>: the zero value \<open>false\<close> for a missing key.\<close>

definition gm_flag :: "('k, bool) gomap \<Rightarrow> 'k \<Rightarrow> bool" where
  "gm_flag m k = (case gm_get m k of None \<Rightarrow> False | Some b \<Rightarrow> b)"

text \<open>The laws every keyed store of the program obeys; clients argue from these alone.\<close>

locale keyed_store =
  fixes empty :: "'m"
    and put :: "'m \<Rightarrow> 'k \<Rightarrow> 'v \<Rightarrow> 'm"
    and del :: "'m \<Rightarrow> 'k \<Rightarrow> 'm"
    and get :: "'m \<Rightarrow> 'k \<Rightarrow> 'v option"
    and keys :: "'m \<Rightarrow> 'k list"
    and ok :: "'m \<Rightarrow> bool"
  assumes get_empty: "get empty k = None"
    and get_put: "get (put m k v) k' = (if k' = k then Some v else get m k')"
    and get_del: "ok m \<Longrightarrow> get (del m k) k' = (if k' = k then None else get m k')"
    and set_keys: "set (keys m) = {k. get m k \<noteq> None}"
    and ok_empty: "ok empty"
    and ok_put: "ok m \<Longrightarrow> ok (put m k v)"
    and ok_del: "ok m \<Longrightarrow> ok (del m k)"
    and ok_keys: "ok m \<Longrightarrow> distinct (keys m)"
begin

text \<open>A loop that stores a value for each element: the last writer of a key wins.\<close>

lemma get_fold_put:
  "get (fold (\<lambda>x m. put m (kf x) (vf x)) xs m) k =
     (case find (\<lambda>x. kf x = k) (rev xs) of Some x \<Rightarrow> Some (vf x) | None \<Rightarrow> get m k)"
proof (induction xs rule: rev_induct)
  case Nil
  show ?case by simp
next
  case (snoc x xs)
  then show ?case by (auto simp: get_put)
qed

lemma ok_fold_put: "ok m \<Longrightarrow> ok (fold (\<lambda>x m. put m (kf x) (vf x)) xs m)"
  by (induction xs arbitrary: m) (auto simp: ok_put)

lemma get_fold_put_distinct:
  assumes "distinct (map kf xs)" "x \<in> set xs"
  shows "get (fold (\<lambda>x m. put m (kf x) (vf x)) xs m) (kf x) = Some (vf x)"
proof -
  have "find (\<lambda>y. kf y = kf x) (rev xs) = Some x"
    using assms
  proof (induction xs rule: rev_induct)
    case Nil
    then show ?case by simp
  next
    case (snoc y ys)
    then show ?case by (auto simp: image_iff)
  qed
  then show ?thesis by (simp add: get_fold_put)
qed

lemma get_fold_put_other:
  assumes "k \<notin> kf ` set xs"
  shows "get (fold (\<lambda>x m. put m (kf x) (vf x)) xs m) k = get m k"
proof -
  have "find (\<lambda>x. kf x = k) (rev xs) = None"
    using assms by (auto simp: find_None_iff)
  then show ?thesis by (simp add: get_fold_put)
qed

lemma keys_put: "set (keys (put m k v)) = insert k (set (keys m))"
  by (auto simp: set_keys get_put)

lemma keys_del: "ok m \<Longrightarrow> set (keys (del m k)) = set (keys m) - {k}"
  by (auto simp: set_keys get_del)

end

lemma gm_get_make: "gm_get gm_make k = None"
  by (simp add: gm_get_def)

lemma gm_ok_make: "gm_ok gm_make"
  by (simp add: gm_ok_def)

lemma gm_ok_keys: "gm_ok m \<Longrightarrow> distinct (gm_keys m)"
  by (simp add: gm_ok_def gm_keys_def)

lemma gm_ok_set: "gm_ok m \<Longrightarrow> gm_ok (gm_set m k v)"
  by (simp add: gm_ok_def gm_set_def distinct_update)

lemma gm_ok_delete: "gm_ok m \<Longrightarrow> gm_ok (gm_delete m k)"
  by (simp add: gm_ok_def gm_delete_def distinct_delete)

lemma gm_set_get: "gm_get (gm_set m k v) k' = (if k' = k then Some v else gm_get m k')"
  by (simp add: gm_get_def gm_set_def update_conv')

lemma gm_delete_get: "gm_get (gm_delete m k) k' = (if k' = k then None else gm_get m k')"
  by (simp add: gm_get_def gm_delete_def delete_conv')

lemma gm_keys_get: "set (gm_keys m) = {k. gm_get m k \<noteq> None}"
  by (auto simp: gm_keys_def gm_get_def map_of_eq_None_iff)

interpretation gm: keyed_store "gm_make :: ('k, 'v) gomap" gm_set gm_delete gm_get gm_keys gm_ok
  by unfold_locales
    (simp_all add: gm_get_make gm_set_get gm_delete_get gm_keys_get gm_ok_make gm_ok_set
      gm_ok_delete gm_ok_keys)

lemmas gm_laws [gomap_simps, simp] = gm_set_get gm_delete_get gm_get_make

lemma gm_get_in_keys: "gm_get m k = Some v \<Longrightarrow> k \<in> set (gm_keys m)"
  by (simp add: gm_keys_get)

lemma gm_get_Some_iff: "gm_ok m \<Longrightarrow> gm_get m k = Some v \<longleftrightarrow> (k, v) \<in> set m"
  by (simp add: gm_ok_def gm_get_def map_of_eq_Some_iff)

lemma gm_get_filter:
  "gm_get (filter (\<lambda>(k, _). P k) m) k = (if P k then gm_get m k else None)"
  by (induction m) (auto simp: gm_get_def)

lemma gm_flag_set [simp]: "gm_flag (gm_set m k b) k' = (if k' = k then b else gm_flag m k')"
  by (simp add: gm_flag_def)

lemma gm_flag_delete [simp]: "gm_flag (gm_delete m k) k' = (k' \<noteq> k \<and> gm_flag m k')"
  by (simp add: gm_flag_def)

lemma gm_flag_make [simp]: "\<not> gm_flag gm_make k"
  by (simp add: gm_flag_def)

section \<open>Runs of a machine that keep an invariant\<close>

text \<open>
  Several components process a sequence of inputs one at a time. Their common contract is a step
  that keeps an invariant; what holds of the whole run is proved once.
\<close>

fun run_all :: "('i \<Rightarrow> 's \<Rightarrow> 's) \<Rightarrow> 'i list \<Rightarrow> 's \<Rightarrow> 's" where
  "run_all f [] s = s"
| "run_all f (x # xs) s = run_all f xs (f x s)"

lemma run_all_append: "run_all f (xs @ ys) s = run_all f ys (run_all f xs s)"
  by (induction xs arbitrary: s) auto

locale inv_machine =
  fixes step :: "'i \<Rightarrow> 's \<Rightarrow> 's"
    and inv :: "'s \<Rightarrow> bool"
  assumes step_inv: "inv s \<Longrightarrow> inv (step x s)"
begin

lemma run_inv: "inv s \<Longrightarrow> inv (run_all step xs s)"
  by (induction xs arbitrary: s) (auto simp: step_inv)

lemma run_inv_prefix: "inv s \<Longrightarrow> inv (run_all step (take n xs) s)"
  by (rule run_inv)

end

text \<open>The same contract for a step relation, where several components take turns.\<close>

locale inv_steps =
  fixes step :: "'s \<Rightarrow> 's \<Rightarrow> bool"
    and inv :: "'s \<Rightarrow> bool"
  assumes step_keeps: "inv s \<Longrightarrow> step s t \<Longrightarrow> inv t"
begin

lemma reach_inv: "rtranclp step s t \<Longrightarrow> inv s \<Longrightarrow> inv t"
  by (induction rule: rtranclp_induct) (auto intro: step_keeps)

end

end
