(* ===== verification/Message.thy ===== *)
theory Message
  imports Prelude
begin

text \<open>
  The data of \<open>protocol/message.go\<close>: the message type bytes, the file type bytes, and one record
  per struct. A field that is a Go pointer and can be nil is an \<open>option\<close>; a slice whose elements
  are pointers is a list of options. \<open>Message\<close> keeps the source's shape, one type byte and a
  field per payload, rather than a tagged union, because nothing but the type byte tells the
  readers which field to use.
\<close>

section \<open>Constants\<close>

definition MSG_HELLO :: byte where "MSG_HELLO = 0x01"
definition MSG_HELLO_ACK :: byte where "MSG_HELLO_ACK = 0x02"
definition MSG_SYNC_INIT :: byte where "MSG_SYNC_INIT = 0x03"
definition MSG_SYNC_INIT_ACK :: byte where "MSG_SYNC_INIT_ACK = 0x04"
definition MSG_FILE_CREATE :: byte where "MSG_FILE_CREATE = 0x05"
definition MSG_FILE_DATA :: byte where "MSG_FILE_DATA = 0x06"
definition MSG_FILE_MODIFY :: byte where "MSG_FILE_MODIFY = 0x07"
definition MSG_FILE_DELETE :: byte where "MSG_FILE_DELETE = 0x08"
definition MSG_FILE_MOVE :: byte where "MSG_FILE_MOVE = 0x09"
definition MSG_ACK :: byte where "MSG_ACK = 0x0A"
definition MSG_SYNC_DIFF :: byte where "MSG_SYNC_DIFF = 0x0B"
definition MSG_SYNC_APPLY :: byte where "MSG_SYNC_APPLY = 0x0C"
definition MSG_PING :: byte where "MSG_PING = 0x0D"
definition MSG_PONG :: byte where "MSG_PONG = 0x0E"
definition MSG_ERROR :: byte where "MSG_ERROR = 0x0F"

lemmas msg_type_defs =
  MSG_HELLO_def MSG_HELLO_ACK_def MSG_SYNC_INIT_def MSG_SYNC_INIT_ACK_def MSG_FILE_CREATE_def
  MSG_FILE_DATA_def MSG_FILE_MODIFY_def MSG_FILE_DELETE_def MSG_FILE_MOVE_def MSG_ACK_def
  MSG_SYNC_DIFF_def MSG_SYNC_APPLY_def MSG_PING_def MSG_PONG_def MSG_ERROR_def

definition FileTypeRegularFile :: byte where "FileTypeRegularFile = 0x01"
definition FileTypeDirectory :: byte where "FileTypeDirectory = 0x02"
definition FileTypeSymlink :: byte where "FileTypeSymlink = 0x04"
definition FileTypeOther :: byte where "FileTypeOther = 0x06"

lemmas file_type_defs =
  FileTypeRegularFile_def FileTypeDirectory_def FileTypeSymlink_def FileTypeOther_def

definition FlagFinalChunk :: byte where "FlagFinalChunk = 0x01"

section \<open>Payload structs\<close>

text \<open>\<open>MTime\<close> and \<open>ATime\<close> are \<open>int64\<close> nanoseconds that are copied and compared, never added.
  \<open>ContentHash\<close> is a \<open>[32]byte\<close>.\<close>

record FileEntry =
  fe_Path :: string
  fe_EntryType :: byte
  fe_Mode :: u32
  fe_UID :: u32
  fe_GID :: u32
  fe_MTime :: int
  fe_ATime :: int
  fe_Size :: u64
  fe_ContentHash :: "byte list"
  fe_Seq :: u64

record FileDataChunk =
  fd_Path :: string
  fd_Flags :: byte
  fd_Offset :: u64
  fd_Data :: "byte list"

record ChangeEvent =
  ce_Type :: string
  ce_Entry :: "FileEntry option"
  ce_Path :: string
  ce_OldPath :: string
  ce_NewPath :: string

record SyncOp =
  op_Type :: string
  op_Entry :: "FileEntry option"
  op_Path :: string
  op_OldPath :: string
  op_NewPath :: string
  op_Chunk :: "byte list"
  op_ChunkOff :: u64
  op_ChunkLen :: u64
  op_ChunkFlags :: byte

record HelloPayload =
  hp_ClientID :: string
  hp_SyncDir :: string
  hp_Version :: string

record HelloAckPayload =
  ha_ServerID :: string
  ha_ClientID :: u32
  ha_Status :: byte

record AckPayload =
  ack_Seq :: u64
  ack_Status :: byte

record SyncTree =
  st_Entries :: "FileEntry option list"

record SyncDiff =
  sd_Changes :: "ChangeEvent option list"

record SyncApply =
  sa_Ops :: "SyncOp option list"

record ErrorPayload =
  err_Code :: u32
  err_Message :: string

record FileMoveData =
  mv_OldPath :: string
  mv_NewPath :: string
  mv_Entry :: "FileEntry option"

record Message =
  m_Type :: byte
  m_Hello :: "HelloPayload option"
  m_HelloAck :: "HelloAckPayload option"
  m_SyncInit :: "SyncTree option"
  m_SyncInitAck :: "SyncTree option"
  m_FileCreate :: "FileEntry option"
  m_FileData :: "FileDataChunk option"
  m_FileModify :: "FileEntry option"
  m_FileDelete :: string
  m_FileMove :: "FileMoveData option"
  m_Ack :: "AckPayload option"
  m_SyncDiff :: "SyncDiff option"
  m_SyncApply :: "SyncApply option"
  m_Error :: "ErrorPayload option"

section \<open>Zero values and composite literals\<close>

text \<open>
  A Go composite literal \<open>&Message{Type: t}\<close> leaves every other field at its zero value. The
  \<open>blank\<close> values below are those zero values; literals of the source are record updates of them.
\<close>

definition blank_entry :: FileEntry where
  "blank_entry = \<lparr>fe_Path = [], fe_EntryType = 0, fe_Mode = 0, fe_UID = 0, fe_GID = 0,
     fe_MTime = 0, fe_ATime = 0, fe_Size = 0, fe_ContentHash = replicate 32 0, fe_Seq = 0\<rparr>"

definition blank_event :: ChangeEvent where
  "blank_event = \<lparr>ce_Type = [], ce_Entry = None, ce_Path = [], ce_OldPath = [], ce_NewPath = []\<rparr>"

definition blank_op :: SyncOp where
  "blank_op = \<lparr>op_Type = [], op_Entry = None, op_Path = [], op_OldPath = [], op_NewPath = [],
     op_Chunk = [], op_ChunkOff = 0, op_ChunkLen = 0, op_ChunkFlags = 0\<rparr>"

definition blank_msg :: "byte \<Rightarrow> Message" where
  "blank_msg t = \<lparr>m_Type = t, m_Hello = None, m_HelloAck = None, m_SyncInit = None,
     m_SyncInitAck = None, m_FileCreate = None, m_FileData = None, m_FileModify = None,
     m_FileDelete = [], m_FileMove = None, m_Ack = None, m_SyncDiff = None, m_SyncApply = None,
     m_Error = None\<rparr>"

lemma blank_msg_sel [simp]:
  "m_Type (blank_msg t) = t" "m_Hello (blank_msg t) = None" "m_HelloAck (blank_msg t) = None"
  "m_SyncInit (blank_msg t) = None" "m_SyncInitAck (blank_msg t) = None"
  "m_FileCreate (blank_msg t) = None" "m_FileData (blank_msg t) = None"
  "m_FileModify (blank_msg t) = None" "m_FileDelete (blank_msg t) = []"
  "m_FileMove (blank_msg t) = None" "m_Ack (blank_msg t) = None"
  "m_SyncDiff (blank_msg t) = None" "m_SyncApply (blank_msg t) = None"
  "m_Error (blank_msg t) = None"
  by (simp_all add: blank_msg_def)

lemma blank_event_sel [simp]:
  "ce_Entry blank_event = None" "ce_Path blank_event = []" "ce_Type blank_event = []"
  by (simp_all add: blank_event_def)

lemma blank_op_sel [simp]:
  "op_Entry blank_op = None" "op_Path blank_op = []" "op_Type blank_op = []"
  "op_OldPath blank_op = []" "op_NewPath blank_op = []" "op_Chunk blank_op = []"
  "op_ChunkOff blank_op = 0"
  by (simp_all add: blank_op_def)

text \<open>The event kinds the program writes as string literals.\<close>

definition create_event :: "FileEntry \<Rightarrow> ChangeEvent" where
  "create_event e = blank_event\<lparr>ce_Type := ''create'', ce_Entry := Some e\<rparr>"

definition modify_event :: "FileEntry \<Rightarrow> ChangeEvent" where
  "modify_event e = blank_event\<lparr>ce_Type := ''modify'', ce_Entry := Some e\<rparr>"

definition delete_event :: "string \<Rightarrow> ChangeEvent" where
  "delete_event p = blank_event\<lparr>ce_Type := ''delete'', ce_Path := p\<rparr>"

lemma event_sel [simp]:
  "ce_Type (create_event e) = ''create''" "ce_Entry (create_event e) = Some e"
  "ce_Type (modify_event e) = ''modify''" "ce_Entry (modify_event e) = Some e"
  "ce_Type (delete_event p) = ''delete''" "ce_Entry (delete_event p) = None"
  "ce_Path (delete_event p) = p" "ce_Path (create_event e) = []" "ce_Path (modify_event e) = []"
  by (simp_all add: create_event_def modify_event_def delete_event_def)

lemma event_inject [simp]:
  "create_event e = create_event e' \<longleftrightarrow> e = e'"
  "modify_event e = modify_event e' \<longleftrightarrow> e = e'"
  "delete_event p = delete_event q \<longleftrightarrow> p = q"
  "create_event e \<noteq> modify_event e'" "modify_event e' \<noteq> create_event e"
  "create_event e \<noteq> delete_event q" "delete_event q \<noteq> create_event e"
  "modify_event e \<noteq> delete_event q" "delete_event q \<noteq> modify_event e"
  by (auto dest: arg_cong [where f = ce_Type] arg_cong [where f = ce_Entry]
        arg_cong [where f = ce_Path])

end
