(* ===== verification/FileTree.thy ===== *)
theory FileTree
  imports Message
begin

text \<open>
  The in-memory store of \<open>sync/state.go\<close>: a map from relative paths to file metadata and a
  sequence counter. The read-write mutex makes each operation atomic, so each is one function on
  the state. \<open>Set\<close> writes the assigned sequence number through the caller's pointer, so the model
  returns the updated entry next to the updated tree.
\<close>

section \<open>State and operations\<close>

record FileTree =
  ft_entries :: "(string, FileEntry) gomap"
  ft_nextSeq :: u64
  ft_baseDir :: string

definition NewFileTree :: "string \<Rightarrow> FileTree" where
  "NewFileTree dir = \<lparr>ft_entries = gm_make, ft_nextSeq = 0, ft_baseDir = dir\<rparr>"

definition Get :: "FileTree \<Rightarrow> string \<Rightarrow> FileEntry option" where
  "Get t path = gm_get (ft_entries t) path"

definition Set_entry :: "FileTree \<Rightarrow> FileEntry \<Rightarrow> FileEntry \<times> FileTree" where
  "Set_entry t entry =
     (let (entry', t') =
        (if fe_Seq entry = 0
         then (entry\<lparr>fe_Seq := ft_nextSeq t\<rparr>, t\<lparr>ft_nextSeq := ft_nextSeq t + 1\<rparr>)
         else (entry, t))
      in (entry', t'\<lparr>ft_entries := gm_set (ft_entries t') (fe_Path entry') entry'\<rparr>))"

abbreviation Set_tree :: "FileTree \<Rightarrow> FileEntry \<Rightarrow> FileTree" where
  "Set_tree t entry \<equiv> snd (Set_entry t entry)"

definition Remove :: "FileTree \<Rightarrow> string \<Rightarrow> FileTree" where
  "Remove t path = t\<lparr>ft_entries := gm_delete (ft_entries t) path\<rparr>"

definition Entries :: "FileTree \<Rightarrow> FileEntry list" where
  "Entries t = map snd (ft_entries t)"

definition Len :: "FileTree \<Rightarrow> nat" where
  "Len t = length (ft_entries t)"

definition Contains :: "FileTree \<Rightarrow> string \<Rightarrow> bool" where
  "Contains t path = (gm_get (ft_entries t) path \<noteq> None)"

text \<open>\<open>Snapshot\<close> copies the map key by key, in the map's iteration order.\<close>

definition Snapshot :: "FileTree \<Rightarrow> (string, FileEntry) gomap" where
  "Snapshot t = fold (\<lambda>(k, v) snap. gm_set snap k v) (ft_entries t) gm_make"

definition Paths :: "FileTree \<Rightarrow> (string, bool) gomap" where
  "Paths t = fold (\<lambda>(k, v) paths. gm_set paths k True) (ft_entries t) gm_make"

section \<open>Well-formed trees\<close>

text \<open>Every entry is stored under its own path, and a path is stored at most once.\<close>

definition tree_ok :: "FileTree \<Rightarrow> bool" where
  "tree_ok t \<longleftrightarrow> gm_ok (ft_entries t) \<and> (\<forall>(k, e) \<in> set (ft_entries t). fe_Path e = k)"

lemma tree_okD:
  assumes "tree_ok t"
  shows "gm_ok (ft_entries t)" "Get t p = Some e \<Longrightarrow> fe_Path e = p"
  using assms by (auto simp: tree_ok_def Get_def gm_get_Some_iff)

lemma tree_okI:
  assumes "gm_ok (ft_entries t)" "\<And>p e. Get t p = Some e \<Longrightarrow> fe_Path e = p"
  shows "tree_ok t"
  using assms by (auto simp: tree_ok_def Get_def gm_get_Some_iff)

lemma tree_ok_New [simp]: "tree_ok (NewFileTree d)"
  by (simp add: tree_ok_def NewFileTree_def gm_ok_def)

lemma Get_New [simp]: "Get (NewFileTree d) p = None"
  by (simp add: Get_def NewFileTree_def)

definition seq_of :: "FileTree \<Rightarrow> FileEntry \<Rightarrow> FileEntry" where
  "seq_of t e = (if fe_Seq e = 0 then e\<lparr>fe_Seq := ft_nextSeq t\<rparr> else e)"

lemma seq_of_sel [simp]:
  "fe_Path (seq_of t e) = fe_Path e" "fe_EntryType (seq_of t e) = fe_EntryType e"
  "fe_Mode (seq_of t e) = fe_Mode e" "fe_MTime (seq_of t e) = fe_MTime e"
  "fe_ATime (seq_of t e) = fe_ATime e" "fe_ContentHash (seq_of t e) = fe_ContentHash e"
  "fe_Size (seq_of t e) = fe_Size e"
  by (simp_all add: seq_of_def)

lemma fst_Set_entry: "fst (Set_entry t e) = seq_of t e"
  by (simp add: Set_entry_def seq_of_def Let_def)

lemma Get_Set [simp]:
  "Get (Set_tree t e) p = (if p = fe_Path e then Some (seq_of t e) else Get t p)"
  by (simp add: Get_def Set_entry_def seq_of_def Let_def)

lemma Get_Remove [simp]: "Get (Remove t q) p = (if p = q then None else Get t p)"
  by (simp add: Get_def Remove_def)

lemma gm_ok_Set: "gm_ok (ft_entries t) \<Longrightarrow> gm_ok (ft_entries (Set_tree t e))"
  by (simp add: Set_entry_def Let_def gm_ok_set)

lemma tree_ok_Set: "tree_ok t \<Longrightarrow> tree_ok (Set_tree t e)"
  by (rule tree_okI) (auto simp: gm_ok_Set dest: tree_okD split: if_splits)

lemma tree_ok_Remove: "tree_ok t \<Longrightarrow> tree_ok (Remove t p)"
proof (rule tree_okI)
  assume t: "tree_ok t"
  then show "gm_ok (ft_entries (Remove t p))"
    by (simp add: Remove_def gm_ok_delete tree_okD(1))
  show "Get (Remove t p) q = Some e \<Longrightarrow> fe_Path e = q" for q e
    using t by (auto dest: tree_okD(2) split: if_splits)
qed

section \<open>Views of a tree\<close>

lemma fold_gm_set_fresh:
  assumes "gm_ok (m @ xs)"
  shows "fold (\<lambda>(k, v) snap. gm_set snap k v) xs m = m @ xs"
  using assms
proof (induction xs arbitrary: m)
  case Nil
  then show ?case by simp
next
  case (Cons x xs)
  obtain k v where x: "x = (k, v)" by (cases x)
  have "k \<notin> fst ` set m" using Cons.prems by (auto simp: gm_ok_def x)
  then have "gm_set m k v = m @ [(k, v)]"
    by (induction m) (auto simp: gm_set_def)
  then show ?case using Cons by (simp add: x)
qed

text \<open>A snapshot is the map itself, iteration order included: reading it later, when the tree has
  moved on, is reading the tree at the time of the call.\<close>

lemma Snapshot_eq: "tree_ok t \<Longrightarrow> Snapshot t = ft_entries t"
  using fold_gm_set_fresh [of "[]" "ft_entries t"] by (simp add: Snapshot_def tree_okD)

lemma gm_get_fold_const:
  "gm_get (fold (\<lambda>(k, v) m. gm_set m k c) xs m) p =
     (if p \<in> fst ` set xs then Some c else gm_get m p)"
  by (induction xs arbitrary: m) auto

lemma Contains_iff: "Contains t p \<longleftrightarrow> p \<in> fst ` set (ft_entries t)"
  by (simp add: Contains_def gm_get_def map_of_eq_None_iff)

lemma Paths_get: "gm_get (Paths t) p = (if Contains t p then Some True else None)"
  by (simp add: Paths_def gm_get_fold_const Contains_iff)

lemma Paths_flag [simp]: "gm_flag (Paths t) p \<longleftrightarrow> Get t p \<noteq> None"
  by (simp add: gm_flag_def Paths_get Contains_def Get_def)

lemma set_Entries: "tree_ok t \<Longrightarrow> set (Entries t) = {e. \<exists>p. Get t p = Some e}"
  by (force simp: Entries_def Get_def gm_get_Some_iff tree_okD(1))

lemma distinct_Entries: "tree_ok t \<Longrightarrow> distinct (map fe_Path (Entries t))"
proof -
  assume t: "tree_ok t"
  then have "map fe_Path (Entries t) = map fst (ft_entries t)"
    by (auto simp: Entries_def tree_ok_def)
  with t show ?thesis by (simp add: tree_okD(1) gm_ok_def tree_ok_def)
qed

section \<open>The tree as a store\<close>

text \<open>The interface the rest of the program relies on: a tree is a store of entries keyed by
  path, in which an insertion may only renumber the entry it inserts.\<close>

locale entry_store =
  fixes new :: "'t"
    and get :: "'t \<Rightarrow> string \<Rightarrow> FileEntry option"
    and ins :: "'t \<Rightarrow> FileEntry \<Rightarrow> 't"
    and del :: "'t \<Rightarrow> string \<Rightarrow> 't"
    and ok :: "'t \<Rightarrow> bool"
  assumes get_new: "get new p = None"
    and get_ins: "get (ins t e) p =
      (if p = fe_Path e then Some (e\<lparr>fe_Seq := fe_Seq (the (get (ins t e) p))\<rparr>) else get t p)"
    and get_del: "get (del t q) p = (if p = q then None else get t p)"
    and ok_new: "ok new"
    and ok_ins: "ok t \<Longrightarrow> ok (ins t e)"
    and ok_del: "ok t \<Longrightarrow> ok (del t q)"
begin

text \<open>Storing a batch of entries with distinct paths makes exactly those paths present, each with
  its entry up to the sequence number, and leaves the others alone.\<close>

definition same_file :: "FileEntry \<Rightarrow> FileEntry \<Rightarrow> bool" where
  "same_file a b \<longleftrightarrow> a\<lparr>fe_Seq := 0\<rparr> = b\<lparr>fe_Seq := 0\<rparr>"

lemma same_file_seq: "same_file (e\<lparr>fe_Seq := n\<rparr>) e"
  by (simp add: same_file_def)

lemma get_ins_same: "\<exists>n. get (ins t e) (fe_Path e) = Some (e\<lparr>fe_Seq := n\<rparr>)"
  using get_ins [of t e "fe_Path e"] by (metis (mono_tags))

lemma get_ins_other: "p \<noteq> fe_Path e \<Longrightarrow> get (ins t e) p = get t p"
  using get_ins [of t e p] by simp

lemma get_batch_other: "p \<notin> fe_Path ` set es \<Longrightarrow> get (foldl ins t es) p = get t p"
  by (induction es arbitrary: t) (auto simp: get_ins_other)

lemma get_batch:
  assumes "distinct (map fe_Path es)" "e \<in> set es"
  shows "\<exists>n. get (foldl ins t es) (fe_Path e) = Some (e\<lparr>fe_Seq := n\<rparr>)"
  using assms
proof (induction es arbitrary: t)
  case Nil
  then show ?case by simp
next
  case (Cons x es)
  show ?case
  proof (cases "e = x")
    case True
    with Cons.prems have "fe_Path e \<notin> fe_Path ` set es" by auto
    with True show ?thesis using get_ins_same [of t e] by (simp add: get_batch_other)
  next
    case False
    with Cons show ?thesis by simp
  qed
qed

lemma ok_batch: "ok t \<Longrightarrow> ok (foldl ins t es)"
  by (induction es arbitrary: t) (auto simp: ok_ins)

lemma batch_defined: "get (foldl ins t es) p \<noteq> None \<longleftrightarrow> p \<in> fe_Path ` set es \<or> get t p \<noteq> None"
proof (induction es arbitrary: t)
  case Nil
  show ?case by simp
next
  case (Cons x es)
  have "get (ins t x) p \<noteq> None \<longleftrightarrow> p = fe_Path x \<or> get t p \<noteq> None"
    using get_ins_same [of t x] get_ins_other [of p x t] by (cases "p = fe_Path x") auto
  then show ?case using Cons.IH [of "ins t x"] by auto
qed

end

interpretation ft: entry_store "NewFileTree d" Get Set_tree Remove tree_ok
  by unfold_locales (auto simp: tree_ok_Set tree_ok_Remove seq_of_def)

end
