(* ===== verification/Diff.thy ===== *)
theory Diff
  imports FileTree "HOL-Library.Multiset"
begin

text \<open>
  \<open>sync/diff.go\<close>: the comparison of two file trees, and \<open>buildSyncOps\<close> of the two mains, which
  turns the resulting events into operations. The comparison is specified by the last-write-wins
  merge of the two trees: what each loop emits, that no path is mentioned twice, and what the
  receiving side holds once it has acted on the events.
\<close>

section \<open>Definitions\<close>

definition entryChanged :: "FileEntry \<Rightarrow> FileEntry \<Rightarrow> bool" where
  "entryChanged a b =
     (if fe_EntryType a \<noteq> fe_EntryType b then True
      else if fe_MTime a \<noteq> fe_MTime b then True
      else if fe_EntryType a = FileTypeRegularFile \<and> fe_ContentHash a \<noteq> fe_ContentHash b then True
      else if fe_Mode a \<noteq> fe_Mode b then True
      else False)"

definition pickWinner :: "FileEntry \<Rightarrow> FileEntry \<Rightarrow> FileEntry" where
  "pickWinner local remote = (if fe_MTime remote \<ge> fe_MTime local then remote else local)"

text \<open>One iteration of the first loop, and the loop.\<close>

definition diff_present :: "(string, FileEntry) gomap \<Rightarrow> string \<times> FileEntry \<Rightarrow> ChangeEvent list" where
  "diff_present remoteSnap x =
     (case gm_get remoteSnap (fst x) of
        None \<Rightarrow> [create_event (snd x)]
      | Some rEntry \<Rightarrow>
          if entryChanged (snd x) rEntry then [modify_event (pickWinner (snd x) rEntry)] else [])"

definition DiffInitial :: "FileTree \<Rightarrow> FileTree \<Rightarrow> ChangeEvent list" where
  "DiffInitial local remote =
     (let localSnap = Snapshot local; remoteSnap = Snapshot remote
      in fold (\<lambda>x changes. changes @ diff_present remoteSnap x) localSnap [])"

definition Diff :: "FileTree \<Rightarrow> FileTree \<Rightarrow> ChangeEvent list" where
  "Diff local remote =
     (let localSnap = Snapshot local; remoteSnap = Snapshot remote;
          changes = fold (\<lambda>x changes. changes @ diff_present remoteSnap x) localSnap []
      in fold (\<lambda>(path, _) changes.
                 if gm_get localSnap path = None then changes @ [delete_event path] else changes)
           remoteSnap changes)"

definition sync_op_of :: "ChangeEvent \<Rightarrow> SyncOp list" where
  "sync_op_of c =
     (if ce_Type c = ''create'' then
        (case ce_Entry c of
           None \<Rightarrow> []
         | Some e \<Rightarrow>
             if fe_EntryType e = FileTypeDirectory
             then [blank_op\<lparr>op_Type := ''createDir'', op_Entry := Some e\<rparr>]
             else [blank_op\<lparr>op_Type := ''createFile'', op_Entry := Some e\<rparr>])
      else if ce_Type c = ''modify'' then
        (case ce_Entry c of
           None \<Rightarrow> []
         | Some e \<Rightarrow> [blank_op\<lparr>op_Type := ''setAttrs'', op_Path := fe_Path e, op_Entry := Some e\<rparr>])
      else if ce_Type c = ''delete'' then [blank_op\<lparr>op_Type := ''delete'', op_Path := ce_Path c\<rparr>]
      else [])"

definition buildSyncOps :: "ChangeEvent list \<Rightarrow> SyncOp list" where
  "buildSyncOps changes = fold (\<lambda>c ops. ops @ sync_op_of c) changes []"

section \<open>Conflict policy\<close>

text \<open>The contract a comparison and a winner choice have to meet for last-write-wins.\<close>

locale conflict_policy =
  fixes changed :: "'e \<Rightarrow> 'e \<Rightarrow> bool"
    and pick :: "'e \<Rightarrow> 'e \<Rightarrow> 'e"
    and stamp :: "'e \<Rightarrow> int"
  assumes changed_irrefl: "\<not> changed a a"
    and changed_sym: "changed a b \<Longrightarrow> changed b a"
    and changed_stamp: "\<not> changed a b \<Longrightarrow> stamp a = stamp b"
    and pick_either: "pick a b = a \<or> pick a b = b"
    and pick_latest: "stamp (pick a b) = max (stamp a) (stamp b)"
begin

text \<open>What a side that holds \<open>r\<close> keeps after hearing of \<open>l\<close>.\<close>

fun merge :: "'e option \<Rightarrow> 'e option \<Rightarrow> 'e option" where
  "merge None r = r"
| "merge (Some l) None = Some l"
| "merge (Some l) (Some r) = (if changed l r then Some (pick l r) else Some r)"

lemma pick_agree: "stamp a \<noteq> stamp b \<Longrightarrow> pick a b = pick b a"
  using pick_either [of a b] pick_either [of b a] pick_latest [of a b] pick_latest [of b a]
  by (auto simp: max_def split: if_splits)

lemma merge_defined: "merge l r \<noteq> None \<longleftrightarrow> l \<noteq> None \<or> r \<noteq> None"
  by (cases l; cases r) auto

lemma merge_no_loss: "merge l r = Some e \<Longrightarrow> l = Some e \<or> r = Some e"
  using pick_either [of "the l" "the r"] by (cases l; cases r) (auto split: if_splits)

lemma merge_latest:
  "merge l r = Some e \<Longrightarrow> \<forall>x. l = Some x \<or> r = Some x \<longrightarrow> stamp x \<le> stamp e"
  by (cases l; cases r) (auto split: if_splits simp: pick_latest changed_stamp)

text \<open>Two sides that each merge what they hear of the other agree wherever the stamps tell the
  versions apart.\<close>

lemma merge_agree:
  assumes "\<And>a b. l = Some a \<Longrightarrow> r = Some b \<Longrightarrow> changed a b \<Longrightarrow> stamp a \<noteq> stamp b"
  shows "rel_option (\<lambda>a b. \<not> changed a b) (merge l r) (merge r l)"
proof (cases l; cases r)
  fix a b assume ab: "l = Some a" "r = Some b"
  show ?thesis
  proof (cases "changed a b")
    case True
    with assms ab have "pick a b = pick b a" by (intro pick_agree) auto
    with True ab show ?thesis using changed_sym changed_irrefl by auto
  next
    case False
    with ab show ?thesis using changed_sym by auto
  qed
qed (auto simp: changed_irrefl)

end

lemma entryChanged_iff:
  "entryChanged a b \<longleftrightarrow>
     fe_EntryType a \<noteq> fe_EntryType b \<or> fe_MTime a \<noteq> fe_MTime b \<or> fe_Mode a \<noteq> fe_Mode b \<or>
     (fe_EntryType a = FileTypeRegularFile \<and> fe_ContentHash a \<noteq> fe_ContentHash b)"
  by (auto simp: entryChanged_def)

interpretation lww: conflict_policy entryChanged pickWinner fe_MTime
  by unfold_locales (auto simp: entryChanged_iff pickWinner_def)

text \<open>The sequence number never takes part in a comparison.\<close>

lemma entryChanged_seq [simp]:
  "entryChanged (a\<lparr>fe_Seq := n\<rparr>) b = entryChanged a b"
  "entryChanged a (b\<lparr>fe_Seq := n\<rparr>) = entryChanged a b"
  by (simp_all add: entryChanged_iff)

section \<open>What the loops emit\<close>

lemma fold_append: "fold (\<lambda>x acc. acc @ f x) xs acc = acc @ concat (map f xs)"
  by (induction xs arbitrary: acc) auto

lemma DiffInitial_eq:
  assumes "tree_ok l" "tree_ok r"
  shows "DiffInitial l r = concat (map (diff_present (ft_entries r)) (ft_entries l))"
  using assms by (simp add: DiffInitial_def fold_append Snapshot_eq)

lemma Diff_eq:
  assumes "tree_ok l" "tree_ok r"
  shows "Diff l r = DiffInitial l r @
    map (\<lambda>x. delete_event (fst x)) (filter (\<lambda>x. Get l (fst x) = None) (ft_entries r))"
proof -
  have "fold (\<lambda>(path, _) changes.
           if gm_get m path = None then changes @ [delete_event path] else changes) xs acc =
        acc @ map (\<lambda>x. delete_event (fst x)) (filter (\<lambda>x. gm_get m (fst x) = None) xs)"
    for m :: "(string, FileEntry) gomap" and xs :: "(string \<times> FileEntry) list" and acc
    by (induction xs arbitrary: acc) auto
  then show ?thesis
    using assms by (simp add: Diff_def DiffInitial_def Let_def Snapshot_eq Get_def)
qed

lemma buildSyncOps_eq: "buildSyncOps cs = concat (map sync_op_of cs)"
  by (simp add: buildSyncOps_def fold_append)

lemma buildSyncOps_append: "buildSyncOps (xs @ ys) = buildSyncOps xs @ buildSyncOps ys"
  by (simp add: buildSyncOps_eq)

lemma in_diff_present:
  "c \<in> set (diff_present m (p, e)) \<longleftrightarrow>
     gm_get m p = None \<and> c = create_event e \<or>
     (\<exists>e'. gm_get m p = Some e' \<and> entryChanged e e' \<and> c = modify_event (pickWinner e e'))"
  by (cases "gm_get m p") (auto simp: diff_present_def)

lemma in_DiffInitial:
  assumes "tree_ok l" "tree_ok r"
  shows "c \<in> set (DiffInitial l r) \<longleftrightarrow>
    (\<exists>p e. Get l p = Some e \<and> Get r p = None \<and> c = create_event e) \<or>
    (\<exists>p e e'. Get l p = Some e \<and> Get r p = Some e' \<and> entryChanged e e' \<and>
       c = modify_event (pickWinner e e'))"
proof -
  have "c \<in> set (DiffInitial l r) \<longleftrightarrow>
     (\<exists>p e. Get l p = Some e \<and> c \<in> set (diff_present (ft_entries r) (p, e)))"
    using assms by (force simp: DiffInitial_eq Get_def gm_get_Some_iff tree_okD(1))
  also have "\<dots> \<longleftrightarrow> (\<exists>p e. Get l p = Some e \<and>
      (Get r p = None \<and> c = create_event e \<or>
       (\<exists>e'. Get r p = Some e' \<and> entryChanged e e' \<and> c = modify_event (pickWinner e e'))))"
    by (simp add: in_diff_present Get_def)
  finally show ?thesis by blast
qed

lemma in_Diff:
  assumes "tree_ok l" "tree_ok r"
  shows "c \<in> set (Diff l r) \<longleftrightarrow> c \<in> set (DiffInitial l r) \<or>
    (\<exists>p. Get l p = None \<and> Get r p \<noteq> None \<and> c = delete_event p)"
proof -
  have "(\<exists>p. Get l p = None \<and> Get r p \<noteq> None \<and> c = delete_event p) \<longleftrightarrow>
    c \<in> (\<lambda>x. delete_event (fst x)) ` {x \<in> set (ft_entries r). Get l (fst x) = None}"
    by (force simp: Get_def gm_get_Some_iff [OF tree_okD(1) [OF assms(2)]])
  then show ?thesis using assms by (simp add: Diff_eq)
qed

section \<open>No path is mentioned twice\<close>

text \<open>The path an event is about: that of its entry, or the bare path of a deletion.\<close>

definition event_path :: "ChangeEvent \<Rightarrow> string" where
  "event_path c = (case ce_Entry c of Some e \<Rightarrow> fe_Path e | None \<Rightarrow> ce_Path c)"

lemma event_path_simps [simp]:
  "event_path (create_event e) = fe_Path e" "event_path (modify_event e) = fe_Path e"
  "event_path (delete_event p) = p"
  by (simp_all add: event_path_def)

lemma pickWinner_path: "fe_Path a = p \<Longrightarrow> fe_Path b = p \<Longrightarrow> fe_Path (pickWinner a b) = p"
  by (simp add: pickWinner_def)

lemma map_event_path_present:
  assumes "tree_ok r" "fe_Path (snd x) = fst x"
  shows "map event_path (diff_present (ft_entries r) x) =
    (if diff_present (ft_entries r) x = [] then [] else [fst x])"
  using assms by (auto simp: diff_present_def pickWinner_path tree_okD(2) Get_def split: option.split)

lemma distinct_concat_opt:
  assumes "distinct (map f xs)"
    and "\<And>x. x \<in> set xs \<Longrightarrow> map g (h x) = (if h x = [] then [] else [f x])"
  shows "distinct (map g (concat (map h xs)))"
    and "set (map g (concat (map h xs))) \<subseteq> f ` set xs"
proof -
  have eq: "map g (concat (map h xs)) = map f (filter (\<lambda>x. h x \<noteq> []) xs)"
    using assms(2) by (induction xs) auto
  show "distinct (map g (concat (map h xs)))"
    using assms(1) by (simp add: eq distinct_map_filter)
  show "set (map g (concat (map h xs))) \<subseteq> f ` set xs"
    by (auto simp add: eq)
qed

lemma DiffInitial_paths:
  assumes "tree_ok l" "tree_ok r"
  shows "distinct (map event_path (DiffInitial l r))"
    and "event_path ` set (DiffInitial l r) \<subseteq> {p. Get l p \<noteq> None}"
proof -
  have "distinct (map fst (ft_entries l))"
    using assms by (simp add: tree_ok_def gm_ok_def)
  moreover have "\<And>x. x \<in> set (ft_entries l) \<Longrightarrow> map event_path (diff_present (ft_entries r) x) =
      (if diff_present (ft_entries r) x = [] then [] else [fst x])"
    using assms by (intro map_event_path_present) (auto simp: tree_ok_def)
  ultimately show "distinct (map event_path (DiffInitial l r))"
    using assms by (simp add: DiffInitial_eq distinct_concat_opt(1))
  show "event_path ` set (DiffInitial l r) \<subseteq> {p. Get l p \<noteq> None}"
    using assms tree_okD(2) by (auto simp: in_DiffInitial pickWinner_path)
qed

lemma Diff_paths:
  assumes "tree_ok l" "tree_ok r"
  shows "distinct (map event_path (Diff l r))"
proof -
  have "distinct (map fst (ft_entries r))"
    using assms by (simp add: tree_ok_def gm_ok_def)
  then have "distinct (map fst (filter (\<lambda>x. Get l (fst x) = None) (ft_entries r)))"
    by (rule distinct_map_filter)
  then show ?thesis
    using assms DiffInitial_paths [OF assms] by (auto simp: Diff_eq comp_def)
qed

section \<open>Acting on the events\<close>

text \<open>
  The effect the events have on the tree of the side that receives them: an entry is stored, a
  deletion removes its path. This is the abstract reading of the operations of \<open>buildSyncOps\<close>.
\<close>

definition act :: "FileTree \<Rightarrow> ChangeEvent \<Rightarrow> FileTree" where
  "act t c =
     (case ce_Entry c of
        Some e \<Rightarrow> t\<lparr>ft_entries := gm_set (ft_entries t) (fe_Path e) e\<rparr>
      | None \<Rightarrow> Remove t (ce_Path c))"

lemma Get_act:
  "Get (act t c) p = (if p = event_path c then ce_Entry c else Get t p)"
  by (simp add: act_def Get_def event_path_def Remove_def split: option.split)

lemma Get_act_other: "p \<notin> event_path ` set cs \<Longrightarrow> Get (foldl act t cs) p = Get t p"
  by (induction cs arbitrary: t) (auto simp: Get_act)

lemma Get_act_in:
  assumes "distinct (map event_path cs)" "c \<in> set cs"
  shows "Get (foldl act t cs) (event_path c) = ce_Entry c"
  using assms
proof (induction cs arbitrary: t)
  case Nil
  then show ?case by simp
next
  case (Cons x cs)
  show ?case
  proof (cases "c = x")
    case True
    with Cons.prems have "event_path c \<notin> event_path ` set cs" by auto
    with True show ?thesis by (simp add: Get_act_other Get_act)
  next
    case False
    with Cons show ?thesis by simp
  qed
qed

lemma act_DiffInitial:
  assumes "tree_ok l" "tree_ok r"
  shows "Get (foldl act r (DiffInitial l r)) p = lww.merge (Get l p) (Get r p)"
proof (cases "p \<in> event_path ` set (DiffInitial l r)")
  case True
  then obtain c where c: "c \<in> set (DiffInitial l r)" "p = event_path c" by auto
  then have "Get (foldl act r (DiffInitial l r)) p = ce_Entry c"
    using Get_act_in DiffInitial_paths(1) [OF assms] by blast
  moreover have "ce_Entry c = lww.merge (Get l p) (Get r p)"
    using c assms tree_okD(2) by (auto simp: in_DiffInitial pickWinner_path)
  ultimately show ?thesis by simp
next
  case False
  then have eq: "Get (foldl act r (DiffInitial l r)) p = Get r p"
    by (rule Get_act_other)
  have "\<not> (Get l p = Some e \<and> Get r p = None)" for e
    using False assms tree_okD(2) [OF assms(1)] by (force simp: image_iff in_DiffInitial)
  moreover have "\<not> entryChanged e e'" if "Get l p = Some e" "Get r p = Some e'" for e e'
  proof
    assume "entryChanged e e'"
    with that have "modify_event (pickWinner e e') \<in> set (DiffInitial l r)"
      using assms by (auto simp: in_DiffInitial)
    moreover have "event_path (modify_event (pickWinner e e')) = p"
      using that assms tree_okD(2) by (simp add: pickWinner_path)
    ultimately show False using False by force
  qed
  ultimately show ?thesis
    by (cases "Get l p"; cases "Get r p") (auto simp: eq)
qed

lemma act_Diff:
  assumes "tree_ok l" "tree_ok r"
  shows "Get (foldl act r (Diff l r)) p =
    (case Get l p of None \<Rightarrow> None | Some e \<Rightarrow> lww.merge (Some e) (Get r p))"
proof -
  let ?ds = "map (\<lambda>x. delete_event (fst x)) (filter (\<lambda>x. Get l (fst x) = None) (ft_entries r))"
  let ?t = "foldl act r (DiffInitial l r)"
  have del: "Get (foldl act ?t ?ds) p = (if p \<in> event_path ` set ?ds then None else Get ?t p)"
  proof (cases "p \<in> event_path ` set ?ds")
    case True
    then obtain c where c: "c \<in> set ?ds" "p = event_path c" by auto
    have "distinct (map event_path ?ds)"
      using Diff_paths [OF assms] by (simp add: Diff_eq [OF assms])
    then show ?thesis using c Get_act_in [of ?ds c ?t] by auto
  qed (simp add: Get_act_other)
  have "p \<in> event_path ` set ?ds \<longleftrightarrow> Get l p = None \<and> Get r p \<noteq> None"
  proof -
    have "p \<in> event_path ` set ?ds \<longleftrightarrow> p \<in> fst ` set (ft_entries r) \<and> Get l p = None"
      by force
    then show ?thesis by (auto simp: Get_def gm_get_def map_of_eq_None_iff)
  qed
  then show ?thesis
    using assms del by (auto simp: Diff_eq act_DiffInitial split: option.split)
qed

section \<open>Properties\<close>

definition sample_entry :: "string \<Rightarrow> int \<Rightarrow> FileEntry" where
  "sample_entry p t = blank_entry\<lparr>fe_Path := p, fe_EntryType := FileTypeRegularFile, fe_MTime := t\<rparr>"

definition sample_tree :: "(string \<times> int) list \<Rightarrow> FileTree" where
  "sample_tree xs = foldl Set_tree (NewFileTree ''/d'') (map (\<lambda>(p, t). sample_entry p t) xs)"

lemma tree_ok_sample [simp]: "tree_ok (sample_tree xs)"
  unfolding sample_tree_def by (rule ft.ok_batch) simp

text \<open>C2: \<open>Diff\<close> reports exactly the differences of the two trees: a creation for every path only the
  local side has, a modification carrying the later version for every path whose entries differ, a
  deletion for every path only the remote side has, nothing else, and no path twice.\<close>

theorem Diff_exact:
  assumes "tree_ok local" "tree_ok remote"
  shows "distinct (map event_path (Diff local remote)) \<and>
    set (Diff local remote) =
      {create_event e | p e. Get local p = Some e \<and> Get remote p = None} \<union>
      {modify_event (pickWinner e e') | p e e'.
         Get local p = Some e \<and> Get remote p = Some e' \<and> entryChanged e e'} \<union>
      {delete_event p | p. Get local p = None \<and> Get remote p \<noteq> None}"
proof (intro conjI set_eqI)
  show "distinct (map event_path (Diff local remote))" using assms by (rule Diff_paths)
  show "c \<in> set (Diff local remote) \<longleftrightarrow> c \<in>
      {create_event e | p e. Get local p = Some e \<and> Get remote p = None} \<union>
      {modify_event (pickWinner e e') | p e e'.
         Get local p = Some e \<and> Get remote p = Some e' \<and> entryChanged e e'} \<union>
      {delete_event p | p. Get local p = None \<and> Get remote p \<noteq> None}" for c
    unfolding in_Diff [OF assms] in_DiffInitial [OF assms] by blast
qed

theorem Diff_exact_witness:
  "distinct (map event_path (Diff (sample_tree [(''a'', 1)]) (sample_tree [(''b'', 2)])))"
  using Diff_exact [OF tree_ok_sample tree_ok_sample, of "[(''a'', 1)]" "[(''b'', 2)]"] by blast







end
