(* ===== verification/GoPath.thy ===== *)
theory GoPath
  imports Prelude
begin

text \<open>
  The functions of \<open>path/filepath\<close> the program calls, for slash-separated paths: \<open>Clean\<close>, \<open>Join\<close>,
  \<open>Dir\<close>, \<open>Abs\<close> and \<open>Rel\<close>. They are lexical: they rewrite strings and never look at the file
  system. The main lemma says where \<open>Join(base, rel)\<close> ends up, the parent steps of \<open>rel\<close>
  included.
\<close>

section \<open>Splitting and rendering\<close>

abbreviation slash :: char where
  "slash \<equiv> CHR ''/''"

abbreviation dot :: string where
  "dot \<equiv> ''.''"

abbreviation dotdot :: string where
  "dotdot \<equiv> ''..''"

fun split_slash :: "string \<Rightarrow> string list" where
  "split_slash [] = [[]]"
| "split_slash (c # cs) =
     (if c = slash then [] # split_slash cs
      else (case split_slash cs of [] \<Rightarrow> [[c]] | w # ws \<Rightarrow> (c # w) # ws))"

fun join_slash :: "string list \<Rightarrow> string" where
  "join_slash [] = []"
| "join_slash [w] = w"
| "join_slash (w # v # ws) = w @ slash # join_slash (v # ws)"

definition rooted :: "string \<Rightarrow> bool" where
  "rooted p = (case p of [] \<Rightarrow> False | c # _ \<Rightarrow> c = slash)"

text \<open>The non-empty segments of a path, which are what the kernel looks up one by one.\<close>

definition segs :: "string \<Rightarrow> string list" where
  "segs p = filter (\<lambda>w. w \<noteq> []) (split_slash p)"

definition render :: "bool \<Rightarrow> string list \<Rightarrow> string" where
  "render r cs = (if r then slash # join_slash cs else if cs = [] then dot else join_slash cs)"

text \<open>A name a directory can hold.\<close>

definition name_ok :: "string \<Rightarrow> bool" where
  "name_ok w \<longleftrightarrow> w \<noteq> [] \<and> slash \<notin> set w \<and> w \<noteq> dot \<and> w \<noteq> dotdot"

section \<open>The functions of the package\<close>

definition clean_step :: "bool \<Rightarrow> string list \<Rightarrow> string \<Rightarrow> string list" where
  "clean_step r out w =
     (if w = [] \<or> w = dot then out
      else if w = dotdot then
        (case out of
           [] \<Rightarrow> if r then [] else [dotdot]
         | x # xs \<Rightarrow> if x = dotdot then dotdot # out else xs)
      else w # out)"

definition clean_segs :: "bool \<Rightarrow> string list \<Rightarrow> string list" where
  "clean_segs r ws = rev (foldl (clean_step r) [] ws)"

definition Clean :: "string \<Rightarrow> string" where
  "Clean p = (if p = [] then dot else render (rooted p) (clean_segs (rooted p) (split_slash p)))"

definition Join :: "string \<Rightarrow> string \<Rightarrow> string" where
  "Join a b = (if a \<noteq> [] then Clean (a @ slash # b) else if b \<noteq> [] then Clean b else [])"

definition Dir :: "string \<Rightarrow> string" where
  "Dir p = Clean (rev (dropWhile (\<lambda>c. c \<noteq> slash) (rev p)))"

definition Abs :: "string \<Rightarrow> string \<Rightarrow> string" where
  "Abs wd p = (if rooted p then Clean p else Join wd p)"

fun strip_common :: "string list \<Rightarrow> string list \<Rightarrow> string list \<times> string list" where
  "strip_common (x # xs) (y # ys) = (if x = y then strip_common xs ys else (x # xs, y # ys))"
| "strip_common xs ys = (xs, ys)"

definition Rel :: "string \<Rightarrow> string \<Rightarrow> string res" where
  "Rel basepath targpath =
     (let base = Clean basepath; targ = Clean targpath
      in if targ = base then Inr dot
         else let base' = (if base = dot then [] else base)
              in if rooted base' \<noteq> rooted targ then Inl (ErrMsg ''Rel: cannot make relative'')
                 else case strip_common (segs base') (segs targ) of
                        (bs, ts) \<Rightarrow>
                          if bs \<noteq> [] \<and> ts \<noteq> [] \<and> hd bs = dotdot
                          then Inl (ErrMsg ''Rel: cannot make relative'')
                          else Inr (join_slash (replicate (length bs) dotdot @ ts)))"

section \<open>Splitting undoes rendering\<close>

lemma split_slash_nonempty [simp]: "split_slash s \<noteq> []"
  by (induction s) (auto split: list.split)

lemma split_slash_word: "slash \<notin> set w \<Longrightarrow> split_slash w = [w]"
  by (induction w) auto

lemma split_slash_append:
  "slash \<notin> set w \<Longrightarrow> split_slash (w @ slash # s) = w # split_slash s"
  by (induction w) auto

lemma split_join:
  assumes "ws \<noteq> []" "\<forall>w \<in> set ws. slash \<notin> set w"
  shows "split_slash (join_slash ws) = ws"
  using assms by (induction ws rule: join_slash.induct) (auto simp: split_slash_word split_slash_append)

lemma split_slash_sep:
  "split_slash (a @ slash # b) = split_slash a @ split_slash b"
proof (induction a)
  case Nil
  show ?case by simp
next
  case (Cons c a)
  then show ?case by (cases "split_slash a") (auto split: list.split)
qed

lemma split_slash_no_slash: "w \<in> set (split_slash s) \<Longrightarrow> slash \<notin> set w"
proof (induction s arbitrary: w)
  case Nil
  then show ?case by simp
next
  case (Cons c s)
  then show ?case by (cases "split_slash s") (auto split: if_splits list.splits)
qed

lemma segs_sep: "segs (a @ slash # b) = segs a @ segs b"
  by (simp add: segs_def split_slash_sep)

lemma segs_Nil [simp]: "segs [] = []"
  by (simp add: segs_def)

lemma segs_slash_Cons [simp]: "segs (slash # s) = segs s"
  by (simp add: segs_def)

lemma segs_join:
  assumes "\<forall>w \<in> set ws. slash \<notin> set w \<and> w \<noteq> []"
  shows "segs (join_slash ws) = ws"
  using assms by (cases "ws = []") (auto simp: segs_def split_join)

lemma segs_render: "\<forall>w \<in> set ws. slash \<notin> set w \<and> w \<noteq> [] \<Longrightarrow> segs (render True ws) = ws"
  by (simp add: render_def segs_join)

lemma name_ok_no_slash: "\<forall>w \<in> set ws. name_ok w \<Longrightarrow> \<forall>w \<in> set ws. slash \<notin> set w \<and> w \<noteq> []"
  by (auto simp: name_ok_def)

lemma rooted_render [simp]: "rooted (render True ws)"
  by (simp add: rooted_def render_def)

lemma rooted_append: "a \<noteq> [] \<Longrightarrow> rooted (a @ b) = rooted a"
  by (cases a) (auto simp: rooted_def)

section \<open>Cleaning\<close>

lemma clean_step_name [simp]: "name_ok w \<Longrightarrow> clean_step r out w = w # out"
  by (auto simp: clean_step_def name_ok_def)

lemma clean_step_skip [simp]: "clean_step r out [] = out" "clean_step r out dot = out"
  by (simp_all add: clean_step_def)

lemma foldl_clean_names: "\<forall>w \<in> set ws. name_ok w \<Longrightarrow> foldl (clean_step r) out ws = rev ws @ out"
  by (induction ws arbitrary: out) auto

lemma clean_segs_names: "\<forall>w \<in> set ws. name_ok w \<Longrightarrow> clean_segs r ws = ws"
  by (simp add: clean_segs_def foldl_clean_names)

lemma foldl_clean_filter:
  "foldl (clean_step r) out (filter (\<lambda>w. w \<noteq> []) ws) = foldl (clean_step r) out ws"
  by (induction ws arbitrary: out) auto

lemma clean_segs_filter: "clean_segs r (filter (\<lambda>w. w \<noteq> []) ws) = clean_segs r ws"
  by (simp add: clean_segs_def foldl_clean_filter)

lemma Clean_eq: "p \<noteq> [] \<Longrightarrow> Clean p = render (rooted p) (clean_segs (rooted p) (segs p))"
  by (simp add: Clean_def segs_def clean_segs_filter)

text \<open>
  Without a root, a cleaned path is some number of parent steps followed by names. Cleaning the
  same segments behind an absolute directory \<open>bs\<close> walks that many steps up from \<open>bs\<close>, stopping at
  the root, and then down the names.
\<close>

definition ups :: "string list \<Rightarrow> nat" where
  "ups ws = length (takeWhile (\<lambda>w. w = dotdot) (clean_segs False ws))"

definition downs :: "string list \<Rightarrow> string list" where
  "downs ws = dropWhile (\<lambda>w. w = dotdot) (clean_segs False ws)"

lemma foldl_clean_shape:
  assumes "\<forall>w \<in> set ws. slash \<notin> set w" "\<forall>w \<in> set rs. name_ok w" "\<forall>w \<in> set bs. name_ok w"
  shows "\<exists>rs' k'. (\<forall>w \<in> set rs'. name_ok w) \<and>
    foldl (clean_step False) (rs @ replicate k dotdot) ws = rs' @ replicate k' dotdot \<and>
    foldl (clean_step True) (rs @ drop k bs) ws = rs' @ drop k' bs"
  using assms(1,2)
proof (induction ws arbitrary: rs k)
  case Nil
  then show ?case by auto
next
  case (Cons w ws)
  have dd: "\<not> name_ok dotdot" by (simp add: name_ok_def)
  consider (skip) "w = [] \<or> w = dot" | (up) "w = dotdot" | (name) "name_ok w"
    using Cons.prems(1) by (auto simp: name_ok_def)
  then show ?case
  proof cases
    case skip
    then have "clean_step r out w = out" for r out by auto
    then show ?thesis using Cons.IH [of rs k] Cons.prems by auto
  next
    case name
    then have "clean_step r out w = w # out" for r out by simp
    then show ?thesis using Cons.IH [of "w # rs" k] Cons.prems name by auto
  next
    case up
    show ?thesis
    proof (cases rs)
      case (Cons x xs)
      then have "x \<noteq> dotdot" using Cons.prems(2) dd by auto
      then have "clean_step r (rs @ l) w = xs @ l" for r l
        by (simp add: up Cons clean_step_def)
      then show ?thesis using Cons.IH [of xs k] Cons.prems \<open>rs = x # xs\<close> by auto
    next
      case Nil
      have f: "clean_step False (replicate k dotdot) w = replicate (Suc k) dotdot"
        by (cases k) (auto simp: up clean_step_def)
      have "clean_step True (drop k bs) w = drop (Suc k) bs"
      proof (cases "drop k bs")
        case Nil
        then show ?thesis by (simp add: up clean_step_def)
      next
        case (Cons y ys)
        then have "y \<noteq> dotdot" using assms(3) dd by (metis in_set_dropD list.set_intros(1))
        moreover have "drop (Suc k) bs = ys" using Cons by (simp add: drop_Suc drop_tl)
        ultimately show ?thesis using Cons by (simp add: up clean_step_def)
      qed
      then show ?thesis using Cons.IH [of "[]" "Suc k"] Cons.prems f Nil by simp
    qed
  qed
qed

lemma clean_shape:
  assumes "\<forall>w \<in> set ws. slash \<notin> set w" "\<forall>w \<in> set bs. name_ok w"
  shows "\<forall>w \<in> set (downs ws). name_ok w"
    and "clean_segs False ws = replicate (ups ws) dotdot @ downs ws"
    and "clean_segs True (bs @ ws) = take (length bs - ups ws) bs @ downs ws"
proof -
  obtain rs k where rs: "\<forall>w \<in> set rs. name_ok w"
    and F: "foldl (clean_step False) [] ws = rs @ replicate k dotdot"
    and T: "foldl (clean_step True) (rev bs) ws = rs @ drop k (rev bs)"
    using foldl_clean_shape [of ws "[]" "rev bs" 0] assms by auto
  have c: "clean_segs False ws = replicate k dotdot @ rev rs"
    by (simp add: clean_segs_def F)
  have "rev rs = [] \<or> hd (rev rs) \<noteq> dotdot"
    using rs by (cases rs rule: rev_cases) (auto simp: name_ok_def)
  then have tw: "takeWhile (\<lambda>w. w = dotdot) (rev rs) = []" "dropWhile (\<lambda>w. w = dotdot) (rev rs) = rev rs"
    by (cases "rev rs"; auto)+
  have u: "ups ws = k"
    by (simp add: ups_def c takeWhile_append tw)
  have d: "downs ws = rev rs"
    by (simp add: downs_def c dropWhile_append tw)
  show "\<forall>w \<in> set (downs ws). name_ok w" using rs by (simp add: d)
  show "clean_segs False ws = replicate (ups ws) dotdot @ downs ws" by (simp add: c u d)
  show "clean_segs True (bs @ ws) = take (length bs - ups ws) bs @ downs ws"
    using T by (simp add: clean_segs_def foldl_clean_names assms(2) u d rev_drop)
qed

lemma segs_no_slash: "w \<in> set (segs s) \<Longrightarrow> slash \<notin> set w \<and> w \<noteq> []"
  by (auto simp: segs_def dest: split_slash_no_slash)

text \<open>Where \<open>Join\<close> lands: \<open>ups\<close> levels above the base, then down the remaining names.\<close>

lemma Join_abs:
  assumes "\<forall>w \<in> set bs. name_ok w"
  shows "Join (render True bs) rel = render True (take (length bs - ups (segs rel)) bs @ downs (segs rel))"
proof -
  have ne: "render True bs \<noteq> []" by (simp add: render_def)
  have "segs (render True bs @ slash # rel) = bs @ segs rel"
    using assms by (simp add: segs_sep segs_render name_ok_no_slash)
  moreover have "rooted (render True bs @ slash # rel)"
    using ne by (simp add: rooted_append)
  ultimately have "Join (render True bs) rel = render True (clean_segs True (bs @ segs rel))"
    using ne by (simp add: Join_def Clean_eq)
  then show ?thesis
    using clean_shape(3) [of "segs rel" bs] assms segs_no_slash by auto
qed

lemma ups_names: "\<forall>w \<in> set ws. name_ok w \<Longrightarrow> ups ws = 0"
  unfolding ups_def by (cases ws) (auto simp: clean_segs_names name_ok_def)

lemma downs_names: "\<forall>w \<in> set ws. name_ok w \<Longrightarrow> downs ws = ws"
  unfolding downs_def by (cases ws) (auto simp: clean_segs_names name_ok_def)

lemma Join_names:
  assumes "\<forall>w \<in> set bs. name_ok w" "\<forall>w \<in> set rs. name_ok w"
  shows "Join (render True bs) (join_slash rs) = render True (bs @ rs)"
proof -
  have "segs (join_slash rs) = rs" using assms(2) by (simp add: segs_join name_ok_no_slash)
  with assms show ?thesis by (simp add: Join_abs ups_names downs_names)
qed

lemma Clean_abs:
  assumes "\<forall>w \<in> set bs. name_ok w"
  shows "Clean (render True bs) = render True bs"
  using assms
  by (simp add: Clean_eq render_def rooted_def segs_join name_ok_no_slash clean_segs_names)

lemma render_inject:
  assumes "\<forall>w \<in> set xs. name_ok w" "\<forall>w \<in> set ys. name_ok w"
  shows "render True xs = render True ys \<longleftrightarrow> xs = ys"
  using assms segs_render name_ok_no_slash by metis

lemma join_slash_inject:
  assumes "\<forall>w \<in> set xs. name_ok w" "\<forall>w \<in> set ys. name_ok w"
  shows "join_slash xs = join_slash ys \<longleftrightarrow> xs = ys"
  using assms segs_join name_ok_no_slash by metis

lemma strip_common_prefix: "strip_common bs (bs @ rs) = ([], rs)"
  by (induction bs) simp_all

lemma Rel_below:
  assumes "\<forall>w \<in> set bs. name_ok w" "\<forall>w \<in> set rs. name_ok w" "rs \<noteq> []"
  shows "Rel (render True bs) (render True (bs @ rs)) = Inr (join_slash rs)"
proof -
  have ok: "\<forall>w \<in> set (bs @ rs). name_ok w" using assms by auto
  have "render True (bs @ rs) \<noteq> render True bs"
    using assms ok by (simp add: render_inject)
  moreover have "render True bs \<noteq> dot" by (simp add: render_def)
  moreover have "segs (render True bs) = bs" "segs (render True (bs @ rs)) = bs @ rs"
    using assms(1) ok segs_render name_ok_no_slash by blast+
  ultimately show ?thesis
    using Clean_abs [OF assms(1)] Clean_abs [OF ok] by (simp add: Rel_def Let_def strip_common_prefix)
qed

lemma takeWhile_rev_last_slash:
  assumes "slash \<notin> set w"
  shows "dropWhile (\<lambda>c. c \<noteq> slash) (rev (s @ slash # w)) = slash # rev s"
proof -
  have "dropWhile (\<lambda>c. c \<noteq> slash) (rev w @ slash # rev s) = slash # rev s"
    using assms by (subst dropWhile_append2) auto
  then show ?thesis by simp
qed

lemma join_slash_snoc: "xs \<noteq> [] \<Longrightarrow> join_slash (xs @ [w]) = join_slash xs @ slash # w"
  by (induction xs rule: join_slash.induct) auto

lemma Dir_render:
  assumes "\<forall>w \<in> set bs. name_ok w" "name_ok w"
  shows "Dir (render True (bs @ [w])) = render True bs"
proof -
  have w: "slash \<notin> set w" using assms(2) by (simp add: name_ok_def)
  show ?thesis
  proof (cases "bs = []")
    case True
    have "dropWhile (\<lambda>c. c \<noteq> slash) (rev (render True ([] @ [w]))) = [slash]"
      using takeWhile_rev_last_slash [OF w, of "[]"] by (simp add: render_def)
    then show ?thesis
      using True by (simp add: Dir_def Clean_eq rooted_def clean_segs_def render_def)
  next
    case False
    have "render True (bs @ [w]) = render True bs @ slash # w"
      using False by (simp add: render_def join_slash_snoc)
    then have "Dir (render True (bs @ [w])) = Clean (render True bs @ slash # [])"
      using takeWhile_rev_last_slash [OF w, of "render True bs"] by (simp add: Dir_def)
    also have "\<dots> = render True bs"
    proof -
      have "segs (render True bs @ slash # []) = bs"
        using assms by (simp add: segs_sep segs_render name_ok_no_slash)
      moreover have "rooted (render True bs @ slash # [])"
        by (simp add: rooted_append render_def rooted_def)
      ultimately show ?thesis
        using assms by (simp add: Clean_eq clean_segs_names)
    qed
    finally show ?thesis .
  qed
qed

end
