(* ===== verification/GoOs.thy ===== *)
theory GoOs
  imports GoPath
begin

text \<open>
  The operations of package \<open>os\<close> the program calls, over an explicit file system: a map from
  absolute component lists to nodes, with the clock, the umask and the working directory of the
  process. Symbolic links are followed the way the kernel does, up to forty of them. What the
  program cannot foresee, such as a permission denied or a full disk, is a field of the state that
  may refuse any system call on any path; an operation that is refused reports the error and
  leaves its effect out. Device nodes, sockets and pipes are \<open>KOther\<close>; opening one reports \<open>EIO\<close>.

  Every operation that changes the file system meets one contract, the locale \<open>fs_action\<close>: it
  keeps the tree well formed and does not touch the process environment.
\<close>

unbundle bit_operations_syntax

section \<open>State\<close>

type_synonym fpath = "string list"

datatype kind = KFile "byte list" | KDir | KLink string | KOther

record node =
  n_kind :: kind
  n_mode :: u32
  n_mtime :: int
  n_atime :: int

datatype syscall =
    SStat | SMkdir | SOpen | SCreate | SRead | SWrite | SRemove | SRename | SChmod | SUtimes
  | SReaddir

record fs =
  fs_nodes :: "(fpath, node) gomap"
  fs_cwd :: fpath
  fs_umask :: u32
  fs_dirsize :: u64
  fs_clock :: int
  fs_fault :: "syscall \<Rightarrow> fpath \<Rightarrow> errno option"

definition look :: "fs \<Rightarrow> fpath \<Rightarrow> node option" where
  "look fs p = gm_get (fs_nodes fs) p"

definition put :: "fs \<Rightarrow> fpath \<Rightarrow> node \<Rightarrow> fs" where
  "put fs p nd = fs\<lparr>fs_nodes := gm_set (fs_nodes fs) p nd\<rparr>"

definition is_dir :: "fs \<Rightarrow> fpath \<Rightarrow> bool" where
  "is_dir fs p = (case look fs p of Some nd \<Rightarrow> n_kind nd = KDir | None \<Rightarrow> False)"

definition new_node :: "fs \<Rightarrow> kind \<Rightarrow> u32 \<Rightarrow> node" where
  "new_node fs k mode =
     \<lparr>n_kind = k, n_mode = mode AND NOT (fs_umask fs), n_mtime = fs_clock fs, n_atime = fs_clock fs\<rparr>"

text \<open>Adding or removing a directory entry stamps the directory.\<close>

definition stamp_dir :: "fs \<Rightarrow> fpath \<Rightarrow> fs" where
  "stamp_dir fs p =
     (case look fs p of None \<Rightarrow> fs | Some nd \<Rightarrow> put fs p (nd\<lparr>n_mtime := fs_clock fs\<rparr>))"

definition add_node :: "fs \<Rightarrow> fpath \<Rightarrow> node \<Rightarrow> fs" where
  "add_node fs p nd = stamp_dir (put fs p nd) (butlast p)"

text \<open>\<open>syscallMode\<close>: the permission bits, and the set-user, set-group and sticky bits, which
  \<open>os.FileMode\<close> keeps elsewhere in the word.\<close>

definition syscallMode :: "u32 \<Rightarrow> u32" where
  "syscallMode m =
     (m AND 511) OR (if bit m 23 then 2048 else 0) OR (if bit m 22 then 1024 else 0)
       OR (if bit m 20 then 512 else 0)"

definition perm_bits :: "u32 \<Rightarrow> u32" where
  "perm_bits m = m AND 511"

section \<open>Path resolution\<close>

function (sequential) walk :: "nat \<Rightarrow> fs \<Rightarrow> bool \<Rightarrow> fpath \<Rightarrow> string list \<Rightarrow> errno + fpath" where
  "walk n fs fol cur [] = Inr cur"
| "walk n fs fol cur (w # ws) =
     (if w = [] \<or> w = dot then walk n fs fol cur ws
      else if w = dotdot then walk n fs fol (butlast cur) ws
      else
        (case look fs (cur @ [w]) of
           None \<Rightarrow> if ws = [] then Inr (cur @ [w]) else Inl ENOENT
         | Some nd \<Rightarrow>
             (case n_kind nd of
                KDir \<Rightarrow> walk n fs fol (cur @ [w]) ws
              | KLink target \<Rightarrow>
                  if ws = [] \<and> \<not> fol then Inr (cur @ [w])
                  else if n = 0 then Inl ELOOP
                  else walk (n - 1) fs fol (if rooted target then [] else cur) (segs target @ ws)
              | _ \<Rightarrow> if ws = [] then Inr (cur @ [w]) else Inl ENOTDIR)))"
  by pat_completeness auto
termination
  by (relation "measures [\<lambda>(n, _, _, _, _). n, \<lambda>(_, _, _, _, ws). length ws]") auto

text \<open>The kernel's limit on symbolic links in one resolution.\<close>

definition max_links :: nat where
  "max_links = 40"

definition start_at :: "fs \<Rightarrow> bool \<Rightarrow> fpath" where
  "start_at fs r = (if r then [] else fs_cwd fs)"

definition resolve_at :: "fs \<Rightarrow> bool \<Rightarrow> bool \<Rightarrow> string list \<Rightarrow> errno + fpath" where
  "resolve_at fs fol r ws =
     (if is_dir fs (start_at fs r) then walk max_links fs fol (start_at fs r) ws else Inl ENOENT)"

definition resolve :: "fs \<Rightarrow> bool \<Rightarrow> string \<Rightarrow> errno + fpath" where
  "resolve fs fol path = resolve_at fs fol (rooted path) (segs path)"

section \<open>Queries\<close>

definition stat_at :: "bool \<Rightarrow> bool \<Rightarrow> string list \<Rightarrow> fs \<Rightarrow> node res" where
  "stat_at fol r ws fs =
     (case resolve_at fs fol r ws of
        Inl e \<Rightarrow> Inl (OsError e)
      | Inr p \<Rightarrow>
          (case fs_fault fs SStat p of
             Some e \<Rightarrow> Inl (OsError e)
           | None \<Rightarrow> (case look fs p of None \<Rightarrow> Inl (OsError ENOENT) | Some nd \<Rightarrow> Inr nd)))"

definition Lstat :: "string \<Rightarrow> fs \<Rightarrow> node res" where
  "Lstat path fs = stat_at False (rooted path) (segs path) fs"

definition Stat :: "string \<Rightarrow> fs \<Rightarrow> node res" where
  "Stat path fs = stat_at True (rooted path) (segs path) fs"

text \<open>\<open>os.Open\<close> for reading; the handle is the resolved path. A directory can be opened, but
  reading it as a file fails.\<close>

definition OpenRead :: "string \<Rightarrow> fs \<Rightarrow> fpath res" where
  "OpenRead path fs =
     (case resolve fs True path of
        Inl e \<Rightarrow> Inl (OsError e)
      | Inr p \<Rightarrow>
          (case fs_fault fs SOpen p of
             Some e \<Rightarrow> Inl (OsError e)
           | None \<Rightarrow>
               (case look fs p of
                  None \<Rightarrow> Inl (OsError ENOENT)
                | Some nd \<Rightarrow> if n_kind nd = KOther then Inl (OsError EIO) else Inr p)))"

text \<open>All the bytes behind a handle, or the error of the first read.\<close>

definition ReadFrom :: "fpath \<Rightarrow> fs \<Rightarrow> byte list res" where
  "ReadFrom p fs =
     (case fs_fault fs SRead p of
        Some e \<Rightarrow> Inl (OsError e)
      | None \<Rightarrow>
          (case look fs p of
             None \<Rightarrow> Inl (OsError EIO)
           | Some nd \<Rightarrow>
               (case n_kind nd of
                  KFile d \<Rightarrow> Inr d
                | KDir \<Rightarrow> Inl (OsError EISDIR)
                | _ \<Rightarrow> Inl (OsError EIO))))"

text \<open>\<open>FileInfo.Size\<close>; that of a directory or a special file is up to the file system.\<close>

definition info_size :: "fs \<Rightarrow> node \<Rightarrow> u64" where
  "info_size fs nd =
     (case n_kind nd of
        KFile d \<Rightarrow> of_nat (length d)
      | KLink t \<Rightarrow> of_nat (length t)
      | _ \<Rightarrow> fs_dirsize fs)"

section \<open>Changes\<close>

definition mkdir_at :: "bool \<Rightarrow> string list \<Rightarrow> u32 \<Rightarrow> fs \<Rightarrow> unit res \<times> fs" where
  "mkdir_at r ws perm fs =
     (case resolve_at fs False r ws of
        Inl e \<Rightarrow> (Inl (OsError e), fs)
      | Inr p \<Rightarrow>
          (case fs_fault fs SMkdir p of
             Some e \<Rightarrow> (Inl (OsError e), fs)
           | None \<Rightarrow>
               if look fs p \<noteq> None then (Inl (OsError EEXIST), fs)
               else (Inr (), add_node fs p (new_node fs KDir (syscallMode perm)))))"

text \<open>\<open>os.MkdirAll\<close>, with the segments in reverse so that the recursion on the parent is
  structural.\<close>

fun mkdir_all :: "bool \<Rightarrow> string list \<Rightarrow> u32 \<Rightarrow> fs \<Rightarrow> unit res \<times> fs" where
  "mkdir_all r [] perm fs = (Inr (), fs)"
| "mkdir_all r (w # rws) perm fs =
     (case stat_at True r (rev (w # rws)) fs of
        Inr nd \<Rightarrow> if n_kind nd = KDir then (Inr (), fs) else (Inl (OsError ENOTDIR), fs)
      | Inl _ \<Rightarrow>
          (case mkdir_all r rws perm fs of
             (Inl e, fs1) \<Rightarrow> (Inl e, fs1)
           | (Inr _, fs1) \<Rightarrow>
               (case mkdir_at r (rev (w # rws)) perm fs1 of
                  (Inr _, fs2) \<Rightarrow> (Inr (), fs2)
                | (Inl e, fs2) \<Rightarrow>
                    (case stat_at False r (rev (w # rws)) fs2 of
                       Inr nd \<Rightarrow> if n_kind nd = KDir then (Inr (), fs2) else (Inl e, fs2)
                     | Inl _ \<Rightarrow> (Inl e, fs2)))))"

definition MkdirAll :: "string \<Rightarrow> u32 \<Rightarrow> fs \<Rightarrow> unit res \<times> fs" where
  "MkdirAll path perm fs = mkdir_all (rooted path) (rev (segs path)) perm fs"

text \<open>\<open>os.OpenFile\<close> for writing with \<open>O_CREATE\<close>, and \<open>O_TRUNC\<close> when \<open>trunc\<close>. The handle is the
  resolved path.\<close>

definition open_create :: "string \<Rightarrow> bool \<Rightarrow> u32 \<Rightarrow> fs \<Rightarrow> fpath res \<times> fs" where
  "open_create path trunc perm fs =
     (case resolve fs True path of
        Inl e \<Rightarrow> (Inl (OsError e), fs)
      | Inr p \<Rightarrow>
          (case fs_fault fs SOpen p of
             Some e \<Rightarrow> (Inl (OsError e), fs)
           | None \<Rightarrow>
               (case look fs p of
                  None \<Rightarrow>
                    (case fs_fault fs SCreate p of
                       Some e \<Rightarrow> (Inl (OsError e), fs)
                     | None \<Rightarrow> (Inr p, add_node fs p (new_node fs (KFile []) perm)))
                | Some nd \<Rightarrow>
                    (case n_kind nd of
                       KFile d \<Rightarrow>
                         (Inr p, if trunc then put fs p (nd\<lparr>n_kind := KFile [], n_mtime := fs_clock fs\<rparr>)
                                 else fs)
                     | KDir \<Rightarrow> (Inl (OsError EISDIR), fs)
                     | _ \<Rightarrow> (Inl (OsError EIO), fs)))))"

definition Create :: "string \<Rightarrow> fs \<Rightarrow> fpath res \<times> fs" where
  "Create path = open_create path True 438"

text \<open>The bytes of a file after writing \<open>data\<close> at \<open>off\<close>; a gap reads as zeros.\<close>

definition splice :: "byte list \<Rightarrow> nat \<Rightarrow> byte list \<Rightarrow> byte list" where
  "splice old off data =
     take off old @ replicate (off - length old) 0 @ data @ drop (off + length data) old"

text \<open>\<open>File.WriteAt\<close>: a negative offset is refused before anything else; with no bytes to write
  no system call is made.\<close>

definition WriteAt :: "fpath \<Rightarrow> byte list \<Rightarrow> int \<Rightarrow> fs \<Rightarrow> unit res \<times> fs" where
  "WriteAt p data off fs =
     (if off < 0 then (Inl (ErrMsg ''negative offset''), fs)
      else if data = [] then (Inr (), fs)
      else
        (case fs_fault fs SWrite p of
           Some e \<Rightarrow> (Inl (OsError e), fs)
         | None \<Rightarrow>
             (case look fs p of
                Some nd \<Rightarrow>
                  (case n_kind nd of
                     KFile d \<Rightarrow>
                       (Inr (), put fs p (nd\<lparr>n_kind := KFile (splice d (nat off) data),
                                          n_mtime := fs_clock fs\<rparr>))
                   | _ \<Rightarrow> (Inl (OsError EIO), fs))
              | None \<Rightarrow> (Inl (OsError EIO), fs))))"

definition Chmod :: "string \<Rightarrow> u32 \<Rightarrow> fs \<Rightarrow> unit res \<times> fs" where
  "Chmod path mode fs =
     (case resolve fs True path of
        Inl e \<Rightarrow> (Inl (OsError e), fs)
      | Inr p \<Rightarrow>
          (case look fs p of
             None \<Rightarrow> (Inl (OsError ENOENT), fs)
           | Some nd \<Rightarrow>
               (case fs_fault fs SChmod p of
                  Some e \<Rightarrow> (Inl (OsError e), fs)
                | None \<Rightarrow> (Inr (), put fs p (nd\<lparr>n_mode := syscallMode mode\<rparr>)))))"

definition Chtimes :: "string \<Rightarrow> int \<Rightarrow> int \<Rightarrow> fs \<Rightarrow> unit res \<times> fs" where
  "Chtimes path atime mtime fs =
     (case resolve fs True path of
        Inl e \<Rightarrow> (Inl (OsError e), fs)
      | Inr p \<Rightarrow>
          (case look fs p of
             None \<Rightarrow> (Inl (OsError ENOENT), fs)
           | Some nd \<Rightarrow>
               (case fs_fault fs SUtimes p of
                  Some e \<Rightarrow> (Inl (OsError e), fs)
                | None \<Rightarrow> (Inr (), put fs p (nd\<lparr>n_mtime := mtime, n_atime := atime\<rparr>)))))"

text \<open>
  \<open>os.RemoveAll\<close>: removing what does not exist succeeds. A node that may not be removed stays, with
  the directories above it, and the first refusal is reported. The root itself is always busy.
\<close>

definition stuck :: "fs \<Rightarrow> fpath \<Rightarrow> errno option" where
  "stuck fs p =
     (case find (\<lambda>q. prefix p q \<and> fs_fault fs SRemove q \<noteq> None) (gm_keys (fs_nodes fs)) of
        None \<Rightarrow> if p = [] then Some EBUSY else None
      | Some q \<Rightarrow> fs_fault fs SRemove q)"

definition drop_tree :: "fs \<Rightarrow> fpath \<Rightarrow> fs" where
  "drop_tree fs p =
     fs\<lparr>fs_nodes := filter (\<lambda>(q, _). \<not> (prefix p q \<and> stuck fs q = None)) (fs_nodes fs)\<rparr>"

definition ends_with_dot :: "string \<Rightarrow> bool" where
  "ends_with_dot s =
     (s = dot \<or> (length s \<ge> 2 \<and> last s = CHR ''.'' \<and> s ! (length s - 2) = slash))"

definition RemoveAll :: "string \<Rightarrow> fs \<Rightarrow> unit res \<times> fs" where
  "RemoveAll path fs =
     (if path = [] then (Inr (), fs)
      else if ends_with_dot path then (Inl (OsError EINVAL), fs)
      else
        (case resolve fs False path of
           Inl e \<Rightarrow> (if e = ENOENT then Inr () else Inl (OsError e), fs)
         | Inr p \<Rightarrow>
             if look fs p = None then (Inr (), fs)
             else
               (case stuck fs p of
                  Some e \<Rightarrow> (Inl (OsError e), drop_tree fs p)
                | None \<Rightarrow> (Inr (), stamp_dir (drop_tree fs p) (butlast p)))))"

definition has_child :: "fs \<Rightarrow> fpath \<Rightarrow> bool" where
  "has_child fs p = (\<exists>q \<in> set (gm_keys (fs_nodes fs)). strict_prefix p q)"

definition Remove_path :: "string \<Rightarrow> fs \<Rightarrow> unit res \<times> fs" where
  "Remove_path path fs =
     (case resolve fs False path of
        Inl e \<Rightarrow> (Inl (OsError e), fs)
      | Inr p \<Rightarrow>
          if look fs p = None then (Inl (OsError ENOENT), fs)
          else if p = [] \<or> has_child fs p then (Inl (OsError ENOTEMPTY), fs)
          else
            (case fs_fault fs SRemove p of
               Some e \<Rightarrow> (Inl (OsError e), fs)
             | None \<Rightarrow>
                 (Inr (), stamp_dir (fs\<lparr>fs_nodes := gm_delete (fs_nodes fs) p\<rparr>) (butlast p))))"

definition move_key :: "fpath \<Rightarrow> fpath \<Rightarrow> fpath \<Rightarrow> fpath" where
  "move_key po pn q = (if prefix po q then pn @ drop (length po) q else q)"

definition move_tree :: "fs \<Rightarrow> fpath \<Rightarrow> fpath \<Rightarrow> fs" where
  "move_tree fs po pn =
     fs\<lparr>fs_nodes := map (\<lambda>(q, nd). (move_key po pn q, nd)) (gm_delete (fs_nodes fs) pn)\<rparr>"

definition Rename :: "string \<Rightarrow> string \<Rightarrow> fs \<Rightarrow> unit res \<times> fs" where
  "Rename oldname newname fs =
     (case resolve fs False oldname of
        Inl e \<Rightarrow> (Inl (OsError e), fs)
      | Inr po \<Rightarrow>
          (case resolve fs False newname of
             Inl e \<Rightarrow> (Inl (OsError e), fs)
           | Inr pn \<Rightarrow>
               if look fs po = None then (Inl (OsError ENOENT), fs)
               else if is_dir fs pn then (Inl (OsError EEXIST), fs)
               else if po = pn then (Inr (), fs)
               else if prefix po pn then (Inl (OsError EINVAL), fs)
               else if is_dir fs po \<and> look fs pn \<noteq> None then (Inl (OsError ENOTDIR), fs)
               else
                 (case fs_fault fs SRename po of
                    Some e \<Rightarrow> (Inl (OsError e), fs)
                  | None \<Rightarrow>
                      (Inr (), stamp_dir (stamp_dir (move_tree fs po pn) (butlast po)) (butlast pn)))))"


section \<open>Well-formed file systems\<close>

text \<open>Every node but the root has a proper name and lies in a directory.\<close>

definition placed :: "fs \<Rightarrow> fpath \<Rightarrow> bool" where
  "placed fs p \<longleftrightarrow> p \<noteq> [] \<and> is_dir fs (butlast p) \<and> name_ok (last p)"

definition wf_fs :: "fs \<Rightarrow> bool" where
  "wf_fs fs \<longleftrightarrow> gm_ok (fs_nodes fs) \<and> is_dir fs [] \<and>
     (\<forall>p \<in> set (gm_keys (fs_nodes fs)). p \<noteq> [] \<longrightarrow> placed fs p)"

lemma in_nodes: "p \<in> set (gm_keys (fs_nodes fs)) \<longleftrightarrow> look fs p \<noteq> None"
  by (simp add: gm_keys_get look_def)

lemma wf_fsD:
  assumes "wf_fs fs"
  shows "gm_ok (fs_nodes fs)" "is_dir fs []" "look fs p = Some nd \<Longrightarrow> p \<noteq> [] \<Longrightarrow> placed fs p"
  using assms by (auto simp: wf_fs_def in_nodes)

lemma wf_fsI:
  assumes "gm_ok (fs_nodes fs)" "is_dir fs []"
    "\<And>p nd. look fs p = Some nd \<Longrightarrow> p \<noteq> [] \<Longrightarrow> placed fs p"
  shows "wf_fs fs"
  using assms by (auto simp: wf_fs_def in_nodes)

lemma is_dirE: assumes "is_dir fs p" obtains nd where "look fs p = Some nd" "n_kind nd = KDir"
  using assms by (auto simp: is_dir_def split: option.splits)

lemma is_dirI: "look fs p = Some nd \<Longrightarrow> n_kind nd = KDir \<Longrightarrow> is_dir fs p"
  by (simp add: is_dir_def)

lemma look_put [simp]: "look (put fs p nd) q = (if q = p then Some nd else look fs q)"
  by (simp add: look_def put_def)

lemma env_put [simp]:
  "fs_cwd (put fs p nd) = fs_cwd fs" "fs_umask (put fs p nd) = fs_umask fs"
  "fs_clock (put fs p nd) = fs_clock fs" "fs_fault (put fs p nd) = fs_fault fs"
  by (simp_all add: put_def)

lemma is_dir_put: "is_dir (put fs p nd) q = (if q = p then n_kind nd = KDir else is_dir fs q)"
  by (simp add: is_dir_def)

lemma env_stamp [simp]:
  "fs_cwd (stamp_dir fs p) = fs_cwd fs" "fs_umask (stamp_dir fs p) = fs_umask fs"
  "fs_clock (stamp_dir fs p) = fs_clock fs" "fs_fault (stamp_dir fs p) = fs_fault fs"
  by (simp_all add: stamp_dir_def split: option.split)

lemma look_stamp:
  "look (stamp_dir fs p) q =
     (if q = p then map_option (\<lambda>nd. nd\<lparr>n_mtime := fs_clock fs\<rparr>) (look fs p) else look fs q)"
  by (simp add: stamp_dir_def split: option.split)

text \<open>What a node holds apart from its times; stamping a directory does not show here.\<close>

definition kind_at :: "fs \<Rightarrow> fpath \<Rightarrow> kind option" where
  "kind_at fs p = map_option n_kind (look fs p)"

lemma kind_stamp [simp]: "kind_at (stamp_dir fs p) q = kind_at fs q"
  by (simp add: kind_at_def look_stamp option.map_comp comp_def)

lemma is_dir_kind: "is_dir fs p \<longleftrightarrow> kind_at fs p = Some KDir"
  by (simp add: is_dir_def kind_at_def split: option.split)

lemma is_dir_stamp [simp]: "is_dir (stamp_dir fs p) q = is_dir fs q"
  by (simp add: is_dir_kind)

lemma kind_put: "kind_at (put fs p nd) q = (if q = p then Some (n_kind nd) else kind_at fs q)"
  by (simp add: kind_at_def)

lemma look_None_kind: "look fs p = None \<longleftrightarrow> kind_at fs p = None"
  by (simp add: kind_at_def)

lemma kind_add: "kind_at (add_node fs p nd) q = (if q = p then Some (n_kind nd) else kind_at fs q)"
  by (simp add: add_node_def kind_put)

lemma env_add [simp]:
  "fs_cwd (add_node fs p nd) = fs_cwd fs" "fs_umask (add_node fs p nd) = fs_umask fs"
  "fs_clock (add_node fs p nd) = fs_clock fs" "fs_fault (add_node fs p nd) = fs_fault fs"
  by (simp_all add: add_node_def)

lemma gm_ok_put: "gm_ok (fs_nodes fs) \<Longrightarrow> gm_ok (fs_nodes (put fs p nd))"
  by (simp add: put_def gm_ok_set)

lemma gm_ok_stamp: "gm_ok (fs_nodes fs) \<Longrightarrow> gm_ok (fs_nodes (stamp_dir fs p))"
  by (simp add: stamp_dir_def gm_ok_put split: option.split)

text \<open>Well-formedness looks at kinds only.\<close>

lemma wf_fs_kinds:
  assumes "gm_ok (fs_nodes fs')" "is_dir fs' []"
    "\<And>p. kind_at fs' p \<noteq> None \<Longrightarrow> p \<noteq> [] \<Longrightarrow> is_dir fs' (butlast p) \<and> name_ok (last p)"
  shows "wf_fs fs'"
  using assms by (intro wf_fsI) (auto simp: placed_def kind_at_def)

lemma wf_placed: "wf_fs fs \<Longrightarrow> kind_at fs p \<noteq> None \<Longrightarrow> p \<noteq> [] \<Longrightarrow> placed fs p"
  by (auto simp: kind_at_def dest: wf_fsD(3))

lemma wf_stamp: "wf_fs fs \<Longrightarrow> wf_fs (stamp_dir fs p)"
  by (rule wf_fs_kinds) (auto simp: gm_ok_stamp placed_def dest: wf_fsD wf_placed)

lemma wf_put:
  assumes "wf_fs fs" "look fs p = Some nd" "n_kind nd' = KDir \<longleftrightarrow> n_kind nd = KDir"
  shows "wf_fs (put fs p nd')"
proof (rule wf_fs_kinds)
  have dir: "is_dir (put fs p nd') q = is_dir fs q" for q
    using assms(2,3) by (auto simp: is_dir_put is_dir_def)
  show "gm_ok (fs_nodes (put fs p nd'))" using assms(1) by (simp add: gm_ok_put wf_fsD)
  show "is_dir (put fs p nd') []" using assms(1) by (simp add: dir wf_fsD)
  fix q assume "kind_at (put fs p nd') q \<noteq> None" "q \<noteq> []"
  moreover have "kind_at fs p \<noteq> None" using assms(2) by (simp add: kind_at_def)
  ultimately have "placed fs q"
    using assms(1) by (auto simp: kind_put intro!: wf_placed split: if_splits)
  then show "is_dir (put fs p nd') (butlast q) \<and> name_ok (last q)"
    by (simp add: dir placed_def)
qed

lemma is_dir_add:
  assumes "look fs p = None" shows "is_dir (add_node fs p nd) q = (if q = p then n_kind nd = KDir else is_dir fs q)"
  by (simp add: is_dir_kind kind_add)

lemma wf_add:
  assumes "wf_fs fs" "placed fs p" "look fs p = None"
  shows "wf_fs (add_node fs p nd)"
proof (rule wf_fs_kinds)
  have dir: "is_dir fs q \<Longrightarrow> is_dir (add_node fs p nd) q" for q
    using assms(3) by (auto simp: is_dir_kind kind_add look_None_kind)
  show "gm_ok (fs_nodes (add_node fs p nd))"
    using assms(1) by (simp add: add_node_def gm_ok_stamp gm_ok_put wf_fsD)
  show "is_dir (add_node fs p nd) []" using assms(1) by (simp add: dir wf_fsD)
  fix q assume "kind_at (add_node fs p nd) q \<noteq> None" "q \<noteq> []"
  then have "placed fs q"
    using assms(1,2) by (auto simp: kind_add intro!: wf_placed split: if_splits)
  then show "is_dir (add_node fs p nd) (butlast q) \<and> name_ok (last q)"
    by (simp add: dir placed_def)
qed

lemma wf_parents:
  assumes "wf_fs fs" "kind_at fs (p @ r) \<noteq> None" "r \<noteq> []"
  shows "is_dir fs p"
  using assms(2,3)
proof (induction r rule: rev_induct)
  case Nil
  then show ?case by simp
next
  case (snoc x r)
  have d: "is_dir fs (p @ r)"
    using wf_placed [OF assms(1) snoc.prems(1)] by (simp add: placed_def flip: append_assoc)
  show ?case
  proof (cases "r = []")
    case True
    with d show ?thesis by simp
  next
    case False
    with d show ?thesis by (intro snoc.IH) (auto simp: is_dir_kind)
  qed
qed

lemma wf_names: "wf_fs fs \<Longrightarrow> kind_at fs p \<noteq> None \<Longrightarrow> w \<in> set p \<Longrightarrow> name_ok w"
proof (induction p rule: rev_induct)
  case Nil
  then show ?case by simp
next
  case (snoc x p)
  have "placed fs (p @ [x])" using snoc.prems(1,2) by (intro wf_placed) auto
  then have "name_ok x" "kind_at fs p \<noteq> None" by (auto simp: placed_def is_dir_kind)
  with snoc show ?case by auto
qed

section \<open>Resolution stays inside the tree\<close>

lemma is_dir_butlast: "wf_fs fs \<Longrightarrow> is_dir fs p \<Longrightarrow> is_dir fs (butlast p)"
  by (cases "p = []") (auto simp: is_dir_kind placed_def dest!: wf_placed)

lemma walk_placed:
  assumes "wf_fs fs" "walk n fs fol cur ws = Inr p" "is_dir fs cur"
    "\<forall>w \<in> set ws. slash \<notin> set w"
  shows "is_dir fs p \<or> placed fs p"
  using assms
proof (induction n fs fol cur ws arbitrary: p rule: walk.induct)
  case (1 n fs fol cur)
  then show ?case by simp
next
  case (2 n fs fol cur w ws)
  note wf = "2.prems"(1) and dir = "2.prems"(3)
  have no: "\<forall>v \<in> set ws. slash \<notin> set v" "slash \<notin> set w" using "2.prems"(4) by auto
  show ?case
  proof (cases "w = [] \<or> w = dot")
    case True
    with "2.prems" no show ?thesis by (intro "2.IH"(1)) auto
  next
    case nskip: False
    show ?thesis
    proof (cases "w = dotdot")
      case True
      with "2.prems" nskip no show ?thesis by (intro "2.IH"(2)) (auto intro: is_dir_butlast)
    next
      case nup: False
      with nskip no have "name_ok w" by (simp add: name_ok_def)
      with dir have here: "placed fs (cur @ [w])" by (simp add: placed_def)
      show ?thesis
      proof (cases "look fs (cur @ [w])")
        case None
        with "2.prems" nskip nup here show ?thesis by (auto split: if_splits)
      next
        case (Some nd)
        show ?thesis
        proof (cases "n_kind nd")
          case KDir
          with Some "2.prems" nskip nup no show ?thesis
            by (intro "2.IH"(3) [OF nskip nup Some KDir]) (auto intro: is_dirI)
        next
          case (KLink t)
          show ?thesis
          proof (cases "ws = [] \<and> \<not> fol")
            case True
            with KLink Some "2.prems" nskip nup here show ?thesis by auto
          next
            case follow: False
            with KLink Some "2.prems"(2) nskip nup have n: "n \<noteq> 0"
              by (auto split: if_splits)
            have "is_dir fs (if rooted t then [] else cur)" using wf dir by (simp add: wf_fsD)
            with follow n KLink Some "2.prems" nskip nup no segs_no_slash show ?thesis
              by (intro "2.IH"(4) [OF nskip nup Some KLink follow n]) auto
          qed
        qed (use Some "2.prems" nskip nup here in \<open>auto split: if_splits\<close>)
      qed
    qed
  qed
qed

lemma resolve_at_placed:
  assumes "wf_fs fs" "resolve_at fs fol r ws = Inr p" "\<forall>w \<in> set ws. slash \<notin> set w"
  shows "is_dir fs p \<or> placed fs p"
  using assms by (intro walk_placed) (auto simp: resolve_at_def split: if_splits)

lemma segs_no_slash_all: "\<forall>w \<in> set (segs s). slash \<notin> set w"
  using segs_no_slash by blast

lemma resolve_placed: "wf_fs fs \<Longrightarrow> resolve fs fol s = Inr p \<Longrightarrow> is_dir fs p \<or> placed fs p"
  by (rule resolve_at_placed [of fs fol "rooted s" "segs s"]) (auto simp: resolve_def segs_no_slash_all)

text \<open>With a directory at every step and no link at the end, resolution is the identity.\<close>

lemma walk_plain:
  assumes "\<forall>v ys zs. ws = ys @ v # zs \<and> zs \<noteq> [] \<longrightarrow> is_dir fs (cur @ ys @ [v])"
    and "\<forall>w \<in> set ws. name_ok w"
    and "\<And>t. kind_at fs (cur @ ws) = Some (KLink t) \<Longrightarrow> \<not> fol"
  shows "walk n fs fol cur ws = Inr (cur @ ws)"
  using assms
proof (induction ws arbitrary: cur)
  case Nil
  then show ?case by simp
next
  case (Cons w ws)
  have w: "w \<noteq> []" "w \<noteq> dot" "w \<noteq> dotdot" using Cons.prems(2) by (auto simp: name_ok_def)
  show ?case
  proof (cases "ws = []")
    case True
    with w Cons.prems(3) show ?thesis
      by (auto simp: kind_at_def split: option.split kind.split)
  next
    case False
    have "ws \<noteq> [] \<Longrightarrow> is_dir fs (cur @ [w])" using Cons.prems(1) by fastforce
    with False obtain nd where nd: "look fs (cur @ [w]) = Some nd" "n_kind nd = KDir"
      by (auto elim: is_dirE)
    have "walk n fs fol (cur @ [w]) ws = Inr ((cur @ [w]) @ ws)"
    proof (rule Cons.IH)
      show "\<forall>v ys zs. ws = ys @ v # zs \<and> zs \<noteq> [] \<longrightarrow> is_dir fs ((cur @ [w]) @ ys @ [v])"
        using Cons.prems(1) by (metis append_Cons append_assoc append_Nil)
    qed (use Cons.prems in auto)
    with nd w show ?thesis by simp
  qed
qed

section \<open>Removing and moving subtrees\<close>

lemma stuck_None:
  "stuck fs p = None \<longleftrightarrow> p \<noteq> [] \<and> (\<forall>q. prefix p q \<and> look fs q \<noteq> None \<longrightarrow> fs_fault fs SRemove q = None)"
proof (cases "find (\<lambda>q. prefix p q \<and> fs_fault fs SRemove q \<noteq> None) (gm_keys (fs_nodes fs))")
  case None
  have "fs_fault fs SRemove q = None" if "prefix p q" "look fs q \<noteq> None" for q
  proof -
    have "q \<in> set (gm_keys (fs_nodes fs))" using that(2) by (simp add: in_nodes)
    with None that(1) show ?thesis by (auto simp: find_None_iff)
  qed
  with None show ?thesis by (simp add: stuck_def)
next
  case (Some q)
  then have "prefix p q" "fs_fault fs SRemove q \<noteq> None" "q \<in> set (gm_keys (fs_nodes fs))"
    by (auto simp: find_Some_iff)
  with Some show ?thesis by (auto simp: stuck_def in_nodes)
qed

lemma look_drop_tree:
  "look (drop_tree fs p) q = (if prefix p q \<and> stuck fs q = None then None else look fs q)"
  by (simp add: look_def drop_tree_def gm_get_filter)

lemma wf_drop_tree:
  assumes "wf_fs fs" shows "wf_fs (drop_tree fs p)"
proof (rule wf_fsI)
  note ok = wf_fsD(1) [OF assms]
  show "gm_ok (fs_nodes (drop_tree fs p))"
    using ok by (simp add: gm_ok_def drop_tree_def distinct_map_filter)
  have "stuck fs [] \<noteq> None" by (simp add: stuck_None)
  then show "is_dir (drop_tree fs p) []"
    using wf_fsD(2) [OF assms] by (simp add: is_dir_def look_drop_tree)
  fix q nd assume q: "look (drop_tree fs p) q = Some nd" "q \<noteq> []"
  then have kept: "\<not> (prefix p q \<and> stuck fs q = None)" and l: "look fs q = Some nd"
    by (auto simp: look_drop_tree split: if_splits)
  have "placed fs q" using assms l q by (simp add: wf_fsD)
  moreover have "\<not> (prefix p (butlast q) \<and> stuck fs (butlast q) = None)"
  proof
    assume "prefix p (butlast q) \<and> stuck fs (butlast q) = None"
    moreover have "prefix (butlast q) q" by (simp add: prefixeq_butlast)
    ultimately have "prefix p q \<and> stuck fs q = None"
      using q(2) by (auto simp: stuck_None intro: prefix_order.trans)
    with kept show False by simp
  qed
  ultimately show "placed (drop_tree fs p) q"
    by (simp add: placed_def is_dir_def look_drop_tree)
qed

lemma move_key_other: "\<not> prefix po q \<Longrightarrow> move_key po pn q = q"
  by (simp add: move_key_def)

lemma move_key_under: "move_key po pn (po @ r) = pn @ r"
  by (simp add: move_key_def)

lemma move_key_inj:
  assumes "wf_fs fs" "kind_at fs pn = None \<or> \<not> is_dir fs pn"
  shows "inj_on (move_key po pn) (set (gm_keys (fs_nodes fs)) - {pn})"
proof -
  have no: False if "kind_at fs q \<noteq> None" "q \<noteq> pn" "prefix pn q" for q
  proof -
    from that(2,3) obtain r where "q = pn @ r" "r \<noteq> []" by (auto elim: prefixE)
    with that(1) have "is_dir fs pn" using wf_parents [OF assms(1)] by auto
    with assms(2) show False by (auto simp: is_dir_kind)
  qed
  show ?thesis
  proof (rule inj_onI)
    fix a b assume a: "a \<in> set (gm_keys (fs_nodes fs)) - {pn}" and b: "b \<in> set (gm_keys (fs_nodes fs)) - {pn}"
      and eq: "move_key po pn a = move_key po pn b"
    have na: "\<not> prefix pn a" using no [of a] a by (auto simp: in_nodes kind_at_def)
    have nb: "\<not> prefix pn b" using no [of b] b by (auto simp: in_nodes kind_at_def)
    show "a = b"
      using eq na nb by (auto simp: move_key_def prefix_def split: if_splits)
  qed
qed

lemma gm_ok_move:
  assumes "wf_fs fs" "\<not> is_dir fs pn"
  shows "gm_ok (fs_nodes (move_tree fs po pn))"
proof -
  have keys: "set (map fst (gm_delete (fs_nodes fs) pn)) = set (gm_keys (fs_nodes fs)) - {pn}"
    using gm.keys_del [OF wf_fsD(1) [OF assms(1)]] by (simp add: gm_keys_def)
  have "inj_on (move_key po pn) (set (map fst (gm_delete (fs_nodes fs) pn)))"
    unfolding keys using assms by (intro move_key_inj) auto
  moreover have "distinct (map fst (gm_delete (fs_nodes fs) pn))"
    using gm_ok_delete [OF wf_fsD(1) [OF assms(1)]] by (simp add: gm_ok_def)
  ultimately have "distinct (map (move_key po pn) (map fst (gm_delete (fs_nodes fs) pn)))"
    by (simp only: distinct_map)
  then show ?thesis by (simp add: gm_ok_def move_tree_def comp_def case_prod_beta)
qed

lemma look_move:
  assumes "wf_fs fs" "\<not> is_dir fs pn" "look fs q = Some nd" "q \<noteq> pn"
  shows "look (move_tree fs po pn) (move_key po pn q) = Some nd"
proof -
  have "(q, nd) \<in> set (gm_delete (fs_nodes fs) pn)"
    using assms(3,4) gm_ok_delete [OF wf_fsD(1) [OF assms(1)], of pn]
    by (simp add: gm_get_Some_iff [symmetric] look_def)
  then have "(move_key po pn q, nd) \<in> set (fs_nodes (move_tree fs po pn))"
    by (force simp: move_tree_def)
  then show ?thesis
    using gm_ok_move [OF assms(1,2)] by (simp add: look_def gm_get_Some_iff)
qed

lemma look_moveE:
  assumes wf: "wf_fs fs" and "\<not> is_dir fs pn" "look (move_tree fs po pn) k = Some nd"
  obtains q where "k = move_key po pn q" "look fs q = Some nd" "q \<noteq> pn"
proof -
  have "(k, nd) \<in> set (fs_nodes (move_tree fs po pn))"
    using assms gm_ok_move [OF assms(1,2)] by (simp add: look_def gm_get_Some_iff)
  then obtain q where q: "k = move_key po pn q" "(q, nd) \<in> set (gm_delete (fs_nodes fs) pn)"
    by (auto simp: move_tree_def)
  then have "gm_get (gm_delete (fs_nodes fs) pn) q = Some nd"
    using iffD2 [OF gm_get_Some_iff [OF gm_ok_delete [OF wf_fsD(1) [OF wf]]]] by blast
  then show ?thesis using q that by (auto simp: look_def split: if_splits)
qed

lemma wf_move:
  assumes wf: "wf_fs fs" and nd: "\<not> is_dir fs pn" and pn: "placed fs pn" and np: "\<not> prefix po pn"
  shows "wf_fs (move_tree fs po pn)"
proof (rule wf_fsI)
  have dir: "is_dir (move_tree fs po pn) (move_key po pn q)" if "is_dir fs q" for q
  proof -
    from that obtain d where "look fs q = Some d" "n_kind d = KDir" by (rule is_dirE)
    moreover have "q \<noteq> pn" using that nd by auto
    ultimately show ?thesis using look_move [OF wf nd] by (auto intro: is_dirI)
  qed
  show "gm_ok (fs_nodes (move_tree fs po pn))" by (rule gm_ok_move [OF wf nd])
  have "\<not> prefix po []" using np by auto
  then show "is_dir (move_tree fs po pn) []"
    using dir [OF wf_fsD(2) [OF wf]] by (simp add: move_key_other)
  fix k nd' assume k: "look (move_tree fs po pn) k = Some nd'" "k \<noteq> []"
  then obtain q where q: "k = move_key po pn q" "look fs q = Some nd'" "q \<noteq> pn"
    by (auto elim: look_moveE [OF wf nd])
  show "placed (move_tree fs po pn) k"
  proof (cases "prefix po q")
    case True
    then obtain r where r: "q = po @ r" by (auto elim: prefixE)
    show ?thesis
    proof (cases "r = []")
      case True
      then have "k = pn" using q(1) r move_key_under [of po pn "[]"] by simp
      moreover have "\<not> prefix po (butlast pn)"
        using np by (metis prefix_order.trans prefixeq_butlast)
      ultimately show ?thesis
        using pn dir [of "butlast pn"] by (auto simp: placed_def move_key_other)
    next
      case False
      then have p: "placed fs q" using wf q(2) r by (simp add: wf_fsD)
      have "k = pn @ r" using q(1) r by (simp add: move_key_under)
      moreover have "butlast q = po @ butlast r" "last q = last r"
        using r False by (simp_all add: butlast_append)
      moreover have "butlast (pn @ r) = pn @ butlast r" using False by (simp add: butlast_append)
      ultimately show ?thesis
        using p False dir [of "po @ butlast r"] by (simp add: placed_def move_key_under)
    qed
  next
    case False
    then have "k = q" using q(1) by (simp add: move_key_other)
    moreover have "placed fs q" using wf q(2) k(2) \<open>k = q\<close> by (simp add: wf_fsD)
    moreover have "\<not> prefix po (butlast q)"
      using False by (metis prefix_order.trans prefixeq_butlast)
    ultimately show ?thesis
      using dir [of "butlast q"] by (simp add: placed_def move_key_other)
  qed
qed

section \<open>The contract of an operation\<close>

locale fs_action =
  fixes act :: "fs \<Rightarrow> 'a res \<times> fs"
  assumes wf: "wf_fs fs \<Longrightarrow> wf_fs (snd (act fs))"
    and cwd: "fs_cwd (snd (act fs)) = fs_cwd fs"
    and umask: "fs_umask (snd (act fs)) = fs_umask fs"
    and clock: "fs_clock (snd (act fs)) = fs_clock fs"
    and fault: "fs_fault (snd (act fs)) = fs_fault fs"
begin

lemmas env = cwd umask clock fault

end

lemma fs_action_pure: "fs_action (\<lambda>fs. (f fs, fs))"
  by unfold_locales simp_all

lemma fs_action_and_then:
  assumes "fs_action m" "\<And>x. fs_action (f x)"
  shows "fs_action (and_then m f)"
proof -
  note m = fs_action.wf [OF assms(1)] fs_action.env [OF assms(1)]
  note f = fs_action.wf [OF assms(2)] fs_action.env [OF assms(2)]
  show ?thesis
    by unfold_locales (auto simp: snd_and_then m f split: sum.split)
qed

lemma fs_action_wrap: "fs_action m \<Longrightarrow> fs_action (wrap_err c m)"
  by (simp add: fs_action_def)

lemma fs_action_if: "fs_action f \<Longrightarrow> fs_action g \<Longrightarrow> fs_action (if b then f else g)"
  by simp

lemma env_drop_tree [simp]:
  "fs_cwd (drop_tree fs p) = fs_cwd fs" "fs_umask (drop_tree fs p) = fs_umask fs"
  "fs_clock (drop_tree fs p) = fs_clock fs" "fs_fault (drop_tree fs p) = fs_fault fs"
  by (simp_all add: drop_tree_def)

lemma env_move_tree [simp]:
  "fs_cwd (move_tree fs p q) = fs_cwd fs" "fs_umask (move_tree fs p q) = fs_umask fs"
  "fs_clock (move_tree fs p q) = fs_clock fs" "fs_fault (move_tree fs p q) = fs_fault fs"
  by (simp_all add: move_tree_def)

lemma not_dir_None: "look fs p = None \<Longrightarrow> \<not> is_dir fs p"
  by (simp add: is_dir_def)

lemma fs_action_mkdir_at:
  assumes "\<forall>w \<in> set ws. slash \<notin> set w"
  shows "fs_action (mkdir_at r ws perm)"
proof unfold_locales
  fix fs assume "wf_fs fs"
  then show "wf_fs (snd (mkdir_at r ws perm fs))"
    using resolve_at_placed [OF _ _ assms, of fs False r] not_dir_None
    by (auto simp: mkdir_at_def intro!: wf_add split: sum.split option.split)
qed (auto simp: mkdir_at_def split: sum.split option.split)

lemma fs_action_mkdir_all: "\<forall>w \<in> set rws. slash \<notin> set w \<Longrightarrow> fs_action (mkdir_all r rws perm)"
proof (induction rws)
  case Nil
  show ?case by unfold_locales simp_all
next
  case (Cons w rws)
  then have IH: "fs_action (mkdir_all r rws perm)" by simp
  have mk: "fs_action (mkdir_at r (rev (w # rws)) perm)"
    using Cons.prems by (intro fs_action_mkdir_at) auto
  let ?f = "\<lambda>u fs1. case mkdir_at r (rev (w # rws)) perm fs1 of
      (Inr _, fs2) \<Rightarrow> (Inr (), fs2)
    | (Inl e, fs2) \<Rightarrow>
        (case stat_at False r (rev (w # rws)) fs2 of
           Inr nd \<Rightarrow> if n_kind nd = KDir then (Inr (), fs2) else (Inl e, fs2)
         | Inl _ \<Rightarrow> (Inl e, fs2))"
  have snd_f: "snd (?f u fs) = snd (mkdir_at r (rev (w # rws)) perm fs)" for u fs
    by (auto split: prod.split sum.split)
  have f: "fs_action (?f u)" for u
    using mk unfolding fs_action_def snd_f .
  have "snd (mkdir_all r (w # rws) perm fs) =
      (case stat_at True r (rev (w # rws)) fs of Inr nd \<Rightarrow> fs
       | Inl _ \<Rightarrow> snd (and_then (mkdir_all r rws perm) ?f fs))" for fs
    by (auto simp: and_then_def split: sum.split prod.split)
  moreover have "fs_action (and_then (mkdir_all r rws perm) ?f)"
    by (rule fs_action_and_then [OF IH f])
  ultimately show ?case
    unfolding fs_action_def by (auto split: sum.split)
qed

interpretation MkdirAll: fs_action "MkdirAll path perm"
proof -
  have "fs_action (mkdir_all (rooted path) (rev (segs path)) perm)"
    using segs_no_slash_all by (intro fs_action_mkdir_all) auto
  then show "fs_action (MkdirAll path perm)" by (simp add: MkdirAll_def [abs_def])
qed

interpretation open_create: fs_action "open_create path trunc perm"
proof unfold_locales
  fix fs assume "wf_fs fs"
  then show "wf_fs (snd (open_create path trunc perm fs))"
    using resolve_placed [of fs True path] not_dir_None
    by (auto simp: open_create_def intro!: wf_add wf_put split: sum.split option.split kind.split)
qed (auto simp: open_create_def split: sum.split option.split kind.split)

interpretation Create: fs_action "Create path"
  unfolding Create_def by (rule open_create.fs_action_axioms)

interpretation WriteAt: fs_action "WriteAt p data off"
proof unfold_locales
  fix fs assume "wf_fs fs"
  then show "wf_fs (snd (WriteAt p data off fs))"
    by (auto simp: WriteAt_def intro!: wf_put split: option.split kind.split)
qed (auto simp: WriteAt_def split: option.split kind.split)

interpretation Chmod: fs_action "Chmod path mode"
proof unfold_locales
  fix fs assume "wf_fs fs"
  then show "wf_fs (snd (Chmod path mode fs))"
    by (auto simp: Chmod_def intro!: wf_put split: sum.split option.split)
qed (auto simp: Chmod_def split: sum.split option.split)

interpretation Chtimes: fs_action "Chtimes path atime mtime"
proof unfold_locales
  fix fs assume "wf_fs fs"
  then show "wf_fs (snd (Chtimes path atime mtime fs))"
    by (auto simp: Chtimes_def intro!: wf_put split: sum.split option.split)
qed (auto simp: Chtimes_def split: sum.split option.split)

interpretation RemoveAll: fs_action "RemoveAll path"
proof unfold_locales
  fix fs assume "wf_fs fs"
  then show "wf_fs (snd (RemoveAll path fs))"
    by (auto simp: RemoveAll_def intro!: wf_stamp wf_drop_tree split: sum.split option.split)
qed (auto simp: RemoveAll_def split: sum.split option.split)

lemma wf_remove_leaf:
  assumes "wf_fs fs" "\<not> has_child fs p" "p \<noteq> []"
  shows "wf_fs (fs\<lparr>fs_nodes := gm_delete (fs_nodes fs) p\<rparr>)" (is "wf_fs ?fs'")
proof (rule wf_fs_kinds)
  have k: "kind_at ?fs' q = (if q = p then None else kind_at fs q)" for q
    by (simp add: kind_at_def look_def)
  show "gm_ok (fs_nodes ?fs')" using wf_fsD(1) [OF assms(1)] by (simp add: gm_ok_delete)
  show "is_dir ?fs' []" using wf_fsD(2) [OF assms(1)] assms(3) by (simp add: is_dir_kind k)
  fix q assume q: "kind_at ?fs' q \<noteq> None" "q \<noteq> []"
  then have q': "kind_at fs q \<noteq> None" by (auto simp: k split: if_splits)
  then have pl: "placed fs q" using assms(1) q(2) by (intro wf_placed) auto
  have "butlast q \<noteq> p"
  proof
    assume "butlast q = p"
    then have "strict_prefix p q"
      using q(2) by (metis append_butlast_last_id prefixeq_butlast strict_prefixI append_self_conv not_Cons_self2)
    with assms(2) q' show False by (auto simp: has_child_def in_nodes kind_at_def)
  qed
  with pl show "is_dir ?fs' (butlast q) \<and> name_ok (last q)"
    by (simp add: placed_def is_dir_kind k)
qed

interpretation Remove_path: fs_action "Remove_path path"
proof unfold_locales
  fix fs assume "wf_fs fs"
  then show "wf_fs (snd (Remove_path path fs))"
    by (auto simp: Remove_path_def intro!: wf_stamp wf_remove_leaf split: sum.split option.split)
qed (auto simp: Remove_path_def split: sum.split option.split)

interpretation Rename: fs_action "Rename oldname newname"
proof unfold_locales
  fix fs assume "wf_fs fs"
  then show "wf_fs (snd (Rename oldname newname fs))"
    using resolve_placed [of fs False newname]
    by (auto simp: Rename_def intro!: wf_stamp wf_move split: sum.split option.split)
qed (auto simp: Rename_def split: sum.split option.split)

section \<open>Operations on plain paths\<close>

text \<open>In a well-formed tree the absolute name of a node, or of a free name in a directory, resolves to
  itself, links at the end apart.\<close>

definition nameable :: "fs \<Rightarrow> fpath \<Rightarrow> bool" where
  "nameable fs p \<longleftrightarrow> kind_at fs p \<noteq> None \<or> placed fs p"

lemma nameable_names: "wf_fs fs \<Longrightarrow> nameable fs p \<Longrightarrow> \<forall>w \<in> set p. name_ok w"
proof -
  assume wf: "wf_fs fs" and n: "nameable fs p"
  show ?thesis
  proof (cases "kind_at fs p = None")
    case False
    with wf wf_names show ?thesis by blast
  next
    case True
    with n have pl: "placed fs p" by (simp add: nameable_def)
    then obtain q w where p: "p = q @ [w]" by (cases p rule: rev_cases) (auto simp: placed_def)
    with pl have "kind_at fs q \<noteq> None" "name_ok w" by (auto simp: placed_def is_dir_kind)
    with wf wf_names p show ?thesis by auto
  qed
qed

lemma nameable_dirs:
  assumes "wf_fs fs" "nameable fs (p @ r)" "r \<noteq> []"
  shows "is_dir fs p"
proof (cases "kind_at fs (p @ r) = None")
  case False
  with assms show ?thesis by (intro wf_parents) auto
next
  case True
  with assms(2) have pl: "is_dir fs (butlast (p @ r))" by (simp add: nameable_def placed_def)
  obtain q w where r: "r = q @ [w]" using assms(3) by (cases r rule: rev_cases) auto
  with pl have d: "is_dir fs (p @ q)" by (simp flip: append_assoc)
  show ?thesis
  proof (cases "q = []")
    case True
    with d show ?thesis by simp
  next
    case False
    with d assms(1) show ?thesis by (intro wf_parents) (auto simp: is_dir_kind)
  qed
qed

lemma resolve_plain:
  assumes "wf_fs fs" "nameable fs p" "\<And>t. kind_at fs p = Some (KLink t) \<Longrightarrow> \<not> fol"
  shows "resolve fs fol (render True p) = Inr p"
proof -
  have names: "\<forall>w \<in> set p. name_ok w" using assms by (simp add: nameable_names)
  have "walk max_links fs fol [] p = Inr ([] @ p)"
  proof (rule walk_plain)
    show "\<forall>v ys zs. p = ys @ v # zs \<and> zs \<noteq> [] \<longrightarrow> is_dir fs ([] @ ys @ [v])"
      using nameable_dirs [OF assms(1)] assms(2) by (metis append.assoc append_Cons append_Nil)
  qed (use assms names in auto)
  then show ?thesis
    using wf_fsD(2) [OF assms(1)] names
    by (simp add: resolve_def resolve_at_def start_at_def segs_render name_ok_no_slash)
qed

text \<open>No system call is refused.\<close>

definition calm :: "fs \<Rightarrow> bool" where
  "calm fs \<longleftrightarrow> (\<forall>c p. fs_fault fs c p = None)"

lemma calmD [simp]: "calm fs \<Longrightarrow> fs_fault fs c p = None"
  by (simp add: calm_def)

lemma calm_add [simp]: "calm (add_node fs p nd) = calm fs"
  by (simp add: calm_def)

lemma calm_put [simp]: "calm (put fs p nd) = calm fs"
  by (simp add: calm_def)

context fs_action
begin

lemma calm_act: "calm (snd (act fs)) = calm fs"
  by (simp add: calm_def env)

end

lemma nameable_dir: "is_dir fs p \<Longrightarrow> nameable fs p"
  by (simp add: nameable_def is_dir_kind)

lemma nameable_look: "look fs p = Some nd \<Longrightarrow> nameable fs p"
  by (simp add: nameable_def kind_at_def)

lemma stat_plain:
  assumes "wf_fs fs" "calm fs" "look fs p = Some nd" "\<And>t. n_kind nd = KLink t \<Longrightarrow> \<not> fol"
  shows "stat_at fol True p fs = Inr nd"
proof -
  have "nameable fs p" using assms(3) by (simp add: nameable_look)
  moreover have "segs (render True p) = p"
    using assms nameable_names [OF assms(1)] \<open>nameable fs p\<close>
    by (intro segs_render name_ok_no_slash) auto
  ultimately have "resolve_at fs fol True p = Inr p"
    using resolve_plain [OF assms(1), of p fol] assms(3,4)
    by (auto simp: resolve_def kind_at_def)
  with assms show ?thesis by (simp add: stat_at_def)
qed

lemma segs_plain: "wf_fs fs \<Longrightarrow> nameable fs p \<Longrightarrow> segs (render True p) = p"
  using nameable_names by (intro segs_render name_ok_no_slash) auto

lemma Lstat_plain:
  assumes "wf_fs fs" "calm fs" "look fs p = Some nd"
  shows "Lstat (render True p) fs = Inr nd"
  using stat_plain [OF assms, of False] segs_plain [OF assms(1) nameable_look [OF assms(3)]]
  by (simp add: Lstat_def)

lemma MkdirAll_existing:
  assumes "wf_fs fs" "calm fs" "is_dir fs p"
  shows "MkdirAll (render True p) perm fs = (Inr (), fs)"
proof -
  obtain nd where nd: "look fs p = Some nd" "n_kind nd = KDir" using assms(3) by (rule is_dirE)
  have s: "segs (render True p) = p" using assms by (simp add: segs_plain nameable_dir)
  have st: "stat_at True True p fs = Inr nd"
    using assms nd by (intro stat_plain) auto
  show ?thesis
  proof (cases "rev p")
    case Nil
    with s show ?thesis by (simp add: MkdirAll_def)
  next
    case (Cons w rws)
    then have "p = rev rws @ [w]" by (metis rev.simps(2) rev_rev_ident)
    with st nd Cons s show ?thesis by (simp add: MkdirAll_def)
  qed
qed

lemma open_create_plain:
  assumes "wf_fs fs" "calm fs"
  shows "placed fs p \<Longrightarrow> look fs p = None \<Longrightarrow>
      open_create (render True p) trunc perm fs = (Inr p, add_node fs p (new_node fs (KFile []) perm))"
    and "look fs p = Some nd \<Longrightarrow> n_kind nd = KFile d \<Longrightarrow>
      open_create (render True p) trunc perm fs =
        (Inr p, if trunc then put fs p (nd\<lparr>n_kind := KFile [], n_mtime := fs_clock fs\<rparr>) else fs)"
proof -
  assume "placed fs p" "look fs p = None"
  then show "open_create (render True p) trunc perm fs =
      (Inr p, add_node fs p (new_node fs (KFile []) perm))"
    using assms resolve_plain [of fs p True]
    by (simp add: open_create_def nameable_def kind_at_def)
next
  assume nd: "look fs p = Some nd" "n_kind nd = KFile d"
  then have "resolve fs True (render True p) = Inr p"
    using assms by (intro resolve_plain nameable_look) (auto simp: kind_at_def)
  then show "open_create (render True p) trunc perm fs =
        (Inr p, if trunc then put fs p (nd\<lparr>n_kind := KFile [], n_mtime := fs_clock fs\<rparr>) else fs)"
    using assms nd by (simp add: open_create_def)
qed

section \<open>Sample file systems\<close>

text \<open>A file system with the given nodes and no refusals, for concrete instances.\<close>

definition sample_fs :: "(fpath \<times> kind) list \<Rightarrow> fs" where
  "sample_fs ns =
     \<lparr>fs_nodes = map (\<lambda>(p, k). (p, \<lparr>n_kind = k, n_mode = 420, n_mtime = 5, n_atime = 5\<rparr>)) ns,
      fs_cwd = [], fs_umask = 18, fs_dirsize = 4096, fs_clock = 9, fs_fault = (\<lambda>_ _. None)\<rparr>"

lemma calm_sample [simp]: "calm (sample_fs ns)"
  by (simp add: calm_def sample_fs_def)

lemma look_sample:
  "look (sample_fs ns) p =
     map_option (\<lambda>k. \<lparr>n_kind = k, n_mode = 420, n_mtime = 5, n_atime = 5\<rparr>) (map_of ns p)"
  by (induction ns) (auto simp: look_def sample_fs_def gm_get_def)

lemma kind_sample [simp]: "kind_at (sample_fs ns) p = map_of ns p"
  by (simp add: kind_at_def look_sample option.map_comp comp_def option.map_ident)

lemma wf_sample:
  assumes "distinct (map fst ns)" "map_of ns [] = Some KDir"
    "\<forall>(p, k) \<in> set ns. p \<noteq> [] \<longrightarrow> map_of ns (butlast p) = Some KDir \<and> name_ok (last p)"
  shows "wf_fs (sample_fs ns)"
proof (rule wf_fs_kinds)
  show "gm_ok (fs_nodes (sample_fs ns))"
    using assms(1) by (simp add: gm_ok_def sample_fs_def comp_def case_prod_unfold)
  fix p assume "kind_at (sample_fs ns) p \<noteq> None" "p \<noteq> []"
  then obtain k where "(p, k) \<in> set ns" by (auto dest: map_of_SomeD)
  with assms(3) \<open>p \<noteq> []\<close> show "is_dir (sample_fs ns) (butlast p) \<and> name_ok (last p)"
    by (auto simp: is_dir_kind)
qed (use assms(2) in \<open>simp add: is_dir_kind\<close>)

end
