(* ===== verification/FsUtil.thy ===== *)
theory FsUtil
  imports GoOs Message Sha256
begin

text \<open>
  \<open>utils/fs.go\<close> and \<open>utils/hash.go\<close>: metadata of one path, the directory walk, attributes, atomic
  and positional writes, and chunked reads.
\<close>

section \<open>Hashing and metadata\<close>

definition HashFile :: "string \<Rightarrow> fs \<Rightarrow> byte list res" where
  "HashFile path fs =
     (case OpenRead path fs of
        Inl e \<Rightarrow> Inl (Wrap ''open file for hash'' e)
      | Inr f \<Rightarrow>
          (case ReadFrom f fs of
             Inl e \<Rightarrow> Inl (Wrap ''hash file'' e)
           | Inr data \<Rightarrow> Inr (sha256 data)))"

definition HashBytes :: "byte list \<Rightarrow> byte list" where
  "HashBytes data = sha256 data"

definition entry_type :: "kind \<Rightarrow> byte" where
  "entry_type k =
     (case k of
        KDir \<Rightarrow> FileTypeDirectory
      | KLink _ \<Rightarrow> FileTypeSymlink
      | KFile _ \<Rightarrow> FileTypeRegularFile
      | KOther \<Rightarrow> FileTypeOther)"

text \<open>
  The two type assertions on \<open>info.Sys()\<close> ask for methods \<open>Atime\<close>, \<open>UID\<close> and \<open>GID\<close>. The value is a
  \<open>*syscall.Stat_t\<close>, which has fields of those names in other spellings and no methods, so neither
  assertion holds: the access time is the modification time and the owner is left at zero.
\<close>

definition BuildEntry :: "string \<Rightarrow> string \<Rightarrow> u64 \<Rightarrow> fs \<Rightarrow> FileEntry res" where
  "BuildEntry baseDir path seq fs =
     (case Lstat path fs of
        Inl e \<Rightarrow> Inl (Wrap ''lstat'' e)
      | Inr info \<Rightarrow>
          (let relPath = (case Rel baseDir path of Inl _ \<Rightarrow> path | Inr r \<Rightarrow> r);
               entryType = entry_type (n_kind info)
           in case (if entryType = FileTypeRegularFile then HashFile path fs
                    else Inr (replicate 32 0)) of
                Inl e \<Rightarrow> Inl (Wrap ''hash file'' e)
              | Inr contentHash \<Rightarrow>
                  Inr \<lparr>fe_Path = relPath, fe_EntryType = entryType,
                       fe_Mode = perm_bits (n_mode info), fe_UID = 0, fe_GID = 0,
                       fe_MTime = n_mtime info, fe_ATime = n_mtime info,
                       fe_Size = info_size fs info, fe_ContentHash = contentHash,
                       fe_Seq = seq\<rparr>))"

section \<open>The directory walk\<close>

definition SyncTombstoneFile :: string where
  "SyncTombstoneFile = ''.sync-tombstones''"

text \<open>
  \<open>filepath.Walk\<close> visits the nodes below its root in lexical order, a directory before its
  content, and does not follow links. With component lists as keys that is the lexicographic order
  of the relative paths.
\<close>

definition walk_list :: "fs \<Rightarrow> fpath \<Rightarrow> string list list" where
  "walk_list fs root =
     sort (map (drop (length root)) (filter (strict_prefix root) (gm_keys (fs_nodes fs))))"

text \<open>The visit of one node: \<open>Walk\<close> reads its metadata and, for a directory, its names first, and
  hands an error to the callback, which returns it. \<open>None\<close> is a node the callback skips.\<close>

definition visit :: "string \<Rightarrow> string list \<Rightarrow> u64 \<Rightarrow> fs \<Rightarrow> FileEntry option res" where
  "visit absBase rel seq fs =
     (let path = Join absBase (join_slash rel)
      in case Lstat path fs of
           Inl e \<Rightarrow> Inl e
         | Inr info \<Rightarrow>
             (case (if n_kind info = KDir
                    then (case resolve fs False path of
                            Inl e \<Rightarrow> Some e | Inr p \<Rightarrow> fs_fault fs SReaddir p)
                    else None) of
                Some e \<Rightarrow> Inl (OsError e)
              | None \<Rightarrow>
                  if last rel = SyncTombstoneFile then Inr None
                  else (case BuildEntry absBase path seq fs of
                          Inl e \<Rightarrow> Inl (Wrap ''build entry'' e)
                        | Inr entry \<Rightarrow> Inr (Some entry))))"

fun walk_loop :: "string \<Rightarrow> string list list \<Rightarrow> u64 \<Rightarrow> FileEntry list \<Rightarrow> fs \<Rightarrow> FileEntry list res" where
  "walk_loop absBase [] seq entries fs = Inr entries"
| "walk_loop absBase (rel # rels) seq entries fs =
     (case visit absBase rel seq fs of
        Inl e \<Rightarrow> Inl e
      | Inr None \<Rightarrow> walk_loop absBase rels seq entries fs
      | Inr (Some entry) \<Rightarrow> walk_loop absBase rels (seq + 1) (entries @ [entry]) fs)"

definition WalkDirectory :: "string \<Rightarrow> fs \<Rightarrow> FileEntry list res" where
  "WalkDirectory baseDir fs =
     (let absBase = Abs (render True (fs_cwd fs)) baseDir
      in case resolve fs False absBase of
           Inl e \<Rightarrow> Inl (OsError e)
         | Inr root \<Rightarrow>
             (case Lstat absBase fs of
                Inl e \<Rightarrow> Inl e
              | Inr info \<Rightarrow>
                  if n_kind info \<noteq> KDir then Inr []
                  else (case fs_fault fs SReaddir root of
                          Some e \<Rightarrow> Inl (OsError e)
                        | None \<Rightarrow> walk_loop absBase (walk_list fs root) 0 [] fs)))"

section \<open>Attributes\<close>

text \<open>A permission error is printed as a warning and forgotten; any other error is returned.\<close>

definition best_effort :: "string \<Rightarrow> (fs \<Rightarrow> unit res \<times> fs) \<Rightarrow> fs \<Rightarrow> unit res \<times> fs" where
  "best_effort ctx m fs =
     (case m fs of
        (Inl e, fs') \<Rightarrow> (if os_IsPermission e then Inr () else Inl (Wrap ctx e), fs')
      | (Inr _, fs') \<Rightarrow> (Inr (), fs'))"

definition ApplyAttrs :: "string \<Rightarrow> FileEntry \<Rightarrow> fs \<Rightarrow> unit res \<times> fs" where
  "ApplyAttrs path entry =
     and_then (best_effort ''chmod'' (Chmod path (fe_Mode entry)))
       (\<lambda>_. best_effort ''chtimes'' (Chtimes path (fe_ATime entry) (fe_MTime entry)))"

section \<open>Writes\<close>

definition EnsureDir :: "string \<Rightarrow> fs \<Rightarrow> unit res \<times> fs" where
  "EnsureDir path = MkdirAll (Dir path) 493"

definition DeleteEntry :: "string \<Rightarrow> fs \<Rightarrow> unit res \<times> fs" where
  "DeleteEntry path = RemoveAll path"

definition WriteChunkAt :: "string \<Rightarrow> byte list \<Rightarrow> int \<Rightarrow> fs \<Rightarrow> unit res \<times> fs" where
  "WriteChunkAt path data offset =
     and_then (wrap_err ''open file'' (open_create path False 420))
       (\<lambda>f. wrap_err ''write at offset'' (WriteAt f data offset))"

text \<open>
  \<open>os.CreateTemp\<close> draws random suffixes until a name is free; \<open>sfx\<close> stands for the last one it
  draws. Closing the temporary file reports no error in the model.
\<close>

definition CreateTemp :: "string \<Rightarrow> string \<Rightarrow> fs \<Rightarrow> (string \<times> fpath) res \<times> fs" where
  "CreateTemp dir sfx fs =
     (let name = Join dir (''.sync-tmp-'' @ sfx)
      in case resolve fs False name of
           Inl e \<Rightarrow> (Inl (OsError e), fs)
         | Inr p \<Rightarrow>
             if look fs p \<noteq> None then (Inl (OsError EEXIST), fs)
             else (case fs_fault fs SCreate p of
                     Some e \<Rightarrow> (Inl (OsError e), fs)
                   | None \<Rightarrow> (Inr (name, p), add_node fs p (new_node fs (KFile []) 384))))"

definition WriteFileAtomic :: "string \<Rightarrow> string \<Rightarrow> byte list \<Rightarrow> fs \<Rightarrow> unit res \<times> fs" where
  "WriteFileAtomic sfx path data fs =
     (case CreateTemp (Dir path) sfx fs of
        (Inl e, fs1) \<Rightarrow> (Inl (Wrap ''create temp file'' e), fs1)
      | (Inr (tmpName, tmp), fs1) \<Rightarrow>
          (case WriteAt tmp data 0 fs1 of
             (Inl e, fs2) \<Rightarrow> (Inl (Wrap ''write temp file'' e), snd (Remove_path tmpName fs2))
           | (Inr _, fs2) \<Rightarrow>
               (case Rename tmpName path fs2 of
                  (Inl e, fs3) \<Rightarrow> (Inl (Wrap ''rename'' e), snd (Remove_path tmpName fs3))
                | (Inr _, fs3) \<Rightarrow> (Inr (), fs3))))"

section \<open>Chunked reads\<close>

definition ChunkSize :: nat where
  "ChunkSize = 64 * 1024"

text \<open>\<open>os.File.Read\<close> on a regular file: as many bytes as fit, with no error; end of file is reported
  alone, by the read that finds nothing left.\<close>

definition file_Read :: "nat \<Rightarrow> byte list \<Rightarrow> byte list \<times> bool" where
  "file_Read n rest = (if rest = [] then ([], True) else (take n rest, False))"

text \<open>The read loop over the rest of the file; the callback may fail and has a state of its own,
  such as the connection it writes to.\<close>

function chunk_loop ::
    "nat \<Rightarrow> byte list \<Rightarrow> u64 \<Rightarrow> (u64 \<Rightarrow> byte list \<Rightarrow> bool \<Rightarrow> 's \<Rightarrow> unit res \<times> 's) \<Rightarrow> 's \<Rightarrow> u64 res \<times> 's" where
  "chunk_loop n rest offset fn s =
     (let (chunk, eof) = file_Read (Suc n) rest
      in if length chunk > 0
         then (case fn offset chunk eof s of
                 (Inl e, s1) \<Rightarrow> (Inl e, s1)
               | (Inr _, s1) \<Rightarrow>
                   if eof then (Inr (offset + of_nat (length chunk)), s1)
                   else chunk_loop n (drop (length chunk) rest) (offset + of_nat (length chunk)) fn s1)
         else if eof then (Inr offset, s)
         else chunk_loop n rest offset fn s)"
  by pat_completeness auto
termination
  by (relation "measure (\<lambda>(n, rest, _). length rest)") (auto simp: file_Read_def split: if_splits)

definition ReadFileChunked ::
    "string \<Rightarrow> fs \<Rightarrow> (u64 \<Rightarrow> byte list \<Rightarrow> bool \<Rightarrow> 's \<Rightarrow> unit res \<times> 's) \<Rightarrow> 's \<Rightarrow> unit res \<times> 's" where
  "ReadFileChunked path fs fn s =
     (case OpenRead path fs of
        Inl e \<Rightarrow> (Inl (Wrap ''open file for chunked read'' e), s)
      | Inr f \<Rightarrow>
          (case ReadFrom f fs of
             Inl e \<Rightarrow> (Inl (Wrap ''read chunk'' e), s)
           | Inr data \<Rightarrow>
               (case chunk_loop (ChunkSize - 1) data 0 fn s of
                  (Inl e, s1) \<Rightarrow> (Inl e, s1)
                | (Inr offset, s1) \<Rightarrow>
                    if offset = 0
                    then (case fn 0 [] True s1 of (Inl e, s2) \<Rightarrow> (Inl e, s2) | (Inr _, s2) \<Rightarrow> (Inr (), s2))
                    else (Inr (), s1))))"

section \<open>Every operation is a file system action\<close>

lemma fs_action_best_effort: "fs_action m \<Longrightarrow> fs_action (best_effort ctx m)"
proof -
  have "snd (best_effort ctx m fs) = snd (m fs)" for fs
    by (auto simp: best_effort_def split: prod.split sum.split)
  then show "fs_action m \<Longrightarrow> fs_action (best_effort ctx m)" by (simp add: fs_action_def)
qed

interpretation ApplyAttrs: fs_action "ApplyAttrs path entry"
  unfolding ApplyAttrs_def
  by (intro fs_action_and_then fs_action_best_effort Chmod.fs_action_axioms Chtimes.fs_action_axioms)

interpretation EnsureDir: fs_action "EnsureDir path"
  unfolding EnsureDir_def by (rule MkdirAll.fs_action_axioms)

interpretation DeleteEntry: fs_action "DeleteEntry path"
  unfolding DeleteEntry_def by (rule RemoveAll.fs_action_axioms)

interpretation WriteChunkAt: fs_action "WriteChunkAt path data offset"
  unfolding WriteChunkAt_def
  by (intro fs_action_and_then fs_action_wrap open_create.fs_action_axioms WriteAt.fs_action_axioms)

interpretation CreateTemp: fs_action "CreateTemp dir sfx"
proof unfold_locales
  fix fs assume "wf_fs fs"
  then show "wf_fs (snd (CreateTemp dir sfx fs))"
    using resolve_placed [of fs False "Join dir (''.sync-tmp-'' @ sfx)"] not_dir_None
    by (auto simp: CreateTemp_def Let_def intro!: wf_add split: sum.split option.split)
qed (auto simp: CreateTemp_def Let_def split: sum.split option.split)

section \<open>Chunks\<close>

text \<open>The reference cut of a content: consecutive pieces of at most \<open>n + 1\<close> bytes, none marked
  final; an empty content is one empty final piece.\<close>

type_synonym chunk = "u64 \<times> byte list \<times> bool"

function cut :: "nat \<Rightarrow> u64 \<Rightarrow> byte list \<Rightarrow> chunk list" where
  "cut n off rest =
     (if rest = [] then []
      else (off, take (Suc n) rest, False)
        # cut n (off + of_nat (length (take (Suc n) rest))) (drop (Suc n) rest))"
  by pat_completeness auto
termination
  by (relation "measure (\<lambda>(n, off, rest). length rest)") auto

declare cut.simps [simp del] chunk_loop.simps [simp del]

lemma cut_Nil [simp]: "cut n off [] = []"
  by (simp add: cut.simps)

lemma chunk_loop_Nil [simp]: "chunk_loop n [] off fn s = (Inr off, s)"
  by (simp add: chunk_loop.simps file_Read_def)

definition file_chunks :: "byte list \<Rightarrow> chunk list" where
  "file_chunks data = (if data = [] then [(0, [], True)] else cut (ChunkSize - 1) 0 data)"

text \<open>Handing a list of chunks to a callback, stopping at its first error.\<close>

fun feed :: "(u64 \<Rightarrow> byte list \<Rightarrow> bool \<Rightarrow> 's \<Rightarrow> unit res \<times> 's) \<Rightarrow> chunk list \<Rightarrow> 's \<Rightarrow> unit res \<times> 's" where
  "feed fn [] s = (Inr (), s)"
| "feed fn ((off, data, final) # cs) s =
     (case fn off data final s of (Inl e, s1) \<Rightarrow> (Inl e, s1) | (Inr _, s1) \<Rightarrow> feed fn cs s1)"

lemma chunk_loop_feed:
  "chunk_loop n rest off fn s =
     (case feed fn (cut n off rest) s of
        (Inl e, s1) \<Rightarrow> (Inl e, s1)
      | (Inr _, s1) \<Rightarrow> (Inr (off + of_nat (length rest)), s1))"
proof (induction n rest off fn s rule: chunk_loop.induct)
  case (1 n rest off fn s)
  show ?case
  proof (cases "rest = []")
    case True
    then show ?thesis by simp
  next
    case False
    let ?c = "take (Suc n) rest"
    have rd: "file_Read (Suc n) rest = (?c, False)" and pos: "length ?c > 0"
      using False by (simp_all add: file_Read_def)
    have dr: "drop (length ?c) rest = drop (Suc n) rest" by (simp add: min_def)
    have len: "of_nat (length rest) = (of_nat (length ?c) + of_nat (length (drop (Suc n) rest)) :: u64)"
      by (simp add: min_def flip: of_nat_add)
    let ?off = "off + of_nat (length ?c)"
    have loop: "chunk_loop n rest off fn s = (case fn off ?c False s of
        (Inl e, s1) \<Rightarrow> (Inl e, s1) | (Inr _, s1) \<Rightarrow> chunk_loop n (drop (Suc n) rest) ?off fn s1)"
      by (subst chunk_loop.simps) (simp only: rd prod.case Let_def pos if_True if_False dr)
    have cutr: "cut n off rest = (off, ?c, False) # cut n ?off (drop (Suc n) rest)"
      by (subst cut.simps) (simp only: False if_False)
    show ?thesis
    proof (cases "fn off ?c False s")
      case (Pair r s1)
      show ?thesis
      proof (cases r)
        case (Inl e)
        with Pair show ?thesis by (simp add: loop cutr)
      next
        case (Inr u)
        with Pair have fnr: "fn off ?c False s = (Inr u, s1)" by simp
        have "chunk_loop n (drop (length ?c) rest) ?off fn s1 =
            (case feed fn (cut n ?off (drop (length ?c) rest)) s1 of
               (Inl e, s2) \<Rightarrow> (Inl e, s2)
             | (Inr _, s2) \<Rightarrow> (Inr (?off + of_nat (length (drop (length ?c) rest))), s2))"
          by (rule "1.IH"(1) [OF rd [symmetric] refl pos fnr [symmetric]]) simp_all
        then show ?thesis
          unfolding loop cutr feed.simps fnr dr len prod.case sum.case by (simp only: add.assoc)
      qed
    qed
  qed
qed

lemma cut_shape:
  "(o', d, f) \<in> set (cut n off rest) \<Longrightarrow> \<not> f \<and> d \<noteq> [] \<and> length d \<le> Suc n"
proof (induction n off rest rule: cut.induct)
  case (1 n off rest)
  then show ?case by (cases "rest = []") (auto simp: cut.simps [of n off rest])
qed

lemma cut_concat: "concat (map (\<lambda>(_, d, _). d) (cut n off rest)) = rest"
proof (induction n off rest rule: cut.induct)
  case (1 n off rest)
  then show ?case by (cases "rest = []") (simp_all add: cut.simps [of n off rest])
qed

text \<open>The whole routine: for a file shorter than \<open>2 ^ 64\<close> bytes it feeds exactly those chunks.\<close>

lemma ReadFileChunked_feed:
  assumes "OpenRead path fs = Inr f" "ReadFrom f fs = Inr data" "length data < 2 ^ 64"
  shows "ReadFileChunked path fs fn s = feed fn (file_chunks data) s"
proof (cases "data = []")
  case True
  then show ?thesis
    using assms
    by (simp add: ReadFileChunked_def file_chunks_def chunk_loop_feed cut.simps
        split: prod.split sum.split)
next
  case False
  have "(of_nat (length data) :: u64) \<noteq> 0"
    using False assms(3) by (simp add: of_nat_eq_0_iff word_of_nat_eq_0_iff) (auto dest: dvd_imp_le)
  then show ?thesis
    using assms False
    by (auto simp: ReadFileChunked_def file_chunks_def chunk_loop_feed split: prod.split sum.split)
qed

section \<open>Putting chunks back together\<close>

text \<open>Contract of a positional write: bytes outside the written range keep their value. The writer
  of \<open>WriteChunkAt\<close> is \<open>splice\<close>.\<close>

locale positional_write =
  fixes wr :: "byte list \<Rightarrow> nat \<Rightarrow> byte list \<Rightarrow> byte list"
  assumes wr_prefix: "off \<le> length old \<Longrightarrow>
    wr old off data = take off old @ data @ drop (off + length data) old"
begin

text \<open>Writing consecutive pieces over an old content: the new bytes, then what is left of the old
  ones. Nothing shortens the file.\<close>

lemma write_over:
  "wr (pre @ drop (length pre) old) (length pre) data =
     (pre @ data) @ drop (length (pre @ data)) old"
  by (subst wr_prefix) (auto simp: add.commute)

end

lemma splice_prefix:
  "off \<le> length old \<Longrightarrow> splice old off data = take off old @ data @ drop (off + length data) old"
  by (simp add: splice_def)

interpretation splice: positional_write splice
  by unfold_locales (rule splice_prefix)

lemma splice_empty [simp]: "off \<le> length old \<Longrightarrow> splice old off [] = old"
  by (simp add: splice_def)

lemma length_splice: "length (splice old off data) = max (length old) (off + length data)"
  by (simp add: splice_def max_def) linarith

lemma foldl_cut_splice:
  assumes "length pre + length rest < 2 ^ 64"
  shows "foldl (\<lambda>cur (off, d, _). splice cur (unat off) d) (pre @ drop (length pre) old)
      (cut n (of_nat (length pre)) rest) = (pre @ rest) @ drop (length (pre @ rest)) old"
  using assms
proof (induction n "of_nat (length pre) :: u64" rest arbitrary: pre rule: cut.induct)
  case (1 n rest)
  show ?case
  proof (cases "rest = []")
    case True
    then show ?thesis by (simp add: cut.simps)
  next
    case False
    let ?c = "take (Suc n) rest"
    have u: "unat (of_nat (length pre) :: u64) = length pre"
      using "1.prems" by (simp add: unat_of_nat)
    have off: "(of_nat (length pre) + of_nat (length ?c) :: u64) = of_nat (length (pre @ ?c))"
      by simp
    have len: "length (pre @ ?c) + length (drop (Suc n) rest) < 2 ^ 64"
    proof -
      have "length ?c + length (drop (Suc n) rest) = length rest"
        by (metis append_take_drop_id length_append)
      then show ?thesis using "1.prems" by (simp only: length_append add.assoc)
    qed
    have IH: "foldl (\<lambda>cur (off, d, _). splice cur (unat off) d)
        ((pre @ ?c) @ drop (length (pre @ ?c)) old)
        (cut n (of_nat (length (pre @ ?c))) (drop (Suc n) rest)) =
        ((pre @ ?c) @ drop (Suc n) rest) @ drop (length ((pre @ ?c) @ drop (Suc n) rest)) old"
      using "1.hyps" [OF False off len] by (simp only: off)
    have "cut n (of_nat (length pre)) rest =
        (of_nat (length pre), ?c, False) # cut n (of_nat (length (pre @ ?c))) (drop (Suc n) rest)"
      by (subst cut.simps) (simp only: False if_False off)
    then show ?thesis
      using IH by (simp only: foldl.simps prod.case u splice.write_over append.assoc append_take_drop_id)
  qed
qed

lemma foldl_chunks_splice:
  assumes "length data < 2 ^ 64"
  shows "foldl (\<lambda>cur (off, d, _). splice cur (unat off) d) old (file_chunks data) =
    data @ drop (length data) old"
  using foldl_cut_splice [of "[]" data old "ChunkSize - 1"] assms by (simp add: file_chunks_def)

section \<open>Writing a chunk\<close>

lemma WriteAt_file:
  assumes "calm fs" "look fs p = Some nd" "n_kind nd = KFile d" "0 \<le> off" "data \<noteq> []"
  shows "WriteAt p data off fs =
    (Inr (), put fs p (nd\<lparr>n_kind := KFile (splice d (nat off) data), n_mtime := fs_clock fs\<rparr>))"
  using assms by (simp add: WriteAt_def)

lemma WriteAt_none: "0 \<le> off \<Longrightarrow> WriteAt p [] off fs = (Inr (), fs)"
  by (simp add: WriteAt_def)

lemma WriteChunkAt_existing:
  assumes "wf_fs fs" "calm fs" "look fs p = Some nd" "n_kind nd = KFile d" "0 \<le> off"
  shows "WriteChunkAt (render True p) data off fs =
    (Inr (), if data = [] then fs
             else put fs p (nd\<lparr>n_kind := KFile (splice d (nat off) data), n_mtime := fs_clock fs\<rparr>))"
proof -
  have "open_create (render True p) False 420 fs = (Inr p, fs)"
    using open_create_plain(2) [OF assms(1-4), of False] by simp
  then show ?thesis
    using assms by (simp add: WriteChunkAt_def and_then_def wrap_err_def WriteAt_file WriteAt_none)
qed

lemma WriteChunkAt_negative:
  assumes "off < 0"
  shows "\<not> is_ok (fst (WriteChunkAt path data off fs))"
  using assms
  by (auto simp: WriteChunkAt_def and_then_def wrap_err_def WriteAt_def split: prod.split sum.split)

section \<open>Attributes and metadata\<close>

lemma ApplyAttrs_plain:
  assumes "wf_fs fs" "calm fs" "look fs p = Some nd" "\<And>t. n_kind nd \<noteq> KLink t"
  shows "ApplyAttrs (render True p) e fs =
    (Inr (), put fs p (nd\<lparr>n_mode := syscallMode (fe_Mode e), n_mtime := fe_MTime e,
       n_atime := fe_ATime e\<rparr>))"
proof -
  let ?nd1 = "nd\<lparr>n_mode := syscallMode (fe_Mode e)\<rparr>"
  have r: "resolve fs' True (render True p) = Inr p"
    if "wf_fs fs'" "look fs' p = Some nd'" "n_kind nd' = n_kind nd" for fs' nd'
    using that assms(4) by (intro resolve_plain nameable_look) (auto simp: kind_at_def)
  have "Chmod (render True p) (fe_Mode e) fs = (Inr (), put fs p ?nd1)"
    using assms r [OF assms(1,3)] by (simp add: Chmod_def)
  moreover have "wf_fs (put fs p ?nd1)" using assms by (intro wf_put) auto
  then have "Chtimes (render True p) (fe_ATime e) (fe_MTime e) (put fs p ?nd1) =
      (Inr (), put (put fs p ?nd1) p (?nd1\<lparr>n_mtime := fe_MTime e, n_atime := fe_ATime e\<rparr>))"
    using assms r [of "put fs p ?nd1" ?nd1] by (simp add: Chtimes_def)
  moreover have "put (put fs p a) p b = put fs p b" for a b
    by (simp add: put_def gm_set_def update_last)
  ultimately show ?thesis
    by (simp add: ApplyAttrs_def and_then_def best_effort_def)
qed

text \<open>A refused \<open>chmod\<close> or \<open>chtimes\<close> is not an error; a vanished file is.\<close>

lemma ApplyAttrs_denied:
  assumes "wf_fs fs" "look fs p = Some nd" "\<And>t. n_kind nd \<noteq> KLink t"
    "fs_fault fs SChmod p = Some EPERM" "fs_fault fs SUtimes p = Some EPERM"
  shows "ApplyAttrs (render True p) e fs = (Inr (), fs)"
proof -
  have "resolve fs True (render True p) = Inr p"
    using assms by (intro resolve_plain nameable_look) (auto simp: kind_at_def)
  with assms show ?thesis
    by (simp add: ApplyAttrs_def and_then_def best_effort_def Chmod_def Chtimes_def)
qed

lemma perm_syscallMode: "perm_bits (syscallMode m) = m AND 511"
proof -
  have z: "(511 :: u32) AND 2048 = 0" "(511 :: u32) AND 1024 = 0" "(511 :: u32) AND 512 = 0"
    by simp_all
  have "(x OR y) AND 511 = (x AND 511) OR (y AND 511)" for x y :: u32
    by (auto simp: bit_eq_iff bit_and_iff bit_or_iff)
  then show ?thesis
    by (simp add: perm_bits_def syscallMode_def z and.commute [of _ 511] and.assoc)
qed

text \<open>The metadata of a node, as an entry.\<close>

definition content_hash :: "kind \<Rightarrow> byte list" where
  "content_hash k = (case k of KFile d \<Rightarrow> sha256 d | _ \<Rightarrow> replicate 32 0)"

definition entry_of :: "fs \<Rightarrow> string list \<Rightarrow> node \<Rightarrow> u64 \<Rightarrow> FileEntry" where
  "entry_of fs rel nd seq =
     \<lparr>fe_Path = join_slash rel, fe_EntryType = entry_type (n_kind nd),
      fe_Mode = perm_bits (n_mode nd), fe_UID = 0, fe_GID = 0, fe_MTime = n_mtime nd,
      fe_ATime = n_mtime nd, fe_Size = info_size fs nd,
      fe_ContentHash = content_hash (n_kind nd), fe_Seq = seq\<rparr>"

lemma entry_of_sel [simp]:
  "fe_Path (entry_of fs rel nd seq) = join_slash rel"
  "fe_EntryType (entry_of fs rel nd seq) = entry_type (n_kind nd)"
  "fe_Mode (entry_of fs rel nd seq) = perm_bits (n_mode nd)"
  "fe_MTime (entry_of fs rel nd seq) = n_mtime nd"
  "fe_ContentHash (entry_of fs rel nd seq) = content_hash (n_kind nd)"
  "fe_Seq (entry_of fs rel nd seq) = seq"
  by (simp_all add: entry_of_def)

lemma entry_type_regular: "entry_type k = FileTypeRegularFile \<longleftrightarrow> (\<exists>d. k = KFile d)"
  by (cases k) (simp_all add: entry_type_def file_type_defs)

lemma HashFile_plain:
  assumes "wf_fs fs" "calm fs" "look fs p = Some nd" "n_kind nd = KFile d"
  shows "HashFile (render True p) fs = Inr (sha256 d)"
proof -
  have "resolve fs True (render True p) = Inr p"
    using assms by (intro resolve_plain nameable_look) (auto simp: kind_at_def)
  with assms show ?thesis by (simp add: HashFile_def OpenRead_def ReadFrom_def)
qed

lemma BuildEntry_plain:
  assumes "wf_fs fs" "calm fs" "look fs (b @ rel) = Some nd" "rel \<noteq> []"
  shows "BuildEntry (render True b) (render True (b @ rel)) seq fs = Inr (entry_of fs rel nd seq)"
proof -
  have names: "\<forall>w \<in> set (b @ rel). name_ok w"
    using nameable_names [OF assms(1) nameable_look [OF assms(3)]] .
  then have "Rel (render True b) (render True (b @ rel)) = Inr (join_slash rel)"
    using assms(4) by (intro Rel_below) auto
  moreover have "Lstat (render True (b @ rel)) fs = Inr nd"
    using assms by (simp add: Lstat_plain)
  ultimately show ?thesis
    using HashFile_plain [OF assms(1-3)]
    by (cases "n_kind nd")
      (auto simp: BuildEntry_def entry_of_def content_hash_def entry_type_def file_type_defs)
qed

section \<open>The walk lists the tree\<close>

lemma set_walk_list: "set (walk_list fs b) = {r. r \<noteq> [] \<and> look fs (b @ r) \<noteq> None}"
proof -
  have "set (walk_list fs b) = drop (length b) ` {q. strict_prefix b q \<and> look fs q \<noteq> None}"
    by (auto simp: walk_list_def in_nodes)
  also have "\<dots> = {r. r \<noteq> [] \<and> look fs (b @ r) \<noteq> None}"
  proof (intro equalityI subsetI)
    fix r assume "r \<in> {r. r \<noteq> [] \<and> look fs (b @ r) \<noteq> None}"
    then have "strict_prefix b (b @ r)" "look fs (b @ r) \<noteq> None" "drop (length b) (b @ r) = r"
      by (auto simp: strict_prefix_def)
    then show "r \<in> drop (length b) ` {q. strict_prefix b q \<and> look fs q \<noteq> None}" by force
  qed (auto simp: strict_prefix_def prefix_def)
  finally show ?thesis .
qed

lemma distinct_walk_list: "gm_ok (fs_nodes fs) \<Longrightarrow> distinct (walk_list fs b)"
proof -
  assume "gm_ok (fs_nodes fs)"
  then have "distinct (filter (strict_prefix b) (gm_keys (fs_nodes fs)))"
    by (simp add: gm_ok_keys)
  moreover have "inj_on (drop (length b)) (set (filter (strict_prefix b) (gm_keys (fs_nodes fs))))"
    by (auto simp: inj_on_def strict_prefix_def prefix_def)
  ultimately show ?thesis by (simp add: walk_list_def distinct_map)
qed

lemma sorted_walk_list: "sorted (walk_list fs b)"
  by (simp add: walk_list_def)

definition listed :: "fs \<Rightarrow> fpath \<Rightarrow> string list list" where
  "listed fs b = filter (\<lambda>r. last r \<noteq> SyncTombstoneFile) (walk_list fs b)"

fun number_entries :: "fs \<Rightarrow> fpath \<Rightarrow> u64 \<Rightarrow> string list list \<Rightarrow> FileEntry list" where
  "number_entries fs b n [] = []"
| "number_entries fs b n (r # rs) =
     entry_of fs r (the (look fs (b @ r))) n # number_entries fs b (n + 1) rs"

lemma visit_plain:
  assumes "wf_fs fs" "calm fs" "look fs (b @ rel) = Some nd" "rel \<noteq> []"
  shows "visit (render True b) rel seq fs =
    Inr (if last rel = SyncTombstoneFile then None else Some (entry_of fs rel nd seq))"
proof -
  have names: "\<forall>w \<in> set (b @ rel). name_ok w"
    using nameable_names [OF assms(1) nameable_look [OF assms(3)]] .
  have j: "Join (render True b) (join_slash rel) = render True (b @ rel)"
    using names by (intro Join_names) auto
  have "resolve fs False (render True (b @ rel)) = Inr (b @ rel)"
    using assms by (intro resolve_plain nameable_look) auto
  then show ?thesis
    using assms BuildEntry_plain [OF assms] Lstat_plain [OF assms(1-3)]
    by (simp add: visit_def j Let_def)
qed

lemma walk_loop_plain:
  assumes "wf_fs fs" "calm fs" "\<forall>r \<in> set rels. r \<noteq> [] \<and> look fs (b @ r) \<noteq> None"
  shows "walk_loop (render True b) rels seq es fs =
    Inr (es @ number_entries fs b seq (filter (\<lambda>r. last r \<noteq> SyncTombstoneFile) rels))"
  using assms(3)
proof (induction rels arbitrary: seq es)
  case Nil
  then show ?case by simp
next
  case (Cons r rels)
  then obtain nd where "look fs (b @ r) = Some nd" "r \<noteq> []" by auto
  with Cons visit_plain [OF assms(1,2)] show ?case by auto
qed

lemma WalkDirectory_plain:
  assumes "wf_fs fs" "calm fs" "is_dir fs b"
  shows "WalkDirectory (render True b) fs = Inr (number_entries fs b 0 (listed fs b))"
proof -
  obtain nd where nd: "look fs b = Some nd" "n_kind nd = KDir" using assms(3) by (rule is_dirE)
  have abs: "Abs (render True (fs_cwd fs)) (render True b) = render True b"
    using nameable_names [OF assms(1) nameable_dir [OF assms(3)]] by (simp add: Abs_def Clean_abs)
  have "resolve fs False (render True b) = Inr b"
    using assms by (intro resolve_plain nameable_dir) auto
  moreover have "walk_loop (render True b) (walk_list fs b) 0 [] fs =
      Inr (number_entries fs b 0 (listed fs b))"
    using walk_loop_plain [OF assms(1,2), of "walk_list fs b" b 0 "[]"]
    by (simp add: set_walk_list listed_def)
  ultimately show ?thesis
    using assms nd Lstat_plain [OF assms(1,2) nd(1)]
    by (simp add: WalkDirectory_def abs Let_def)
qed

lemma map_Path_number: "map fe_Path (number_entries fs b n rs) = map join_slash rs"
  by (induction rs arbitrary: n) auto

lemma set_number_entries:
  "e \<in> set (number_entries fs b n rs) \<longleftrightarrow>
     (\<exists>i < length rs. e = entry_of fs (rs ! i) (the (look fs (b @ rs ! i))) (n + of_nat i))"
proof (induction rs arbitrary: n)
  case Nil
  then show ?case by simp
next
  case (Cons r rs)
  show ?case by (simp add: Cons Ex_less_Suc2 add.assoc [symmetric] add.commute [of 1]) (simp add: ac_simps)
qed

section \<open>Copying a file in chunks\<close>

text \<open>A receiver that writes every chunk where it belongs.\<close>

definition chunk_writer :: "string \<Rightarrow> u64 \<Rightarrow> byte list \<Rightarrow> bool \<Rightarrow> fs \<Rightarrow> unit res \<times> fs" where
  "chunk_writer path off data final = WriteChunkAt path data (sint off)"

lemma cut_offsets:
  assumes "unat off + length rest < 2 ^ 63" "(o', d, f) \<in> set (cut n off rest)"
  shows "unat o' < 2 ^ 63"
  using assms
proof (induction n off rest rule: cut.induct)
  case (1 n off rest)
  show ?case
  proof (cases "rest = []")
    case True
    with "1.prems" show ?thesis by simp
  next
    case False
    let ?c = "take (Suc n) rest"
    have len: "length ?c + length (drop (Suc n) rest) = length rest"
      by (metis append_take_drop_id length_append)
    have u: "unat (off + of_nat (length ?c)) = unat off + length ?c"
      using "1.prems"(1) len by (simp add: unat_word_ariths unat_of_nat)
    have "(o', d, f) = (off, ?c, False) \<or> (o', d, f) \<in> set (cut n (off + of_nat (length ?c)) (drop (Suc n) rest))"
      using "1.prems"(2) False by (subst (asm) cut.simps) simp
    then show ?thesis
    proof
      assume "(o', d, f) = (off, ?c, False)"
      with "1.prems"(1) show ?thesis by simp
    next
      assume in_rest: "(o', d, f) \<in> set (cut n (off + of_nat (length ?c)) (drop (Suc n) rest))"
      show ?thesis
        by (rule "1.IH" [OF False _ in_rest]) (use "1.prems"(1) u len in linarith)
    qed
  qed
qed

lemma sint_small: "unat (x :: u64) < 2 ^ 63 \<Longrightarrow> nat (sint x) = unat x \<and> 0 \<le> sint x"
proof -
  assume "unat x < 2 ^ 63"
  moreover have u: "uint x = int (unat x)" by simp
  ultimately have "uint x < int (2 ^ 63)" by (simp only: of_nat_less_iff)
  then have "uint x < 2 ^ 63" by (simp only: of_nat_power of_nat_numeral)
  moreover have "- (2 ^ 63) \<le> uint x" by (rule order_trans [of _ 0]) simp_all
  ultimately have "signed_take_bit 63 (uint x) = uint x" by (intro signed_take_bit_int_eq_self)
  then have "sint x = uint x" by (simp add: sint_uint)
  then show ?thesis by (simp only: u nat_int of_nat_0_le_iff simp_thms)
qed

lemma feed_chunk_writer:
  assumes "wf_fs fs" "calm fs" "look fs p = Some nd" "n_kind nd = KFile d"
    "\<forall>(off, _, _) \<in> set cs. unat off < 2 ^ 63"
  shows "\<exists>fs'. feed (chunk_writer (render True p)) cs fs = (Inr (), fs') \<and>
    kind_at fs' p = Some (KFile (foldl (\<lambda>cur (off, x, _). splice cur (unat off) x) d
       (filter (\<lambda>(_, x, _). x \<noteq> []) cs))) \<and>
    (\<forall>q. q \<noteq> p \<longrightarrow> look fs' q = look fs q)"
  using assms
proof (induction cs arbitrary: fs nd d)
  case Nil
  then show ?case by (auto simp: kind_at_def)
next
  case (Cons c cs)
  obtain off x fin where c: "c = (off, x, fin)" by (cases c) auto
  have off: "nat (sint off) = unat off" "0 \<le> sint off"
    using Cons.prems(5) sint_small [of off] by (auto simp: c)
  have rest: "\<forall>(off, _, _) \<in> set cs. unat off < 2 ^ 63" using Cons.prems(5) by auto
  show ?case
  proof (cases "x = []")
    case True
    then have "chunk_writer (render True p) off x fin fs = (Inr (), fs)"
      using WriteChunkAt_existing [OF Cons.prems(1-4) off(2)] by (simp add: chunk_writer_def)
    then show ?thesis using Cons.IH [OF Cons.prems(1-4) rest] True by (simp add: c)
  next
    case False
    let ?nd = "nd\<lparr>n_kind := KFile (splice d (unat off) x), n_mtime := fs_clock fs\<rparr>"
    have w: "chunk_writer (render True p) off x fin fs = (Inr (), put fs p ?nd)"
      using WriteChunkAt_existing [OF Cons.prems(1-4) off(2)] off(1) False by (simp add: chunk_writer_def)
    have "wf_fs (put fs p ?nd)" using Cons.prems by (auto intro!: wf_put)
    then have "\<exists>fs'. feed (chunk_writer (render True p)) cs (put fs p ?nd) = (Inr (), fs') \<and>
      kind_at fs' p = Some (KFile (foldl (\<lambda>cur (off, x, _). splice cur (unat off) x) (splice d (unat off) x)
         (filter (\<lambda>(_, x, _). x \<noteq> []) cs))) \<and>
      (\<forall>q. q \<noteq> p \<longrightarrow> look fs' q = look (put fs p ?nd) q)"
      using Cons.prems(2) rest by (intro Cons.IH [where nd = ?nd]) auto
    then show ?thesis using w False by (simp add: c)
  qed
qed

lemma file_chunks_nonempty:
  "filter (\<lambda>(_, x, _). x \<noteq> []) (file_chunks data) = (if data = [] then [] else file_chunks data)"
proof -
  have "filter (\<lambda>(_, x, _). x \<noteq> []) (cut n off data) = cut n off data" for n off
    using cut_shape [of _ _ _ n off data] by (auto intro!: filter_True)
  then show ?thesis by (simp add: file_chunks_def)
qed

lemma file_chunks_offsets:
  "length data < 2 ^ 63 \<Longrightarrow> \<forall>(off, _, _) \<in> set (file_chunks data). unat off < 2 ^ 63"
  using cut_offsets [of 0 data _ _ _ "ChunkSize - 1"] by (auto simp: file_chunks_def)

section \<open>Replacing a file atomically\<close>

lemma Remove_path_other:
  assumes "resolve fs False name = Inr t" "q \<noteq> t"
  shows "kind_at (snd (Remove_path name fs)) q = kind_at fs q"
proof -
  have "kind_at (fs\<lparr>fs_nodes := gm_delete (fs_nodes fs) t\<rparr>) q = kind_at fs q"
    using assms(2) by (simp add: kind_at_def look_def)
  then show ?thesis using assms(1) by (auto simp: Remove_path_def split: option.split)
qed

lemma no_child_of_file:
  assumes "wf_fs fs" "kind_at fs t = Some (KFile d)" "prefix t q" "kind_at fs q \<noteq> None"
  shows "q = t"
proof (rule ccontr)
  assume "q \<noteq> t"
  with assms(3) obtain r where "q = t @ r" "r \<noteq> []" by (auto elim: prefixE)
  with assms have "is_dir fs t" using wf_parents by blast
  with assms(2) show False by (simp add: is_dir_kind)
qed

lemma kind_move_file:
  assumes wf: "wf_fs fs" and f: "kind_at fs t = Some (KFile d)" and nd: "\<not> is_dir fs pn" and ne: "t \<noteq> pn"
  shows "kind_at (move_tree fs t pn) pn = Some (KFile d)"
    and "q \<noteq> t \<Longrightarrow> q \<noteq> pn \<Longrightarrow> kind_at (move_tree fs t pn) q = kind_at fs q"
proof -
  obtain n where n: "look fs t = Some n" "n_kind n = KFile d" using f by (auto simp: kind_at_def)
  have "look (move_tree fs t pn) pn = Some n"
    using look_move [OF wf nd n(1) ne, of t] move_key_under [of t pn "[]"] by simp
  with n show "kind_at (move_tree fs t pn) pn = Some (KFile d)" by (simp add: kind_at_def)
  assume q: "q \<noteq> t" "q \<noteq> pn"
  have fwd: "look (move_tree fs t pn) q = Some x" if x: "look fs q = Some x" for x
  proof -
    have "\<not> prefix t q" using no_child_of_file [OF wf f] q x by (auto simp: kind_at_def)
    then show ?thesis using look_move [OF wf nd x q(2), of t] by (simp add: move_key_other)
  qed
  have bwd: "look fs q = Some x" if x: "look (move_tree fs t pn) q = Some x" for x
  proof -
    obtain k where k: "q = move_key t pn k" "look fs k = Some x" "k \<noteq> pn"
      using look_moveE [OF wf nd x] by blast
    have "k \<noteq> t" using k(1) q(2) move_key_under [of t pn "[]"] by auto
    then have "\<not> prefix t k" using no_child_of_file [OF wf f] k(2) by (auto simp: kind_at_def)
    with k show ?thesis by (simp add: move_key_other)
  qed
  show "kind_at (move_tree fs t pn) q = kind_at fs q"
    using fwd bwd by (cases "look fs q"; cases "look (move_tree fs t pn) q") (auto simp: kind_at_def)
qed

lemma Rename_file:
  assumes wf: "wf_fs fs" and f: "kind_at fs t = Some (KFile d)" and pl: "placed fs pn"
    and ne: "t \<noteq> pn" "\<not> prefix t pn"
  shows "fst (Rename (render True t) (render True pn) fs) = Inr () \<Longrightarrow>
      kind_at (snd (Rename (render True t) (render True pn) fs)) pn = Some (KFile d)"
    and "fst (Rename (render True t) (render True pn) fs) = Inl e \<Longrightarrow>
      snd (Rename (render True t) (render True pn) fs) = fs"
    and "q \<noteq> t \<Longrightarrow> q \<noteq> pn \<Longrightarrow> kind_at (snd (Rename (render True t) (render True pn) fs)) q = kind_at fs q"
proof -
  have "resolve fs False (render True t) = Inr t" "resolve fs False (render True pn) = Inr pn"
    using f pl by (auto intro!: resolve_plain wf simp: nameable_def)
  note r = this Rename_def
  show "fst (Rename (render True t) (render True pn) fs) = Inr () \<Longrightarrow>
      kind_at (snd (Rename (render True t) (render True pn) fs)) pn = Some (KFile d)"
    using kind_move_file(1) [OF wf f _ ne(1)] ne by (auto simp: r split: option.splits if_splits)
  show "fst (Rename (render True t) (render True pn) fs) = Inl e \<Longrightarrow>
      snd (Rename (render True t) (render True pn) fs) = fs"
    by (auto simp: r split: option.splits if_splits)
  show "q \<noteq> t \<Longrightarrow> q \<noteq> pn \<Longrightarrow>
      kind_at (snd (Rename (render True t) (render True pn) fs)) q = kind_at fs q"
    using kind_move_file(2) [OF wf f _ ne(1)] by (auto simp: r split: option.split)
qed

lemma WriteAt_fresh:
  assumes "kind_at fs t = Some (KFile [])"
  shows "kind_at (snd (WriteAt t data 0 fs)) q =
    (if q = t \<and> is_ok (fst (WriteAt t data 0 fs)) then Some (KFile data) else kind_at fs q)"
  using assms by (auto simp: WriteAt_def kind_at_def splice_def split: option.split)

lemma CreateTemp_at:
  assumes wf: "wf_fs fs" and dir: "is_dir fs d" and nm: "name_ok (''.sync-tmp-'' @ sfx)"
  shows "CreateTemp (render True d) sfx fs =
    (let t = d @ [''.sync-tmp-'' @ sfx]
     in if look fs t \<noteq> None then (Inl (OsError EEXIST), fs)
        else (case fs_fault fs SCreate t of
                Some e \<Rightarrow> (Inl (OsError e), fs)
              | None \<Rightarrow> (Inr (render True t, t), add_node fs t (new_node fs (KFile []) 384))))"
proof -
  have "Join (render True d) (''.sync-tmp-'' @ sfx) = render True (d @ [''.sync-tmp-'' @ sfx])"
    using Join_names [of d "[''.sync-tmp-'' @ sfx]"] nm nameable_names [OF wf nameable_dir [OF dir]]
    by simp
  moreover have "resolve fs False (render True (d @ [''.sync-tmp-'' @ sfx])) = Inr (d @ [''.sync-tmp-'' @ sfx])"
    using dir nm by (intro resolve_plain wf) (auto simp: nameable_def placed_def)
  ultimately show ?thesis by (simp add: CreateTemp_def Let_def)
qed

text \<open>The steps after the temporary file exists.\<close>

definition commit_temp :: "fpath \<Rightarrow> fpath \<Rightarrow> byte list \<Rightarrow> fs \<Rightarrow> unit res \<times> fs" where
  "commit_temp t p data fs1 =
     (case WriteAt t data 0 fs1 of
        (Inl e, fs2) \<Rightarrow> (Inl (Wrap ''write temp file'' e), snd (Remove_path (render True t) fs2))
      | (Inr _, fs2) \<Rightarrow>
          (case Rename (render True t) (render True p) fs2 of
             (Inl e, fs3) \<Rightarrow> (Inl (Wrap ''rename'' e), snd (Remove_path (render True t) fs3))
           | (Inr _, fs3) \<Rightarrow> (Inr (), fs3)))"

lemma commit_temp_atomic:
  assumes wf: "wf_fs fs1" and k: "kind_at fs1 t = Some (KFile [])" and pl: "placed fs1 p"
    and ne: "t \<noteq> p" "\<not> prefix t p" and q: "q \<noteq> t"
  shows "kind_at (snd (commit_temp t p data fs1)) q =
    (if q = p \<and> is_ok (fst (commit_temp t p data fs1)) then Some (KFile data) else kind_at fs1 q)"
proof -
  have rt: "resolve fs' False (render True t) = Inr t" if "wf_fs fs'" "kind_at fs' t \<noteq> None" for fs'
    using that by (intro resolve_plain) (auto simp: nameable_def)
  obtain r2 fs2 where w: "WriteAt t data 0 fs1 = (r2, fs2)" by (cases "WriteAt t data 0 fs1")
  have wf2: "wf_fs fs2" using WriteAt.wf [OF wf, of t data 0] w by simp
  have k2: "kind_at fs2 x = (if x = t \<and> is_ok r2 then Some (KFile data) else kind_at fs1 x)" for x
    using WriteAt_fresh [OF k, of data x] w by simp
  show ?thesis
  proof (cases r2)
    case (Inl e)
    then have "kind_at (snd (Remove_path (render True t) fs2)) q = kind_at fs1 q"
      using k2 k q by (simp add: Remove_path_other [OF rt [OF wf2]])
    with Inl show ?thesis by (simp add: commit_temp_def w)
  next
    case (Inr u)
    have f2: "kind_at fs2 t = Some (KFile data)" and o2: "kind_at fs2 q = kind_at fs1 q"
      using k2 q Inr by simp_all
    have pl2: "placed fs2 p"
      using pl k k2 [of "butlast p"] ne(2) by (auto simp: placed_def is_dir_kind split: if_splits)
    note rn = Rename_file [OF wf2 f2 pl2 ne]
    obtain r3 fs3 where r: "Rename (render True t) (render True p) fs2 = (r3, fs3)"
      by (cases "Rename (render True t) (render True p) fs2")
    show ?thesis
    proof (cases r3)
      case (Inl e)
      then have "fs3 = fs2" using rn(2) [of e] r by simp
      then have "kind_at (snd (Remove_path (render True t) fs3)) q = kind_at fs1 q"
        using f2 o2 q by (simp add: Remove_path_other [OF rt [OF wf2]])
      with Inl Inr r show ?thesis by (simp add: commit_temp_def w)
    next
      case (Inr u')
      then show ?thesis
        using rn(1) rn(3) [of q] r q o2 \<open>r2 = Inr u\<close> by (auto simp: commit_temp_def w)
    qed
  qed
qed

lemma WriteFileAtomic_cases:
  assumes wf: "wf_fs fs" and dir: "is_dir fs d" and nm: "name_ok (''.sync-tmp-'' @ sfx)" "name_ok w"
    and ne: "w \<noteq> ''.sync-tmp-'' @ sfx" and q: "q \<noteq> d @ [''.sync-tmp-'' @ sfx]"
  shows "kind_at (snd (WriteFileAtomic sfx (render True (d @ [w])) data fs)) q =
    (if q = d @ [w] \<and> is_ok (fst (WriteFileAtomic sfx (render True (d @ [w])) data fs))
     then Some (KFile data) else kind_at fs q)"
proof -
  let ?t = "d @ [''.sync-tmp-'' @ sfx]" and ?fs1 = "\<lambda>t. add_node fs t (new_node fs (KFile []) 384)"
  have names: "\<forall>w \<in> set d. name_ok w" by (rule nameable_names [OF wf nameable_dir [OF dir]])
  have D: "Dir (render True (d @ [w])) = render True d" using names nm(2) by (rule Dir_render)
  show ?thesis
  proof (cases "look fs ?t = None \<and> fs_fault fs SCreate ?t = None")
    case False
    then show ?thesis
      by (auto simp: WriteFileAtomic_def D CreateTemp_at [OF wf dir nm(1)] Let_def split: option.split)
  next
    case True
    then have eq: "WriteFileAtomic sfx (render True (d @ [w])) data fs = commit_temp ?t (d @ [w]) data (?fs1 ?t)"
      by (simp add: WriteFileAtomic_def D CreateTemp_at [OF wf dir nm(1)] Let_def commit_temp_def)
    have "placed fs ?t" "placed fs (d @ [w])" using dir nm by (simp_all add: placed_def)
    then have "wf_fs (?fs1 ?t)" "placed (?fs1 ?t) (d @ [w])"
      using wf True nm by (auto simp: placed_def is_dir_add intro!: wf_add)
    then show ?thesis
      using commit_temp_atomic [of "?fs1 ?t" ?t "d @ [w]" q data] ne q
      by (simp add: eq kind_add new_node_def)
  qed
qed

section \<open>Properties\<close>

abbreviation demo_fs :: fs where
  "demo_fs \<equiv> sample_fs [([], KDir), ([''d''], KDir), ([''d'', ''f''], KFile [1, 2, 3])]"

lemma wf_demo [simp]: "wf_fs demo_fs"
  by (rule wf_sample) (simp_all add: name_ok_def)

text \<open>C11: a file read in chunks and written chunk by chunk over a file of the receiver ends up as
  the sender's bytes followed by whatever the receiver's file had beyond them; no other file
  changes. The copy is therefore exact precisely when the receiver's file was not longer.\<close>

theorem chunked_copy:
  assumes "OpenRead path src = Inr f" "ReadFrom f src = Inr data" "length data < 2 ^ 63"
    and "wf_fs dst" "calm dst" "kind_at dst p = Some (KFile old)"
  shows "\<exists>dst'. ReadFileChunked path src (chunk_writer (render True p)) dst = (Inr (), dst') \<and>
    kind_at dst' p = Some (KFile (data @ drop (length data) old)) \<and>
    (\<forall>q. q \<noteq> p \<longrightarrow> look dst' q = look dst q)"
proof -
  obtain nd where nd: "look dst p = Some nd" "n_kind nd = KFile old"
    using assms(6) by (auto simp: kind_at_def)
  have "ReadFileChunked path src (chunk_writer (render True p)) dst =
      feed (chunk_writer (render True p)) (file_chunks data) dst"
    using assms(1-3) by (intro ReadFileChunked_feed) auto
  moreover have "foldl (\<lambda>cur (off, x, _). splice cur (unat off) x) old
      (filter (\<lambda>(_, x, _). x \<noteq> []) (file_chunks data)) = data @ drop (length data) old"
    using foldl_chunks_splice [of data old] assms(3) by (simp add: file_chunks_nonempty)
  ultimately show ?thesis
    using feed_chunk_writer [OF assms(4,5) nd file_chunks_offsets [OF assms(3)]] by metis
qed

theorem chunked_copy_witness:
  "\<exists>dst'. ReadFileChunked ''/d/f'' (sample_fs [([], KDir), ([''d''], KDir), ([''d'', ''f''], KFile [9])])
      (chunk_writer (render True [''d'', ''f''])) demo_fs = (Inr (), dst') \<and>
    kind_at dst' [''d'', ''f''] = Some (KFile [9, 2, 3])"
proof -
  let ?src = "sample_fs [([], KDir), ([''d''], KDir), ([''d'', ''f''], KFile [9])]"
  have "OpenRead ''/d/f'' ?src = Inr [''d'', ''f'']" "ReadFrom [''d'', ''f''] ?src = Inr [9]"
    by code_simp+
  from chunked_copy [OF this _ wf_demo calm_sample, of "[''d'', ''f'']" "[1, 2, 3]"]
  show ?thesis by auto
qed



text \<open>C31: \<open>WalkDirectory\<close> lists every node below the base directory except the tombstone file, each
  path once and in the lexical order of the walk, with the node's own metadata and content hash,
  numbered from zero.\<close>

theorem WalkDirectory_lists:
  assumes "wf_fs fs" "calm fs" "is_dir fs b"
  shows "\<exists>rs. set rs = {r. r \<noteq> [] \<and> look fs (b @ r) \<noteq> None \<and> last r \<noteq> SyncTombstoneFile} \<and>
    sorted rs \<and> distinct rs \<and>
    WalkDirectory (render True b) fs =
      Inr (map (\<lambda>i. entry_of fs (rs ! i) (the (look fs (b @ rs ! i))) (of_nat i)) [0..<length rs])"
proof (intro exI conjI)
  show "set (listed fs b) = {r. r \<noteq> [] \<and> look fs (b @ r) \<noteq> None \<and> last r \<noteq> SyncTombstoneFile}"
    by (auto simp: listed_def set_walk_list)
  show "sorted (listed fs b)" by (simp add: listed_def sorted_walk_list sorted_wrt_filter)
  show "distinct (listed fs b)" using assms by (simp add: listed_def distinct_walk_list wf_fsD)
  have "number_entries fs b n rs =
      map (\<lambda>i. entry_of fs (rs ! i) (the (look fs (b @ rs ! i))) (n + of_nat i)) [0..<length rs]" for n rs
  proof (induction rs arbitrary: n)
    case (Cons r rs)
    have u: "[0..<length (r # rs)] = 0 # map Suc [0..<length rs]"
      by (simp add: upt_conv_Cons map_Suc_upt del: upt_Suc)
    show ?case unfolding u number_entries.simps Cons by (simp add: comp_def ac_simps)
  qed simp
  then show "WalkDirectory (render True b) fs =
      Inr (map (\<lambda>i. entry_of fs (listed fs b ! i) (the (look fs (b @ listed fs b ! i))) (of_nat i))
        [0..<length (listed fs b)])"
    using WalkDirectory_plain [OF assms] by simp
qed

theorem WalkDirectory_lists_witness:
  "\<exists>es. WalkDirectory (render True [''d'']) demo_fs = Inr es"
  using WalkDirectory_lists [OF wf_demo calm_sample, of "[''d'']"] by (auto simp: is_dir_kind)

text \<open>C32: the metadata a peer announces is the metadata the next scan reads back: after
  \<open>ApplyAttrs\<close>, \<open>BuildEntry\<close> reports the announced modification time and permission bits, and the
  content hash is untouched.\<close>

theorem ApplyAttrs_BuildEntry:
  assumes "wf_fs fs" "calm fs" "look fs (b @ rel) = Some nd" "rel \<noteq> []" "\<And>t. n_kind nd \<noteq> KLink t"
  shows "\<exists>fs' x. ApplyAttrs (render True (b @ rel)) e fs = (Inr (), fs') \<and>
    BuildEntry (render True b) (render True (b @ rel)) seq fs' = Inr x \<and>
    fe_Path x = join_slash rel \<and> fe_MTime x = fe_MTime e \<and> fe_Mode x = fe_Mode e AND 511 \<and>
    fe_ContentHash x = content_hash (n_kind nd) \<and> fe_EntryType x = entry_type (n_kind nd)"
proof -
  let ?nd = "nd\<lparr>n_mode := syscallMode (fe_Mode e), n_mtime := fe_MTime e, n_atime := fe_ATime e\<rparr>"
  have a: "ApplyAttrs (render True (b @ rel)) e fs = (Inr (), put fs (b @ rel) ?nd)"
    using assms by (intro ApplyAttrs_plain) auto
  have "wf_fs (put fs (b @ rel) ?nd)" using assms(1,3) by (intro wf_put) auto
  then have "BuildEntry (render True b) (render True (b @ rel)) seq (put fs (b @ rel) ?nd) =
      Inr (entry_of (put fs (b @ rel) ?nd) rel ?nd seq)"
    using assms(2,4) by (intro BuildEntry_plain) auto
  with a show ?thesis by (simp add: perm_syscallMode)
qed

theorem ApplyAttrs_BuildEntry_witness:
  "\<exists>fs' x. ApplyAttrs (render True ([''d''] @ [''f''])) (blank_entry\<lparr>fe_Mode := 493, fe_MTime := 77\<rparr>) demo_fs =
      (Inr (), fs') \<and>
    BuildEntry (render True [''d'']) (render True ([''d''] @ [''f''])) 0 fs' = Inr x \<and> fe_MTime x = 77"
  using ApplyAttrs_BuildEntry [OF wf_demo calm_sample, of "[''d'']" "[''f'']" _ "blank_entry\<lparr>fe_Mode := 493, fe_MTime := 77\<rparr>" 0]
  by (auto simp: look_sample)

end
