(* ===== verification/Confine.thy ===== *)
theory Confine
  imports FsUtil
begin

text \<open>
  Which part of the disk an operation can touch. The program builds every path it works on as
  \<open>filepath.Join(baseDir, rel)\<close> from a \<open>rel\<close> a peer sent. The contract \<open>confined_ops\<close> says that an
  operation on a path inside a directory changes nothing outside it, whatever system call is
  refused and whether or not the operation succeeds; it is met by every file operation of the
  program as long as no symbolic link is on the disk and \<open>rel\<close> has no more parent steps than names.
\<close>

section \<open>The fence\<close>

definition no_links :: "fs \<Rightarrow> bool" where
  "no_links fs \<longleftrightarrow> (\<forall>p t. kind_at fs p \<noteq> Some (KLink t))"

definition fenced :: "fpath \<Rightarrow> fs \<Rightarrow> bool" where
  "fenced b fs \<longleftrightarrow> wf_fs fs \<and> no_links fs \<and> placed fs b"

definition same_outside :: "fpath \<Rightarrow> fs \<Rightarrow> fs \<Rightarrow> bool" where
  "same_outside b fs fs' \<longleftrightarrow> (\<forall>q. \<not> prefix b q \<longrightarrow> kind_at fs' q = kind_at fs q)"

definition keeps_fence :: "fpath \<Rightarrow> fs \<Rightarrow> fs \<Rightarrow> bool" where
  "keeps_fence b fs fs' \<longleftrightarrow> fenced b fs' \<and> same_outside b fs fs'"

definition inside :: "fpath \<Rightarrow> string \<Rightarrow> bool" where
  "inside b path \<longleftrightarrow> (\<exists>p. path = render True p \<and> prefix b p \<and> (\<forall>w \<in> set p. name_ok w))"

lemma keeps_refl: "fenced b fs \<Longrightarrow> keeps_fence b fs fs"
  by (simp add: keeps_fence_def same_outside_def)

lemma keeps_trans: "keeps_fence b x y \<Longrightarrow> keeps_fence b y z \<Longrightarrow> keeps_fence b x z"
  by (simp add: keeps_fence_def same_outside_def)

text \<open>A change that keeps the tree well formed, makes no link and shows only below \<open>b\<close>.\<close>

lemma keepsI:
  assumes f: "fenced b fs" and wf: "wf_fs fs'" and out: "same_outside b fs fs'"
    and nl: "\<And>p t. kind_at fs' p \<noteq> Some (KLink t)"
  shows "keeps_fence b fs fs'"
proof -
  have b: "b \<noteq> []" "is_dir fs (butlast b)" "name_ok (last b)"
    using f by (auto simp: fenced_def placed_def)
  then have "\<not> prefix b (butlast b)" by (metis append_butlast_last_id not_prefix_induct prefix_length_le
        length_butlast diff_less less_le_not_le length_greater_0_conv zero_less_one)
  then have "is_dir fs' (butlast b)" using b(2) out by (simp add: same_outside_def is_dir_kind)
  with assms b show ?thesis by (simp add: keeps_fence_def fenced_def placed_def no_links_def)
qed

locale confined_ops =
  fixes b :: fpath
    and safe :: "'op \<Rightarrow> bool"
    and act :: "'op \<Rightarrow> fs \<Rightarrow> 'a res \<times> fs"
  assumes act_keeps: "safe op \<Longrightarrow> fenced b fs \<Longrightarrow> keeps_fence b fs (snd (act op fs))"
begin

lemma run_keeps:
  "\<forall>op \<in> set ops. safe op \<Longrightarrow> fenced b fs \<Longrightarrow>
     keeps_fence b fs (run_all (\<lambda>op fs. snd (act op fs)) ops fs)"
proof (induction ops arbitrary: fs)
  case Nil
  then show ?case by (simp add: keeps_refl)
next
  case (Cons op ops)
  have "keeps_fence b fs (snd (act op fs))" using Cons.prems by (intro act_keeps) auto
  moreover from this have "fenced b (snd (act op fs))" by (simp add: keeps_fence_def)
  ultimately show ?case using Cons by (auto intro: keeps_trans)
qed

end

section \<open>Resolution without links\<close>

lemma walk_no_links:
  assumes "no_links fs" "\<forall>w \<in> set ws. name_ok w" "walk n fs fol cur ws = Inr r"
  shows "r = cur @ ws"
  using assms
proof (induction n fs fol cur ws rule: walk.induct)
  case (1 n fs fol cur)
  then show ?case by simp
next
  case (2 n fs fol cur w ws)
  have w: "w \<noteq> []" "w \<noteq> dot" "w \<noteq> dotdot" using "2.prems"(2) by (auto simp: name_ok_def)
  have nl: "kind_at fs (cur @ [w]) \<noteq> Some (KLink t)" for t using "2.prems"(1) by (simp add: no_links_def)
  show ?case
    using "2.prems" w nl "2.IH"(3)
    by (auto simp: kind_at_def split: option.splits kind.splits if_splits)
qed

lemma resolve_at_inside:
  assumes "no_links fs" "\<forall>w \<in> set p. name_ok w" "resolve_at fs fol True p = Inr r"
  shows "r = p"
  using walk_no_links [OF assms(1,2)] assms(3)
  by (auto simp: resolve_at_def start_at_def split: if_splits)

lemma resolve_inside:
  assumes "no_links fs" "\<forall>w \<in> set p. name_ok w" "resolve fs fol (render True p) = Inr r"
  shows "r = p"
  using assms resolve_at_inside [of fs p fol r]
  by (simp add: resolve_def segs_render name_ok_no_slash)

section \<open>The system calls\<close>

lemma keeps_by_kind:
  assumes "fenced b fs" "wf_fs fs'" "\<And>q. kind_at fs' q = kind_at fs q \<or> (prefix b q \<and> (\<forall>t. kind_at fs' q \<noteq> Some (KLink t)))"
  shows "keeps_fence b fs fs'"
proof (rule keepsI [OF assms(1,2)])
  show "same_outside b fs fs'" using assms(3) by (auto simp: same_outside_def)
  show "kind_at fs' p \<noteq> Some (KLink t)" for p t
    using assms(1) assms(3) [of p] by (auto simp: fenced_def no_links_def)
qed

lemma fencedD:
  assumes "fenced b fs" shows "wf_fs fs" "no_links fs" "placed fs b"
  using assms by (auto simp: fenced_def)

text \<open>What lies above the fence is there already, so nothing above it is ever made.\<close>

lemma above_fence:
  assumes "fenced b fs" "strict_prefix p b" shows "is_dir fs p"
proof -
  obtain r where r: "b = p @ r" "r \<noteq> []" using assms(2) by (auto simp: strict_prefix_def prefix_def)
  have "nameable fs b" using assms(1) by (simp add: fenced_def nameable_def)
  then show ?thesis using nameable_dirs [OF fencedD(1) [OF assms(1)]] r by simp
qed

lemma mkdir_at_keeps:
  assumes f: "fenced b fs" and p: "prefix b p \<or> prefix p b" "\<forall>w \<in> set p. name_ok w"
  shows "keeps_fence b fs (snd (mkdir_at True p perm fs))"
proof (cases "snd (mkdir_at True p perm fs) = fs")
  case True
  with f show ?thesis by (simp add: keeps_refl)
next
  case False
  then have r: "resolve_at fs False True p = Inr p" and n: "look fs p = None"
    and s: "snd (mkdir_at True p perm fs) = add_node fs p (new_node fs KDir (syscallMode perm))"
    using resolve_at_inside [OF fencedD(2) [OF f] p(2)]
    by (auto simp: mkdir_at_def split: sum.splits option.splits if_splits)
  have "prefix b p"
    using p(1) above_fence [OF f, of p] n by (auto simp: is_dir_def strict_prefix_def)
  moreover have "wf_fs (snd (mkdir_at True p perm fs))"
    using p(2) by (intro fs_action.wf [OF fs_action_mkdir_at] fencedD(1) [OF f]) (auto simp: name_ok_def)
  ultimately show ?thesis
    unfolding s by (intro keeps_by_kind [OF f]) (auto simp: kind_add new_node_def)
qed

lemma mkdir_all_keeps:
  assumes "fenced b fs" "prefix b (rev rws) \<or> prefix (rev rws) b" "\<forall>w \<in> set rws. name_ok w"
  shows "keeps_fence b fs (snd (mkdir_all True rws perm fs))"
  using assms
proof (induction rws arbitrary: fs)
  case Nil
  then show ?case by (simp add: keeps_refl)
next
  case (Cons w rws)
  have "prefix b (rev rws) \<or> prefix (rev rws) b"
    using Cons.prems(2) by (auto simp: prefix_snoc dest: append_prefixD)
  then have up: "keeps_fence b fs (snd (mkdir_all True rws perm fs))"
    using Cons by (intro Cons.IH) auto
  then have "keeps_fence b (snd (mkdir_all True rws perm fs))
      (snd (mkdir_at True (rev (w # rws)) perm (snd (mkdir_all True rws perm fs))))"
    using Cons.prems(2,3) by (intro mkdir_at_keeps) (auto simp: keeps_fence_def)
  with up have "keeps_fence b fs (snd (mkdir_at True (rev (w # rws)) perm (snd (mkdir_all True rws perm fs))))"
    by (rule keeps_trans)
  with up show ?case
    using Cons.prems(1) by (auto simp: keeps_refl split: sum.split prod.split)
qed

lemma MkdirAll_keeps:
  assumes "fenced b fs" "prefix b p \<or> prefix p b" "\<forall>w \<in> set p. name_ok w"
  shows "keeps_fence b fs (snd (MkdirAll (render True p) perm fs))"
  using assms mkdir_all_keeps [of b fs "rev p" perm]
  by (simp add: MkdirAll_def segs_render name_ok_no_slash)

interpretation MkdirAll: confined_ops b "\<lambda>(path, perm). inside b path" "\<lambda>(path, perm). MkdirAll path perm"
  by unfold_locales (auto simp: inside_def MkdirAll_keeps)

text \<open>The other calls change at most the node they resolve to, or what lies below it.\<close>

lemma inside_resolve:
  assumes "inside b path" "fenced b fs" "resolve fs fol path = Inr p"
  shows "prefix b p"
  using assms resolve_inside [OF fencedD(2) [OF assms(2)]] by (auto simp: inside_def)

lemma keeps_put:
  assumes "fenced b fs" "prefix b p" "look fs p = Some nd" "n_kind nd' = KDir \<longleftrightarrow> n_kind nd = KDir"
    "\<And>t. n_kind nd' \<noteq> KLink t"
  shows "keeps_fence b fs (put fs p nd')"
  using assms by (intro keeps_by_kind) (auto simp: kind_put fencedD intro!: wf_put)

interpretation open_create: confined_ops b "\<lambda>(path, trunc, perm). inside b path"
    "\<lambda>(path, trunc, perm). open_create path trunc perm"
proof unfold_locales
  fix op :: "string \<times> bool \<times> u32" and fs
  assume s: "case op of (path, trunc, perm) \<Rightarrow> inside b path" and f: "fenced b fs"
  obtain path trunc perm where op: "op = (path, trunc, perm)" by (cases op) auto
  have "keeps_fence b fs (snd (open_create path trunc perm fs))"
  proof (rule keeps_by_kind [OF f])
    show "wf_fs (snd (open_create path trunc perm fs))" by (rule open_create.wf [OF fencedD(1) [OF f]])
    show "kind_at (snd (open_create path trunc perm fs)) q = kind_at fs q \<or>
        (prefix b q \<and> (\<forall>t. kind_at (snd (open_create path trunc perm fs)) q \<noteq> Some (KLink t)))" for q
      using s inside_resolve [OF _ f, of path True]
      by (auto simp: op open_create_def kind_add kind_put new_node_def split: sum.split option.split kind.split)
  qed
  then show "keeps_fence b fs (snd ((case op of (path, trunc, perm) \<Rightarrow> open_create path trunc perm) fs))"
    by (simp add: op)
qed

lemma open_create_handle:
  assumes "inside b path" "fenced b fs" "open_create path trunc perm fs = (Inr f, fs')"
  shows "prefix b f"
  using assms inside_resolve [OF assms(1,2), of True]
  by (auto simp: open_create_def split: sum.splits option.splits kind.splits)

interpretation WriteAt: confined_ops b "\<lambda>(p, data, off). prefix b p" "\<lambda>(p, data, off). WriteAt p data off"
proof unfold_locales
  fix op :: "fpath \<times> byte list \<times> int" and fs
  assume s: "case op of (p, data, off) \<Rightarrow> prefix b p" and f: "fenced b fs"
  obtain p data off where op: "op = (p, data, off)" by (cases op) auto
  have "keeps_fence b fs (snd (WriteAt p data off fs))"
    using s f by (auto simp: op WriteAt_def keeps_refl intro!: keeps_put split: option.split kind.split)
  then show "keeps_fence b fs (snd ((case op of (p, data, off) \<Rightarrow> WriteAt p data off) fs))" by (simp add: op)
qed

lemma keeps_meta:
  assumes "fenced b fs" "prefix b p" "look fs p = Some nd" "n_kind nd' = n_kind nd"
  shows "keeps_fence b fs (put fs p nd')"
  using assms fencedD(2) [OF assms(1)]
  by (intro keeps_put) (auto simp: no_links_def kind_at_def)

interpretation Chmod: confined_ops b "\<lambda>(path, mode). inside b path" "\<lambda>(path, mode). Chmod path mode"
  by unfold_locales
    (auto simp: Chmod_def keeps_refl intro!: keeps_meta split: sum.split option.split dest: inside_resolve)

interpretation Chtimes: confined_ops b "\<lambda>(path, atime, mtime). inside b path"
    "\<lambda>(path, atime, mtime). Chtimes path atime mtime"
  by unfold_locales
    (auto simp: Chtimes_def keeps_refl intro!: keeps_meta split: sum.split option.split dest: inside_resolve)

interpretation RemoveAll: confined_ops b "inside b" RemoveAll
proof unfold_locales
  fix path fs assume s: "inside b path" and f: "fenced b fs"
  show "keeps_fence b fs (snd (RemoveAll path fs))"
  proof (rule keeps_by_kind [OF f])
    show "wf_fs (snd (RemoveAll path fs))" by (rule RemoveAll.wf [OF fencedD(1) [OF f]])
    have "kind_at (drop_tree fs p) q = kind_at fs q \<or> prefix p q \<and> kind_at (drop_tree fs p) q = None" for p q
      by (auto simp: kind_at_def look_drop_tree)
    then show "kind_at (snd (RemoveAll path fs)) q = kind_at fs q \<or>
        (prefix b q \<and> (\<forall>t. kind_at (snd (RemoveAll path fs)) q \<noteq> Some (KLink t)))" for q
      using inside_resolve [OF s f, of False]
      by (auto simp: RemoveAll_def split: sum.split option.split)
        (metis option.distinct(1) prefix_order.trans)+
  qed
qed

lemma move_tree_keeps:
  assumes f: "fenced b fs" and b: "prefix b po" "prefix b pn" and nd: "\<not> is_dir fs pn"
  shows "same_outside b fs (move_tree fs po pn)"
    and "kind_at (move_tree fs po pn) k \<noteq> Some (KLink t)"
proof -
  note wf = fencedD(1) [OF f]
  have "look (move_tree fs po pn) q = look fs q" if q: "\<not> prefix b q" for q
  proof (cases "look fs q")
    case (Some x)
    have "\<not> prefix po q" "q \<noteq> pn" using q b prefix_order.trans by blast+
    with Some show ?thesis using look_move [OF wf nd, of q x po] by (simp add: move_key_other)
  next
    case None
    have False if x: "look (move_tree fs po pn) q = Some x" for x
    proof -
      obtain k where k: "q = move_key po pn k" "look fs k = Some x" "k \<noteq> pn"
        using look_moveE [OF wf nd x] by blast
      have "\<not> prefix pn q" using q b(2) prefix_order.trans by blast
      then have "\<not> prefix po k" using k(1) by (auto simp: move_key_def split: if_splits)
      with k None show False by (simp add: move_key_other)
    qed
    with None show ?thesis by (cases "look (move_tree fs po pn) q") auto
  qed
  then show "same_outside b fs (move_tree fs po pn)" by (simp add: same_outside_def kind_at_def)
  show "kind_at (move_tree fs po pn) k \<noteq> Some (KLink t)"
  proof
    assume "kind_at (move_tree fs po pn) k = Some (KLink t)"
    then obtain x where x: "look (move_tree fs po pn) k = Some x" "n_kind x = KLink t"
      by (auto simp: kind_at_def)
    obtain q where "look fs q = Some x" using look_moveE [OF wf nd x(1)] by blast
    with x(2) fencedD(2) [OF f] show False by (auto simp: no_links_def kind_at_def)
  qed
qed

interpretation Rename: confined_ops b "\<lambda>(old, new). inside b old \<and> inside b new" "\<lambda>(old, new). Rename old new"
proof unfold_locales
  fix op :: "string \<times> string" and fs
  assume s: "case op of (old, new) \<Rightarrow> inside b old \<and> inside b new" and f: "fenced b fs"
  obtain old new where op: "op = (old, new)" by (cases op) auto
  have "keeps_fence b fs (snd (Rename old new fs))"
  proof (cases "snd (Rename old new fs) = fs")
    case True
    with f show ?thesis by (simp add: keeps_refl)
  next
    case False
    then obtain po pn where r: "resolve fs False old = Inr po" "resolve fs False new = Inr pn"
      and nd: "\<not> is_dir fs pn"
      and eq: "snd (Rename old new fs) = stamp_dir (stamp_dir (move_tree fs po pn) (butlast po)) (butlast pn)"
      by (auto simp: Rename_def split: sum.splits if_splits option.splits)
    have "prefix b po" "prefix b pn" using s r inside_resolve [OF _ f] by (auto simp: op)
    note mv = move_tree_keeps [OF f this nd]
    show ?thesis
    proof (rule keepsI [OF f])
      show "wf_fs (snd (Rename old new fs))" by (rule Rename.wf [OF fencedD(1) [OF f]])
      show "same_outside b fs (snd (Rename old new fs))" using mv(1) by (simp add: eq same_outside_def)
      show "kind_at (snd (Rename old new fs)) p \<noteq> Some (KLink t)" for p t using mv(2) by (simp add: eq)
    qed
  qed
  then show "keeps_fence b fs (snd ((case op of (old, new) \<Rightarrow> Rename old new) fs))" by (simp add: op)
qed

section \<open>The operations of \<open>utils/fs.go\<close>\<close>

lemma keeps_and_then:
  assumes "keeps_fence b fs (snd (m fs))"
    and "\<And>x fs'. m fs = (Inr x, fs') \<Longrightarrow> fenced b fs' \<Longrightarrow> keeps_fence b fs' (snd (f x fs'))"
  shows "keeps_fence b fs (snd (and_then m f fs))"
proof (cases "m fs")
  case (Pair r fs')
  then show ?thesis
  proof (cases r)
    case (Inr x)
    with Pair assms(1) have "fenced b fs'" by (simp add: keeps_fence_def)
    with assms(2) [of x fs'] Pair Inr have "keeps_fence b fs' (snd (f x fs'))" by simp
    with assms(1) Pair Inr show ?thesis by (auto simp: and_then_def intro: keeps_trans)
  qed (use assms(1) in \<open>simp add: and_then_def\<close>)
qed

lemma snd_best_effort [simp]: "snd (best_effort ctx m fs) = snd (m fs)"
  by (auto simp: best_effort_def split: prod.split sum.split)

lemmas keeps_rules =
  MkdirAll.act_keeps [where op = "(path, perm)" for path perm, simplified]
  open_create.act_keeps [where op = "(path, trunc, perm)" for path trunc perm, simplified]
  WriteAt.act_keeps [where op = "(p, data, off)" for p data off, simplified]
  Chmod.act_keeps [where op = "(path, mode)" for path mode, simplified]
  Chtimes.act_keeps [where op = "(path, atime, mtime)" for path atime mtime, simplified]
  RemoveAll.act_keeps
  Rename.act_keeps [where op = "(old, new)" for old new, simplified]

lemma EnsureDir_keeps:
  assumes s: "inside b path" and f: "fenced b fs"
  shows "keeps_fence b fs (snd (EnsureDir path fs))"
proof -
  obtain p where p: "path = render True p" "prefix b p" "\<forall>w \<in> set p. name_ok w"
    using s by (auto simp: inside_def)
  have "b \<noteq> []" using f by (simp add: fenced_def placed_def)
  with p(2) obtain q w where q: "p = q @ [w]" by (cases p rule: rev_cases) auto
  then have "Dir path = render True q" using p by (simp add: Dir_render)
  moreover have "prefix b q \<or> prefix q b" using p(2) q by (auto simp: prefix_snoc)
  ultimately show ?thesis using p q f by (simp add: EnsureDir_def MkdirAll_keeps)
qed

interpretation EnsureDir: confined_ops b "inside b" EnsureDir
  by unfold_locales (rule EnsureDir_keeps)

interpretation DeleteEntry: confined_ops b "inside b" DeleteEntry
  by unfold_locales (simp add: DeleteEntry_def keeps_rules)

interpretation ApplyAttrs: confined_ops b "\<lambda>(path, entry). inside b path" "\<lambda>(path, entry). ApplyAttrs path entry"
  by unfold_locales (auto simp: ApplyAttrs_def keeps_rules intro!: keeps_and_then)

interpretation WriteChunkAt: confined_ops b "\<lambda>(path, data, off). inside b path"
    "\<lambda>(path, data, off). WriteChunkAt path data off"
  by unfold_locales
    (auto simp: WriteChunkAt_def keeps_rules intro!: keeps_and_then
      dest!: wrap_err_okD dest: open_create_handle)

lemmas keeps_utils =
  EnsureDir.act_keeps DeleteEntry.act_keeps
  ApplyAttrs.act_keeps [where op = "(path, entry)" for path entry, simplified]
  WriteChunkAt.act_keeps [where op = "(path, data, off)" for path data off, simplified]

section \<open>Where a peer's path leads\<close>

text \<open>A relative path that never steps above its start.\<close>

definition local_path :: "string \<Rightarrow> bool" where
  "local_path rel \<longleftrightarrow> ups (segs rel) = 0"

lemma Join_inside:
  assumes "\<forall>w \<in> set b. name_ok w" "local_path rel"
  shows "inside b (Join (render True b) rel)"
proof -
  have n: "\<forall>w \<in> set (downs (segs rel)). name_ok w"
    using clean_shape(1) [of "segs rel" "[]"] by (auto simp: segs_no_slash)
  have "Join (render True b) rel = render True (b @ downs (segs rel))"
    using assms by (simp add: Join_abs local_path_def)
  with assms(1) n show ?thesis by (auto simp: inside_def intro!: exI [of _ "b @ downs (segs rel)"])
qed

end
