(* ===== verification/Engine.thy ===== *)
theory Engine
  imports Diff Confine
begin

text \<open>
  \<open>sync/engine.go\<close>: the two file trees, the tombstones of deleted paths and the paths known so far,
  and the operations of a peer applied to the disk. The engine's locks make each method atomic. The
  tombstone file is modelled down to its text: what \<open>SaveTombstones\<close> prints is what
  \<open>loadTombstones\<close> scans.
\<close>

section \<open>State\<close>

definition TombstoneFile :: string where
  "TombstoneFile = ''.sync-tombstones''"

record Engine =
  e_baseDir :: string
  e_localTree :: FileTree
  e_remoteTree :: FileTree
  e_tombstones :: "(string, bool) gomap"
  e_previousPaths :: "(string, bool) gomap"

section \<open>The tombstone file\<close>

text \<open>\<open>strings.TrimSpace\<close> removes every Unicode space at either end, in its UTF-8 spelling.\<close>

definition space_seqs :: "string list" where
  "space_seqs = [
    [CHR 0x09], [CHR 0x0A], [CHR 0x0B], [CHR 0x0C], [CHR 0x0D], [CHR 0x20], [CHR 0xC2, CHR 0x85],
    [CHR 0xC2, CHR 0xA0], [CHR 0xE1, CHR 0x9A, CHR 0x80], [CHR 0xE2, CHR 0x80, CHR 0x80],
    [CHR 0xE2, CHR 0x80, CHR 0x81], [CHR 0xE2, CHR 0x80, CHR 0x82],
    [CHR 0xE2, CHR 0x80, CHR 0x83], [CHR 0xE2, CHR 0x80, CHR 0x84],
    [CHR 0xE2, CHR 0x80, CHR 0x85], [CHR 0xE2, CHR 0x80, CHR 0x86],
    [CHR 0xE2, CHR 0x80, CHR 0x87], [CHR 0xE2, CHR 0x80, CHR 0x88],
    [CHR 0xE2, CHR 0x80, CHR 0x89], [CHR 0xE2, CHR 0x80, CHR 0x8A],
    [CHR 0xE2, CHR 0x80, CHR 0xA8], [CHR 0xE2, CHR 0x80, CHR 0xA9],
    [CHR 0xE2, CHR 0x80, CHR 0xAF], [CHR 0xE2, CHR 0x81, CHR 0x9F],
    [CHR 0xE3, CHR 0x80, CHR 0x80]]"

definition lead_space :: "string \<Rightarrow> nat option" where
  "lead_space s = map_option length (find (\<lambda>w. prefix w s) space_seqs)"

definition trail_space :: "string \<Rightarrow> nat option" where
  "trail_space s = map_option length (find (\<lambda>w. suffix w s) space_seqs)"

lemma space_seqs_pos: "w \<in> set space_seqs \<Longrightarrow> w \<noteq> []"
  by (auto simp: space_seqs_def)

lemma lead_space_pos: "lead_space s = Some n \<Longrightarrow> 0 < n \<and> n \<le> length s"
  using space_seqs_pos by (force simp: lead_space_def find_Some_iff dest: prefix_length_le)

lemma trail_space_pos: "trail_space s = Some n \<Longrightarrow> 0 < n \<and> n \<le> length s"
  using space_seqs_pos by (force simp: trail_space_def find_Some_iff dest: suffix_length_le)

function trim_left :: "string \<Rightarrow> string" where
  "trim_left s = (case lead_space s of None \<Rightarrow> s | Some n \<Rightarrow> trim_left (drop n s))"
  by pat_completeness auto
termination
  by (relation "measure length") (use lead_space_pos in fastforce)+

function trim_right :: "string \<Rightarrow> string" where
  "trim_right s = (case trail_space s of None \<Rightarrow> s | Some n \<Rightarrow> trim_right (take (length s - n) s))"
  by pat_completeness auto
termination
  by (relation "measure length") (use trail_space_pos in fastforce)+

declare trim_left.simps [simp del] trim_right.simps [simp del]

definition TrimSpace :: "string \<Rightarrow> string" where
  "TrimSpace s = trim_right (trim_left s)"

abbreviation newline :: char where
  "newline \<equiv> CHR 0x0A"

text \<open>\<open>bufio.Scanner\<close> with the default split function: lines without their newline and without a
  carriage return before it; a line that does not fit the 64 KB buffer ends the scan. A last line
  without a newline counts when it is not empty.\<close>

fun split_lines :: "string \<Rightarrow> string list" where
  "split_lines [] = []"
| "split_lines (c # cs) =
     (if c = newline then [] # split_lines cs
      else (case split_lines cs of
              [] \<Rightarrow> [[c]]
            | w # ws \<Rightarrow> (c # w) # ws))"

definition drop_cr :: "string \<Rightarrow> string" where
  "drop_cr w = (if w \<noteq> [] \<and> last w = CHR 0x0D then butlast w else w)"

definition scan_lines :: "string \<Rightarrow> string list" where
  "scan_lines s = map drop_cr (takeWhile (\<lambda>w. length w < 64 * 1024) (split_lines s))"

text \<open>The body of the scan loop.\<close>

definition load_line :: "string \<Rightarrow> Engine \<Rightarrow> Engine" where
  "load_line raw e =
     (let line = TrimSpace raw
      in if line = [] then e
         else if prefix ''D:'' line then
           (let p = drop 2 line
            in e\<lparr>e_tombstones := gm_set (e_tombstones e) p True,
                 e_previousPaths := gm_set (e_previousPaths e) p True\<rparr>)
         else if prefix ''K:'' line then
           (let p = drop 2 line
            in e\<lparr>e_previousPaths := gm_set (e_previousPaths e) p True\<rparr>)
         else
           e\<lparr>e_tombstones := gm_set (e_tombstones e) line True,
             e_previousPaths := gm_set (e_previousPaths e) line True\<rparr>)"

definition loadTombstones :: "Engine \<Rightarrow> fs \<Rightarrow> Engine" where
  "loadTombstones e fs =
     (let path = Join (e_baseDir e) TombstoneFile
      in case OpenRead path fs of
           Inl _ \<Rightarrow> e
         | Inr f \<Rightarrow>
             (case ReadFrom f fs of
                Inl _ \<Rightarrow> e
              | Inr data \<Rightarrow> fold load_line (scan_lines (bytes_str data)) e))"

definition NewEngine :: "string \<Rightarrow> fs \<Rightarrow> Engine" where
  "NewEngine baseDir fs =
     (let cleanDir = Clean baseDir
      in loadTombstones
           \<lparr>e_baseDir = cleanDir, e_localTree = NewFileTree cleanDir,
            e_remoteTree = NewFileTree cleanDir, e_tombstones = gm_make,
            e_previousPaths = gm_make\<rparr> fs)"

text \<open>The lines of the file, and the sequence of \<open>Fprintf\<close> calls, whose errors are ignored.\<close>

definition tombstone_lines :: "Engine \<Rightarrow> string list" where
  "tombstone_lines e =
     map (\<lambda>p. ''D:'' @ p @ [newline]) (gm_keys (e_tombstones e)) @
     map (\<lambda>p. ''K:'' @ p @ [newline]) (gm_keys (e_previousPaths e))"

fun print_lines :: "fpath \<Rightarrow> string list \<Rightarrow> nat \<Rightarrow> fs \<Rightarrow> fs" where
  "print_lines f [] off fs = fs"
| "print_lines f (l # ls) off fs =
     (case WriteAt f (str_bytes l) (int off) fs of
        (Inl _, fs') \<Rightarrow> print_lines f ls off fs'
      | (Inr _, fs') \<Rightarrow> print_lines f ls (off + length l) fs')"

definition SaveTombstones :: "Engine \<Rightarrow> fs \<Rightarrow> unit res \<times> fs" where
  "SaveTombstones e fs =
     (let path = Join (e_baseDir e) TombstoneFile
      in if e_tombstones e = gm_make \<and> e_previousPaths e = gm_make
         then (Inr (), snd (Remove_path path fs))
         else
           (case Create path fs of
              (Inl err, fs1) \<Rightarrow> (Inl (add_ctx ''create tombstone file'' err), fs1)
            | (Inr f, fs1) \<Rightarrow> (Inr (), print_lines f (tombstone_lines e) 0 fs1)))"

section \<open>Scanning and the remote tree\<close>

definition scan_entry :: "FileEntry \<Rightarrow> FileTree \<times> (string, bool) gomap \<Rightarrow> FileTree \<times> (string, bool) gomap" where
  "scan_entry entry = (\<lambda>(newTree, currentPaths).
     if fe_Path entry = TombstoneFile then (newTree, currentPaths)
     else (Set_tree newTree entry, gm_set currentPaths (fe_Path entry) True))"

definition ScanLocal :: "Engine \<Rightarrow> fs \<Rightarrow> unit res \<times> Engine" where
  "ScanLocal e fs =
     (case WalkDirectory (e_baseDir e) fs of
        Inl err \<Rightarrow> (Inl (add_ctx ''walk directory'' err), e)
      | Inr entries \<Rightarrow>
          (let (newTree, currentPaths) =
                 fold scan_entry entries (NewFileTree (e_baseDir e), gm_make);
               tombs = fold (\<lambda>path t. if gm_flag currentPaths path then t else gm_set t path True)
                         (gm_keys (e_previousPaths e)) (e_tombstones e)
           in (Inr (), e\<lparr>e_tombstones := tombs, e_previousPaths := currentPaths,
                         e_localTree := newTree\<rparr>)))"

fun set_entries :: "FileTree \<Rightarrow> FileEntry option list \<Rightarrow> FileTree res" where
  "set_entries t [] = Inr t"
| "set_entries t (None # es) = Inl GoPanic"
| "set_entries t (Some e # es) = set_entries (Set_tree t e) es"

definition SetRemoteTree :: "Engine \<Rightarrow> SyncTree \<Rightarrow> Engine res" where
  "SetRemoteTree e tree =
     (case set_entries (NewFileTree (e_baseDir e)) (st_Entries tree) of
        Inl err \<Rightarrow> Inl err
      | Inr t \<Rightarrow> Inr (e\<lparr>e_remoteTree := t\<rparr>))"

definition ComputeDiff :: "Engine \<Rightarrow> ChangeEvent list" where
  "ComputeDiff e = Diff (e_localTree e) (e_remoteTree e)"

definition BuildSyncTree :: "Engine \<Rightarrow> SyncTree" where
  "BuildSyncTree e = \<lparr>st_Entries = map Some (Entries (e_localTree e))\<rparr>"

section \<open>Applying operations\<close>

definition applyOp :: "string \<Rightarrow> SyncOp \<Rightarrow> fs \<Rightarrow> unit res \<times> fs" where
  "applyOp baseDir op =
     (if op_Type op = ''createDir'' then
        (case op_Entry op of
           None \<Rightarrow> (\<lambda>fs. (Inl GoPanic, fs))
         | Some entry \<Rightarrow> MkdirAll (Join baseDir (fe_Path entry)) (fe_Mode entry))
      else if op_Type op = ''createFile'' then
        (case op_Entry op of
           None \<Rightarrow> (\<lambda>fs. (Inl GoPanic, fs))
         | Some entry \<Rightarrow>
             (let path = Join baseDir (fe_Path entry)
              in and_then (EnsureDir path)
                   (\<lambda>_. and_then (Create path) (\<lambda>_. ApplyAttrs path entry))))
      else if op_Type op = ''writeFile'' then
        (let path = Join baseDir (op_Path op)
         in and_then (EnsureDir path)
              (\<lambda>_. and_then (open_create path False 420)
                (\<lambda>f. WriteAt f (op_Chunk op) (sint (op_ChunkOff op)))))
      else if op_Type op = ''setAttrs'' then
        (case op_Entry op of
           None \<Rightarrow> (\<lambda>fs. (Inl GoPanic, fs))
         | Some entry \<Rightarrow> ApplyAttrs (Join baseDir (op_Path op)) entry)
      else if op_Type op = ''delete'' then DeleteEntry (Join baseDir (op_Path op))
      else if op_Type op = ''move'' then
        (let oldPath = Join baseDir (op_OldPath op); newPath = Join baseDir (op_NewPath op)
         in and_then (EnsureDir newPath) (\<lambda>_. Rename oldPath newPath))
      else (\<lambda>fs. (Inl (ErrMsg (''unknown op type: '' @ op_Type op)), fs)))"

fun apply_ops :: "string \<Rightarrow> SyncOp option list \<Rightarrow> fs \<Rightarrow> unit res \<times> fs" where
  "apply_ops baseDir [] fs = (Inr (), fs)"
| "apply_ops baseDir (None # ops) fs = (Inl GoPanic, fs)"
| "apply_ops baseDir (Some op # ops) fs =
     (case applyOp baseDir op fs of
        (Inl err, fs1) \<Rightarrow> (Inl (add_ctx (''apply op '' @ op_Type op) err), fs1)
      | (Inr _, fs1) \<Rightarrow> apply_ops baseDir ops fs1)"

definition ApplyChanges :: "Engine \<Rightarrow> SyncOp option list \<Rightarrow> fs \<Rightarrow> unit res \<times> Engine \<times> fs" where
  "ApplyChanges e ops fs =
     (case apply_ops (e_baseDir e) ops fs of
        (Inl err, fs1) \<Rightarrow> (Inl err, e, fs1)
      | (Inr _, fs1) \<Rightarrow> (case ScanLocal e fs1 of (r, e1) \<Rightarrow> (r, e1, fs1)))"

section \<open>Tombstones\<close>

definition IsTombstoned :: "Engine \<Rightarrow> string \<Rightarrow> bool" where
  "IsTombstoned e path = gm_flag (e_tombstones e) path"

text \<open>\<open>Tombstones\<close> returns a copy; the model's maps are values.\<close>

definition Tombstones :: "Engine \<Rightarrow> (string, bool) gomap" where
  "Tombstones e = fold (\<lambda>(k, v) m. gm_set m k v) (e_tombstones e) gm_make"

definition ClearTombstones :: "Engine \<Rightarrow> fs \<Rightarrow> Engine \<times> fs" where
  "ClearTombstones e fs =
     (e\<lparr>e_tombstones := gm_make\<rparr>, snd (Remove_path (Join (e_baseDir e) TombstoneFile) fs))"

definition ClearTombstone :: "Engine \<Rightarrow> string \<Rightarrow> Engine" where
  "ClearTombstone e path = e\<lparr>e_tombstones := gm_delete (e_tombstones e) path\<rparr>"

definition AddTombstone :: "Engine \<Rightarrow> string \<Rightarrow> Engine" where
  "AddTombstone e path = e\<lparr>e_tombstones := gm_set (e_tombstones e) path True\<rparr>"

definition AddToPreviousPaths :: "Engine \<Rightarrow> string list \<Rightarrow> Engine" where
  "AddToPreviousPaths e paths =
     e\<lparr>e_previousPaths := fold (\<lambda>p m. gm_set m p True) paths (e_previousPaths e)\<rparr>"

definition HasTombstones :: "Engine \<Rightarrow> bool" where
  "HasTombstones e = (length (e_tombstones e) > 0)"

section \<open>Flag maps\<close>

text \<open>The \<open>map[string]bool\<close>s of the engine only ever hold \<open>true\<close>: they are sets of paths.\<close>

definition flags_ok :: "(string, bool) gomap \<Rightarrow> bool" where
  "flags_ok m \<longleftrightarrow> gm_ok m \<and> (\<forall>(k, v) \<in> set m. v)"

lemma flags_okI: "gm_ok m \<Longrightarrow> (\<And>k v. gm_get m k = Some v \<Longrightarrow> v) \<Longrightarrow> flags_ok m"
  by (auto simp: flags_ok_def gm_get_Some_iff)

lemma flags_okD:
  assumes "flags_ok m"
  shows "gm_ok m" "gm_get m k = Some v \<Longrightarrow> v"
  using assms by (auto simp: flags_ok_def gm_get_Some_iff)

lemma flags_ok_make [simp]: "flags_ok gm_make"
  by (simp add: flags_ok_def gm_ok_def)

lemma flags_ok_set: "flags_ok m \<Longrightarrow> flags_ok (gm_set m k True)"
  by (rule flags_okI) (auto simp: gm_ok_set dest: flags_okD split: if_splits)

lemma flags_ok_delete: "flags_ok m \<Longrightarrow> flags_ok (gm_delete m k)"
  by (rule flags_okI) (auto simp: gm_ok_delete dest: flags_okD split: if_splits)

lemma flag_in_keys: "flags_ok m \<Longrightarrow> gm_flag m k \<longleftrightarrow> k \<in> set (gm_keys m)"
  using flags_okD(2) [of m k] by (auto simp: gm_flag_def gm_keys_get split: option.split)

lemma flags_ok_fold_set: "flags_ok m \<Longrightarrow> flags_ok (fold (\<lambda>x m. gm_set m (f x) True) xs m)"
  by (induction xs arbitrary: m) (auto simp: flags_ok_set)

lemma flag_fold_set:
  "gm_flag (fold (\<lambda>x m. gm_set m (f x) True) xs m) k \<longleftrightarrow> k \<in> f ` set xs \<or> gm_flag m k"
  by (induction xs arbitrary: m) auto

lemma flags_ok_fold_new:
  "flags_ok t \<Longrightarrow> flags_ok (fold (\<lambda>x t. if P x then t else gm_set t x True) xs t)"
  by (induction xs arbitrary: t) (auto simp: flags_ok_set)

lemma flag_fold_new:
  "gm_flag (fold (\<lambda>x t. if P x then t else gm_set t x True) xs t) k \<longleftrightarrow>
     gm_flag t k \<or> (k \<in> set xs \<and> \<not> P k)"
  by (induction xs arbitrary: t) auto

section \<open>Well-formed engines\<close>

definition engine_ok :: "Engine \<Rightarrow> bool" where
  "engine_ok e \<longleftrightarrow> tree_ok (e_localTree e) \<and> tree_ok (e_remoteTree e) \<and>
     flags_ok (e_tombstones e) \<and> flags_ok (e_previousPaths e)"

lemma engine_okD:
  assumes "engine_ok e"
  shows "tree_ok (e_localTree e)" "tree_ok (e_remoteTree e)"
    "flags_ok (e_tombstones e)" "flags_ok (e_previousPaths e)"
  using assms by (auto simp: engine_ok_def)

lemma fold_scan_entry:
  "fold scan_entry es (t, c) =
     (let es' = filter (\<lambda>x. fe_Path x \<noteq> TombstoneFile) es
      in (foldl Set_tree t es', fold (\<lambda>x m. gm_set m (fe_Path x) True) es' c))"
  by (induction es arbitrary: t c) (auto simp: scan_entry_def Let_def)

lemma engine_ok_ScanLocal: "engine_ok e \<Longrightarrow> engine_ok (snd (ScanLocal e fs))"
  by (auto simp: ScanLocal_def engine_ok_def fold_scan_entry Let_def
      intro!: ft.ok_batch flags_ok_fold_set flags_ok_fold_new split: sum.split)

lemma ScanLocal_baseDir [simp]: "e_baseDir (snd (ScanLocal e fs)) = e_baseDir e"
  by (auto simp: ScanLocal_def Let_def split: sum.split prod.split)

lemma ScanLocal_remote [simp]: "e_remoteTree (snd (ScanLocal e fs)) = e_remoteTree e"
  by (auto simp: ScanLocal_def Let_def split: sum.split prod.split)

lemma set_entries_ok: "tree_ok t \<Longrightarrow> set_entries t es = Inr t' \<Longrightarrow> tree_ok t'"
  by (induction t es rule: set_entries.induct) (auto simp: tree_ok_Set)

lemma set_entries_Some: "set_entries t (map Some es) = Inr (foldl Set_tree t es)"
  by (induction es arbitrary: t) auto

lemma set_entries_nil: "None \<in> set es \<Longrightarrow> set_entries t es = Inl GoPanic"
  by (induction t es rule: set_entries.induct) auto

lemma engine_ok_SetRemoteTree: "engine_ok e \<Longrightarrow> SetRemoteTree e t = Inr e' \<Longrightarrow> engine_ok e'"
  by (auto simp: SetRemoteTree_def engine_ok_def intro: set_entries_ok [OF tree_ok_New] split: sum.splits)

lemma engine_ok_load_line: "engine_ok e \<Longrightarrow> engine_ok (load_line l e)"
  by (simp add: load_line_def engine_ok_def Let_def flags_ok_set)

lemma engine_ok_NewEngine: "engine_ok (NewEngine dir fs)"
proof -
  have "engine_ok (fold load_line ls e)" if "engine_ok e" for ls e
    using that by (induction ls arbitrary: e) (auto simp: engine_ok_load_line)
  then show ?thesis
    by (auto simp: NewEngine_def loadTombstones_def Let_def engine_ok_def split: sum.split)
qed

lemma fs_action_applyOp: "fs_action (applyOp baseDir op)"
  unfolding applyOp_def Let_def
  by (auto intro!: fs_action_if fs_action_pure fs_action_and_then MkdirAll.fs_action_axioms
      EnsureDir.fs_action_axioms Create.fs_action_axioms ApplyAttrs.fs_action_axioms
      open_create.fs_action_axioms WriteAt.fs_action_axioms DeleteEntry.fs_action_axioms
      Rename.fs_action_axioms split: option.split)

interpretation applyOp: fs_action "applyOp baseDir op"
  by (rule fs_action_applyOp)

interpretation apply_ops: fs_action "apply_ops baseDir ops"
proof (induction ops)
  case Nil
  show ?case by unfold_locales simp_all
next
  case (Cons op ops)
  show ?case
  proof (cases op)
    case None
    then show ?thesis by unfold_locales simp_all
  next
    case (Some o')
    have "snd (apply_ops baseDir (op # ops) fs) =
        snd (and_then (applyOp baseDir o') (\<lambda>_. apply_ops baseDir ops) fs)" for fs
      by (auto simp: Some and_then_def split: prod.split sum.split)
    moreover have "fs_action (and_then (applyOp baseDir o') (\<lambda>_. apply_ops baseDir ops))"
      by (intro fs_action_and_then fs_action_applyOp Cons)
    ultimately show ?thesis unfolding fs_action_def by simp
  qed
qed

lemma engine_ok_ApplyChanges:
  "engine_ok e \<Longrightarrow> engine_ok (fst (snd (ApplyChanges e ops fs)))"
  using engine_ok_ScanLocal by (auto simp: ApplyChanges_def split: prod.split sum.split) (metis snd_conv)

lemma wf_ApplyChanges: "wf_fs fs \<Longrightarrow> wf_fs (snd (snd (ApplyChanges e ops fs)))"
  using apply_ops.wf [of fs "e_baseDir e" ops]
  by (auto simp: ApplyChanges_def split: prod.split sum.split)

text \<open>The calls the two programs make on an engine, as one step function.\<close>

datatype engine_call =
    CScan | CSetRemote SyncTree | CApply "SyncOp option list" | CClearAll | CClear string
  | CAdd string | CKnown "string list" | CSave | CRemoteSet FileEntry | CRemoteRemove string
  | CLocalRemove string

fun engine_step :: "engine_call \<Rightarrow> Engine \<times> fs \<Rightarrow> Engine \<times> fs" where
  "engine_step CScan (e, fs) = (snd (ScanLocal e fs), fs)"
| "engine_step (CSetRemote t) (e, fs) =
     (case SetRemoteTree e t of Inl _ \<Rightarrow> (e, fs) | Inr e' \<Rightarrow> (e', fs))"
| "engine_step (CApply ops) (e, fs) = snd (ApplyChanges e ops fs)"
| "engine_step CClearAll (e, fs) = ClearTombstones e fs"
| "engine_step (CClear p) (e, fs) = (ClearTombstone e p, fs)"
| "engine_step (CAdd p) (e, fs) = (AddTombstone e p, fs)"
| "engine_step (CKnown ps) (e, fs) = (AddToPreviousPaths e ps, fs)"
| "engine_step CSave (e, fs) = (e, snd (SaveTombstones e fs))"
| "engine_step (CRemoteSet x) (e, fs) = (e\<lparr>e_remoteTree := Set_tree (e_remoteTree e) x\<rparr>, fs)"
| "engine_step (CRemoteRemove p) (e, fs) = (e\<lparr>e_remoteTree := Remove (e_remoteTree e) p\<rparr>, fs)"
| "engine_step (CLocalRemove p) (e, fs) = (e\<lparr>e_localTree := Remove (e_localTree e) p\<rparr>, fs)"

lemma wf_print_lines: "wf_fs fs \<Longrightarrow> wf_fs (print_lines f ls off fs)"
proof (induction f ls off fs rule: print_lines.induct)
  case (1 f off fs)
  then show ?case by simp
next
  case (2 f l ls off fs)
  have "wf_fs (snd (WriteAt f (str_bytes l) (int off) fs))" using "2.prems" by (rule WriteAt.wf)
  then show ?case using "2.IH" by (auto split: prod.split sum.split)
qed

lemma wf_SaveTombstones: "wf_fs fs \<Longrightarrow> wf_fs (snd (SaveTombstones e fs))"
proof -
  assume wf: "wf_fs fs"
  let ?p = "Join (e_baseDir e) TombstoneFile"
  have "wf_fs (snd (Remove_path ?p fs))" "wf_fs (snd (Create ?p fs))"
    using wf by (simp_all add: Remove_path.wf Create.wf)
  then show ?thesis
    by (auto simp: SaveTombstones_def Let_def wf_print_lines split: prod.split sum.split)
qed

lemma env_print_lines:
  "fs_cwd (print_lines f ls off fs) = fs_cwd fs \<and> fs_umask (print_lines f ls off fs) = fs_umask fs \<and>
   fs_clock (print_lines f ls off fs) = fs_clock fs \<and> fs_fault (print_lines f ls off fs) = fs_fault fs"
proof (induction f ls off fs rule: print_lines.induct)
  case (2 f l ls off fs)
  then show ?case
    using WriteAt.env [of f "str_bytes l" "int off" fs] by (auto split: prod.split sum.split)
qed simp

lemma snd_SaveTombstones:
  "snd (SaveTombstones e fs) =
     (let path = Join (e_baseDir e) TombstoneFile
      in if e_tombstones e = gm_make \<and> e_previousPaths e = gm_make then snd (Remove_path path fs)
         else (case fst (Create path fs) of
                 Inl _ \<Rightarrow> snd (Create path fs)
               | Inr f \<Rightarrow> print_lines f (tombstone_lines e) 0 (snd (Create path fs))))"
  by (auto simp: SaveTombstones_def Let_def split: prod.split sum.split)

interpretation SaveTombstones: fs_action "SaveTombstones e"
  by unfold_locales
    (simp_all add: wf_SaveTombstones wf_print_lines Create.wf Remove_path.wf snd_SaveTombstones Let_def
      env_print_lines Create.env Remove_path.env split: sum.split)

definition state_ok :: "Engine \<times> fs \<Rightarrow> bool" where
  "state_ok s \<longleftrightarrow> engine_ok (fst s) \<and> wf_fs (snd s)"

interpretation engine_runs: inv_machine engine_step state_ok
proof unfold_locales
  fix s :: "Engine \<times> fs" and c assume "state_ok s"
  then obtain e fs where s: "s = (e, fs)" and e: "engine_ok e" and wf: "wf_fs fs"
    by (cases s) (auto simp: state_ok_def)
  note d = engine_okD [OF e]
  show "state_ok (engine_step c s)"
  proof (cases c)
    case (CSetRemote t)
    then show ?thesis
      using e wf by (auto simp: s state_ok_def engine_ok_SetRemoteTree split: sum.split)
  next
    case (CApply ops)
    then show ?thesis
      using e wf by (simp add: s state_ok_def engine_ok_ApplyChanges wf_ApplyChanges)
  next
    case CClearAll
    then show ?thesis
      using d wf by (simp add: s state_ok_def ClearTombstones_def engine_ok_def Remove_path.wf)
  next
    case CSave
    then show ?thesis using e wf by (simp add: s state_ok_def wf_SaveTombstones)
  next
    case CScan
    then show ?thesis using e wf by (simp add: s state_ok_def engine_ok_ScanLocal)
  qed (use d wf in \<open>auto simp: s state_ok_def engine_ok_def ClearTombstone_def
        AddTombstone_def AddToPreviousPaths_def flags_ok_set flags_ok_delete tree_ok_Set
        tree_ok_Remove intro!: flags_ok_fold_set [where f = "\<lambda>x. x", simplified]\<close>)
qed

section \<open>What a scan finds\<close>

definition disk_paths :: "fs \<Rightarrow> fpath \<Rightarrow> string set" where
  "disk_paths fs b =
     {join_slash r | r. r \<noteq> [] \<and> look fs (b @ r) \<noteq> None \<and> last r \<noteq> SyncTombstoneFile}"

lemma disk_paths_listed: "disk_paths fs b = join_slash ` set (listed fs b)"
  by (auto simp: disk_paths_def listed_def set_walk_list)

lemma listed_names: "wf_fs fs \<Longrightarrow> r \<in> set (listed fs b) \<Longrightarrow> \<forall>w \<in> set r. name_ok w"
  using wf_names [of fs "b @ r"] by (auto simp: listed_def set_walk_list kind_at_def)

lemma distinct_listed_paths:
  assumes "wf_fs fs" shows "distinct (map join_slash (listed fs b))"
proof -
  have "inj_on join_slash (set (listed fs b))"
    using listed_names [OF assms] join_slash_inject by (meson inj_onI)
  moreover have "distinct (listed fs b)"
    using assms by (simp add: listed_def distinct_walk_list wf_fsD)
  ultimately show ?thesis by (simp add: distinct_map)
qed

lemma listed_not_tombstone:
  assumes "wf_fs fs" "r \<in> set (listed fs b)" shows "join_slash r \<noteq> TombstoneFile"
proof
  assume "join_slash r = TombstoneFile"
  then have "join_slash r = join_slash [SyncTombstoneFile]"
    by (simp add: TombstoneFile_def SyncTombstoneFile_def)
  moreover have "name_ok SyncTombstoneFile"
    by (simp add: name_ok_def SyncTombstoneFile_def)
  ultimately have "r = [SyncTombstoneFile]"
    using join_slash_inject [of r "[SyncTombstoneFile]"] listed_names [OF assms] by simp
  with assms(2) show False by (simp add: listed_def)
qed

lemma ScanLocal_plain:
  assumes wf: "wf_fs fs" and "calm fs" "is_dir fs b" "e_baseDir e = render True b"
  obtains e' where "ScanLocal e fs = (Inr (), e')"
    "e_localTree e' = foldl Set_tree (NewFileTree (e_baseDir e)) (number_entries fs b 0 (listed fs b))"
    "\<And>p. gm_flag (e_previousPaths e') p \<longleftrightarrow> p \<in> disk_paths fs b"
    "\<And>p. gm_flag (e_tombstones e') p \<longleftrightarrow>
       gm_flag (e_tombstones e) p \<or> (p \<in> set (gm_keys (e_previousPaths e)) \<and> p \<notin> disk_paths fs b)"
proof -
  let ?es = "number_entries fs b 0 (listed fs b)"
  have paths: "map fe_Path ?es = map join_slash (listed fs b)" by (rule map_Path_number)
  then have ps: "fe_Path ` set ?es = disk_paths fs b"
    by (metis disk_paths_listed image_set)
  have "fe_Path x \<noteq> TombstoneFile" if "x \<in> set ?es" for x
    using that ps listed_not_tombstone [OF wf] by (force simp: disk_paths_listed)
  then have keep: "filter (\<lambda>x. fe_Path x \<noteq> TombstoneFile) ?es = ?es" by simp
  let ?cur = "fold (\<lambda>x m. gm_set m (fe_Path x) True) ?es gm_make"
  have cur: "gm_flag ?cur p \<longleftrightarrow> p \<in> disk_paths fs b" for p
    by (simp add: flag_fold_set ps)
  show ?thesis
  proof (rule that)
    show "ScanLocal e fs = (Inr (), e\<lparr>e_tombstones :=
        fold (\<lambda>path t. if gm_flag ?cur path then t else gm_set t path True)
          (gm_keys (e_previousPaths e)) (e_tombstones e),
        e_previousPaths := ?cur, e_localTree := foldl Set_tree (NewFileTree (e_baseDir e)) ?es\<rparr>)"
      using WalkDirectory_plain [OF wf assms(2,3)] assms(4)
      by (simp add: ScanLocal_def fold_scan_entry keep Let_def)
  qed (simp_all add: cur flag_fold_new)
qed

text \<open>The tree a scan builds holds the metadata of every node below the base directory, up to the
  sequence numbers.\<close>

lemma scanned_tree:
  assumes "wf_fs fs" "r \<in> set (listed fs b)"
  obtains n where "Get (foldl Set_tree (NewFileTree d) (number_entries fs b 0 (listed fs b))) (join_slash r) =
    Some (entry_of fs r (the (look fs (b @ r))) n)"
proof -
  let ?es = "number_entries fs b 0 (listed fs b)"
  obtain i where i: "i < length (listed fs b)" "r = listed fs b ! i"
    using assms(2) by (auto simp: in_set_conv_nth)
  let ?x = "entry_of fs r (the (look fs (b @ r))) (of_nat i)"
  have "?x \<in> set ?es" using i by (auto simp: set_number_entries)
  moreover have "distinct (map fe_Path ?es)"
    by (simp add: map_Path_number distinct_listed_paths assms(1))
  ultimately obtain n where "Get (foldl Set_tree (NewFileTree d) ?es) (fe_Path ?x) = Some (?x\<lparr>fe_Seq := n\<rparr>)"
    using ft.get_batch by blast
  then show ?thesis using that [of n] by (simp add: entry_of_def)
qed

lemma scanned_tree_None:
  assumes "p \<notin> disk_paths fs b"
  shows "Get (foldl Set_tree (NewFileTree d) (number_entries fs b 0 (listed fs b))) p = None"
proof -
  have "fe_Path ` set (number_entries fs b 0 (listed fs b)) = disk_paths fs b"
    by (metis disk_paths_listed image_set map_Path_number)
  then show ?thesis using assms by (simp add: ft.get_batch_other)
qed

section \<open>The tombstone file round trip\<close>

text \<open>A path the tombstone file can hold: one line, and no space at its end for \<open>TrimSpace\<close> to eat.\<close>

definition storable :: "string \<Rightarrow> bool" where
  "storable p \<longleftrightarrow> newline \<notin> set p \<and> trail_space p = None \<and> length p < 64 * 1024 - 2"

lemma space_seqs_chars:
  "w \<in> set space_seqs \<Longrightarrow> CHR '':'' \<notin> set w \<and> CHR ''D'' \<notin> set w \<and> CHR ''K'' \<notin> set w"
  by (auto simp: space_seqs_def)

lemma TrimSpace_tagged:
  assumes "trail_space p = None" "t = CHR ''D'' \<or> t = CHR ''K''"
  shows "TrimSpace (t # CHR '':'' # p) = t # CHR '':'' # p"
proof -
  let ?s = "t # CHR '':'' # p"
  have "\<not> prefix w ?s" if "w \<in> set space_seqs" for w
    using space_seqs_chars [OF that] space_seqs_pos [OF that] assms(2)
    by (cases w) auto
  then have "lead_space ?s = None" by (auto simp: lead_space_def find_None_iff)
  moreover have "\<not> suffix w ?s" if w: "w \<in> set space_seqs" for w
  proof
    assume "suffix w ?s"
    then have "suffix w p \<or> CHR '':'' \<in> set w" by (auto simp: suffix_Cons)
    moreover have "\<not> suffix w p" using assms(1) w by (auto simp: trail_space_def find_None_iff)
    ultimately show False using space_seqs_chars [OF w] by simp
  qed
  then have "trail_space ?s = None" by (auto simp: trail_space_def find_None_iff)
  ultimately show ?thesis
    by (simp add: TrimSpace_def trim_left.simps [of ?s] trim_right.simps [of ?s])
qed

lemma split_lines_cons: "newline \<notin> set l \<Longrightarrow> split_lines (l @ newline # s) = l # split_lines s"
  by (induction l) auto

lemma split_lines_concat:
  "\<forall>l \<in> set ls. newline \<notin> set l \<Longrightarrow> split_lines (concat (map (\<lambda>l. l @ [newline]) ls)) = ls"
  by (induction ls) (auto simp: split_lines_cons)

lemma storable_no_cr: "storable p \<Longrightarrow> drop_cr (a # b # p) = a # b # p \<or> p = []"
proof -
  assume st: "storable p"
  have cr: "[CHR 0x0D] \<in> set space_seqs" by (simp add: space_seqs_def)
  have "\<not> suffix [CHR 0x0D] p"
    using st cr by (auto simp: storable_def trail_space_def find_None_iff)
  then show ?thesis by (cases p rule: rev_cases) (auto simp: drop_cr_def)
qed

lemma scan_tagged_lines:
  assumes "\<forall>(t, p) \<in> set tps. storable p \<and> (t = CHR ''D'' \<or> t = CHR ''K'')"
  shows "scan_lines (concat (map (\<lambda>(t, p). t # CHR '':'' # p @ [newline]) tps)) =
    map (\<lambda>(t, p). t # CHR '':'' # p) tps"
proof -
  let ?ls = "map (\<lambda>(t, p). t # CHR '':'' # p) tps"
  have "concat (map (\<lambda>(t, p). t # CHR '':'' # p @ [newline]) tps) = concat (map (\<lambda>l. l @ [newline]) ?ls)"
    by (induction tps) auto
  moreover have "\<forall>l \<in> set ?ls. newline \<notin> set l" using assms by (auto simp: storable_def)
  ultimately have "split_lines (concat (map (\<lambda>(t, p). t # CHR '':'' # p @ [newline]) tps)) = ?ls"
    using split_lines_concat [of ?ls] by (simp only:)
  moreover have "\<forall>l \<in> set ?ls. length l < 64 * 1024" using assms by (auto simp: storable_def)
  then have "takeWhile (\<lambda>w. length w < 64 * 1024) ?ls = ?ls" by simp
  moreover have "map drop_cr ?ls = ?ls"
  proof (rule map_idI)
    fix l assume "l \<in> set ?ls"
    then obtain t p where l: "l = t # CHR '':'' # p" "storable p" using assms by fastforce
    then show "drop_cr l = l" using storable_no_cr [of p t "CHR '':''"] by (auto simp: drop_cr_def)
  qed
  ultimately show ?thesis by (simp only: scan_lines_def)
qed

lemma load_tagged:
  assumes "storable p"
  shows "load_line (CHR ''D'' # CHR '':'' # p) e =
      e\<lparr>e_tombstones := gm_set (e_tombstones e) p True,
        e_previousPaths := gm_set (e_previousPaths e) p True\<rparr>"
    and "load_line (CHR ''K'' # CHR '':'' # p) e =
      e\<lparr>e_previousPaths := gm_set (e_previousPaths e) p True\<rparr>"
  using assms by (simp_all add: load_line_def TrimSpace_tagged storable_def)

lemma load_D_lines:
  assumes "\<forall>p \<in> set ps. storable p"
  shows "fold load_line (map (\<lambda>p. CHR ''D'' # CHR '':'' # p) ps) e =
    e\<lparr>e_tombstones := fold (\<lambda>p m. gm_set m p True) ps (e_tombstones e),
      e_previousPaths := fold (\<lambda>p m. gm_set m p True) ps (e_previousPaths e)\<rparr>"
  using assms by (induction ps arbitrary: e) (auto simp: load_tagged)

lemma load_K_lines:
  assumes "\<forall>p \<in> set ps. storable p"
  shows "fold load_line (map (\<lambda>p. CHR ''K'' # CHR '':'' # p) ps) e =
    e\<lparr>e_previousPaths := fold (\<lambda>p m. gm_set m p True) ps (e_previousPaths e)\<rparr>"
  using assms by (induction ps arbitrary: e) (auto simp: load_tagged)

lemma load_tombstone_lines:
  assumes "\<forall>p \<in> set (gm_keys (e_tombstones e)) \<union> set (gm_keys (e_previousPaths e)). storable p"
  shows "fold load_line (scan_lines (concat (tombstone_lines e))) e0 =
    e0\<lparr>e_tombstones := fold (\<lambda>p m. gm_set m p True) (gm_keys (e_tombstones e)) (e_tombstones e0),
       e_previousPaths := fold (\<lambda>p m. gm_set m p True)
         (gm_keys (e_tombstones e) @ gm_keys (e_previousPaths e)) (e_previousPaths e0)\<rparr>"
proof -
  let ?tps = "map (Pair (CHR ''D'')) (gm_keys (e_tombstones e)) @
      map (Pair (CHR ''K'')) (gm_keys (e_previousPaths e))"
  have "tombstone_lines e = map (\<lambda>(t, p). t # CHR '':'' # p @ [newline]) ?tps"
    by (simp add: tombstone_lines_def)
  then have "scan_lines (concat (tombstone_lines e)) = map (\<lambda>(t, p). t # CHR '':'' # p) ?tps"
    using assms by (simp only:) (rule scan_tagged_lines, auto)
  then show ?thesis
    using assms by (simp add: load_D_lines load_K_lines comp_def)
qed

text \<open>Printing appends line after line.\<close>

lemma print_lines_file:
  assumes "calm fs" "look fs f = Some nd" "n_kind nd = KFile d" "off = length d" "\<forall>l \<in> set ls. l \<noteq> []"
  shows "kind_at (print_lines f ls off fs) f = Some (KFile (d @ str_bytes (concat ls))) \<and>
    (\<forall>q. q \<noteq> f \<longrightarrow> look (print_lines f ls off fs) q = look fs q) \<and>
    fs_fault (print_lines f ls off fs) = fs_fault fs \<and> fs_cwd (print_lines f ls off fs) = fs_cwd fs"
  using assms
proof (induction f ls off fs arbitrary: nd d rule: print_lines.induct)
  case (1 f off fs)
  then show ?case by (simp add: kind_at_def)
next
  case (2 f l ls off fs)
  let ?nd = "nd\<lparr>n_kind := KFile (splice d (nat (int off)) (str_bytes l)), n_mtime := fs_clock fs\<rparr>"
  have w: "WriteAt f (str_bytes l) (int off) fs = (Inr (), put fs f ?nd)"
    using "2.prems" by (intro WriteAt_file) auto
  have k: "n_kind ?nd = KFile (d @ str_bytes l)"
    using "2.prems"(4) by (simp add: splice_prefix)
  show ?case
    using "2.IH"(2) [OF w [symmetric] refl, of ?nd "d @ str_bytes l"] "2.prems" k w by simp
qed

section \<open>Saving, restarting and loading\<close>

abbreviation tomb_at :: "fpath \<Rightarrow> fpath" where
  "tomb_at b \<equiv> b @ [TombstoneFile]"

lemma name_ok_tombstone: "name_ok TombstoneFile"
  by (simp add: name_ok_def TombstoneFile_def)

lemma dir_names: "wf_fs fs \<Longrightarrow> is_dir fs b \<Longrightarrow> \<forall>w \<in> set b. name_ok w"
  using nameable_names nameable_dir by blast

lemma Join_tombstone:
  assumes "wf_fs fs" "is_dir fs b"
  shows "Join (render True b) TombstoneFile = render True (tomb_at b)"
  using Join_names [of b "[TombstoneFile]"] dir_names [OF assms] name_ok_tombstone by simp

lemma resolve_tombstone:
  assumes "wf_fs fs" "is_dir fs b" "\<And>t. kind_at fs (tomb_at b) \<noteq> Some (KLink t)"
  shows "resolve fs fol (render True (tomb_at b)) = Inr (tomb_at b)"
  using assms name_ok_tombstone
  by (intro resolve_plain) (auto simp: nameable_def placed_def)

definition fresh_engine :: "string \<Rightarrow> Engine" where
  "fresh_engine d = \<lparr>e_baseDir = d, e_localTree = NewFileTree d, e_remoteTree = NewFileTree d,
     e_tombstones = gm_make, e_previousPaths = gm_make\<rparr>"

lemma NewEngine_from:
  assumes "wf_fs fs" "calm fs" "is_dir fs b"
  shows "kind_at fs (tomb_at b) = Some (KFile (str_bytes s)) \<Longrightarrow>
      NewEngine (render True b) fs = fold load_line (scan_lines s) (fresh_engine (render True b))"
    and "kind_at fs (tomb_at b) = None \<Longrightarrow> NewEngine (render True b) fs = fresh_engine (render True b)"
proof -
  have c: "Clean (render True b) = render True b" using dir_names [OF assms(1,3)] by (rule Clean_abs)
  note u = NewEngine_def loadTombstones_def Let_def c fresh_engine_def Join_tombstone [OF assms(1,3)]
  show "NewEngine (render True b) fs = fold load_line (scan_lines s) (fresh_engine (render True b))"
    if k: "kind_at fs (tomb_at b) = Some (KFile (str_bytes s))"
  proof -
    have "OpenRead (render True (tomb_at b)) fs = Inr (tomb_at b)"
      "ReadFrom (tomb_at b) fs = Inr (str_bytes s)"
      using resolve_tombstone [OF assms(1,3)] k assms(2)
      by (auto simp: OpenRead_def ReadFrom_def kind_at_def)
    then show ?thesis by (simp add: u)
  qed
  show "NewEngine (render True b) fs = fresh_engine (render True b)" if k: "kind_at fs (tomb_at b) = None"
  proof -
    have "OpenRead (render True (tomb_at b)) fs = Inl (OsError ENOENT)"
      using resolve_tombstone [OF assms(1,3)] k assms(2)
      by (auto simp: OpenRead_def kind_at_def)
    then show ?thesis by (simp add: u)
  qed
qed

text \<open>The slot of the tombstone file is free or holds a regular file.\<close>

definition tomb_slot :: "fs \<Rightarrow> fpath \<Rightarrow> bool" where
  "tomb_slot fs b = (case kind_at fs (tomb_at b) of None \<Rightarrow> True | Some (KFile _) \<Rightarrow> True | _ \<Rightarrow> False)"

lemma tombstone_lines_ne: "l \<in> set (tombstone_lines e) \<Longrightarrow> l \<noteq> []"
  by (auto simp: tombstone_lines_def)

lemma Create_tombstone:
  assumes wf: "wf_fs fs" and ca: "calm fs" and dir: "is_dir fs b" and slot: "tomb_slot fs b"
  obtains fs1 nd where "Create (render True (tomb_at b)) fs = (Inr (tomb_at b), fs1)"
    "look fs1 (tomb_at b) = Some nd" "n_kind nd = KFile []" "calm fs1"
    "\<And>q. q \<noteq> tomb_at b \<Longrightarrow> kind_at fs1 q = kind_at fs q"
proof (cases "look fs (tomb_at b)")
  case None
  have pl: "placed fs (tomb_at b)" using dir name_ok_tombstone by (simp add: placed_def)
  have bl: "butlast (tomb_at b) \<noteq> tomb_at b" by simp
  let ?nd = "new_node fs (KFile []) 438"
  show ?thesis
  proof (rule that)
    show "Create (render True (tomb_at b)) fs = (Inr (tomb_at b), add_node fs (tomb_at b) ?nd)"
      unfolding Create_def by (rule open_create_plain(1) [OF wf ca pl None])
    show "look (add_node fs (tomb_at b) ?nd) (tomb_at b) = Some ?nd"
      by (simp add: add_node_def look_stamp)
  qed (use ca in \<open>auto simp: new_node_def kind_add\<close>)
next
  case (Some nd)
  then obtain d where d: "n_kind nd = KFile d"
    using slot by (auto simp: tomb_slot_def kind_at_def split: kind.splits)
  let ?nd = "nd\<lparr>n_kind := KFile [], n_mtime := fs_clock fs\<rparr>"
  show ?thesis
  proof (rule that)
    show "Create (render True (tomb_at b)) fs = (Inr (tomb_at b), put fs (tomb_at b) ?nd)"
      unfolding Create_def using open_create_plain(2) [OF wf ca Some d, of True 438] by simp
  qed (use ca in \<open>auto simp: kind_put\<close>)
qed

lemma Remove_tombstone:
  assumes wf: "wf_fs fs" and ca: "calm fs" and dir: "is_dir fs b" and slot: "tomb_slot fs b"
  shows "kind_at (snd (Remove_path (render True (tomb_at b)) fs)) q =
    (if q = tomb_at b then None else kind_at fs q)"
proof -
  have r: "resolve fs False (render True (tomb_at b)) = Inr (tomb_at b)"
    using slot by (intro resolve_tombstone wf dir) (auto simp: tomb_slot_def)
  have "\<not> has_child fs (tomb_at b)" if "look fs (tomb_at b) \<noteq> None"
  proof
    assume "has_child fs (tomb_at b)"
    then obtain q where "strict_prefix (tomb_at b) q" "kind_at fs q \<noteq> None"
      by (auto simp: has_child_def in_nodes look_None_kind)
    then obtain r where "r \<noteq> []" "kind_at fs (tomb_at b @ r) \<noteq> None"
      by (metis prefixE self_append_conv strict_prefix_def)
    then have "is_dir fs (tomb_at b)" using wf_parents [OF wf] by blast
    with slot show False by (simp add: tomb_slot_def is_dir_kind)
  qed
  moreover have "kind_at (fs\<lparr>fs_nodes := gm_delete (fs_nodes fs) p\<rparr>) q = (if q = p then None else kind_at fs q)" for p
    by (simp add: kind_at_def look_def)
  ultimately show ?thesis using ca by (auto simp: Remove_path_def r look_None_kind)
qed

lemma SaveTombstones_saves:
  assumes wf: "wf_fs fs" and ca: "calm fs" and dir: "is_dir fs b" and slot: "tomb_slot fs b"
    and base: "e_baseDir e = render True b"
  shows "fst (SaveTombstones e fs) = Inr ()"
    and "kind_at (snd (SaveTombstones e fs)) q =
      (if q \<noteq> tomb_at b then kind_at fs q
       else if e_tombstones e = [] \<and> e_previousPaths e = [] then None
       else Some (KFile (str_bytes (concat (tombstone_lines e)))))"
proof -
  obtain fs1 nd where cr: "Create (render True (tomb_at b)) fs = (Inr (tomb_at b), fs1)"
    and nd: "look fs1 (tomb_at b) = Some nd" "n_kind nd = KFile []"
    and fs1: "calm fs1" "\<And>q. q \<noteq> tomb_at b \<Longrightarrow> kind_at fs1 q = kind_at fs q"
    using Create_tombstone [OF wf ca dir slot] by blast
  have pr: "kind_at (print_lines (tomb_at b) (tombstone_lines e) 0 fs1) q =
      (if q = tomb_at b then Some (KFile (str_bytes (concat (tombstone_lines e)))) else kind_at fs q)"
    using print_lines_file [OF fs1(1) nd, of 0 "tombstone_lines e"] fs1(2) tombstone_lines_ne
    by (auto simp: kind_at_def)
  show "fst (SaveTombstones e fs) = Inr ()"
    using cr by (simp add: SaveTombstones_def base Join_tombstone [OF wf dir] Let_def)
  show "kind_at (snd (SaveTombstones e fs)) q =
      (if q \<noteq> tomb_at b then kind_at fs q
       else if e_tombstones e = [] \<and> e_previousPaths e = [] then None
       else Some (KFile (str_bytes (concat (tombstone_lines e)))))"
    using cr pr Remove_tombstone [OF wf ca dir slot]
    by (auto simp: SaveTombstones_def base Join_tombstone [OF wf dir] Let_def)
qed

definition all_storable :: "Engine \<Rightarrow> bool" where
  "all_storable e \<longleftrightarrow>
     (\<forall>p \<in> set (gm_keys (e_tombstones e)) \<union> set (gm_keys (e_previousPaths e)). storable p)"

text \<open>An engine started on a directory whose tombstone file is the saved one knows the same
  deletions, and has seen everything the old engine had seen or had seen deleted.\<close>

lemma restart_flags:
  assumes wf: "wf_fs fs" "calm fs" "is_dir fs b" and ok: "engine_ok e" and st: "all_storable e"
    and k: "kind_at fs (tomb_at b) =
      (if e_tombstones e = [] \<and> e_previousPaths e = [] then None
       else Some (KFile (str_bytes (concat (tombstone_lines e)))))"
  shows "gm_flag (e_tombstones (NewEngine (render True b) fs)) p = gm_flag (e_tombstones e) p"
    and "gm_flag (e_previousPaths (NewEngine (render True b) fs)) p \<longleftrightarrow>
      gm_flag (e_tombstones e) p \<or> gm_flag (e_previousPaths e) p"
    and "e_baseDir (NewEngine (render True b) fs) = render True b"
    and "engine_ok (NewEngine (render True b) fs)"
proof -
  let ?n = "NewEngine (render True b) fs" and ?f = "fresh_engine (render True b)"
  have n: "?n = ?f\<lparr>e_tombstones := fold (\<lambda>p m. gm_set m p True) (gm_keys (e_tombstones e)) gm_make,
       e_previousPaths := fold (\<lambda>p m. gm_set m p True)
         (gm_keys (e_tombstones e) @ gm_keys (e_previousPaths e)) gm_make\<rparr>"
  proof (cases "e_tombstones e = [] \<and> e_previousPaths e = []")
    case True
    with NewEngine_from(2) [OF wf] k show ?thesis by (simp add: gm_keys_def fresh_engine_def)
  next
    case False
    then have "?n = fold load_line (scan_lines (concat (tombstone_lines e))) ?f"
      using NewEngine_from(1) [OF wf] k by simp
    then show ?thesis
      using load_tombstone_lines [of e ?f] st by (simp add: all_storable_def fresh_engine_def)
  qed
  note keys = flag_in_keys [OF engine_okD(3) [OF ok]] flag_in_keys [OF engine_okD(4) [OF ok]]
  note fold = flag_fold_set [where f = "\<lambda>x. x"]
  show "gm_flag (e_tombstones ?n) p = gm_flag (e_tombstones e) p"
    by (simp add: n fold keys)
  show "gm_flag (e_previousPaths ?n) p \<longleftrightarrow> gm_flag (e_tombstones e) p \<or> gm_flag (e_previousPaths e) p"
    by (simp add: n fold keys del: fold_append) blast
  show "e_baseDir ?n = render True b" by (simp add: n fresh_engine_def)
  show "engine_ok ?n"
    by (simp add: n engine_ok_def fresh_engine_def flags_ok_fold_set [where f = "\<lambda>x. x"] del: fold_append)
qed

section \<open>Operations stay inside the base directory\<close>

definition op_safe :: "SyncOp \<Rightarrow> bool" where
  "op_safe op \<longleftrightarrow> local_path (op_Path op) \<and> local_path (op_OldPath op) \<and> local_path (op_NewPath op) \<and>
     (\<forall>e. op_Entry op = Some e \<longrightarrow> local_path (fe_Path e))"

lemma fenced_names: "fenced b fs \<Longrightarrow> \<forall>w \<in> set b. name_ok w"
  using nameable_names [of fs b] by (auto simp: fenced_def nameable_def)

lemma applyOp_keeps:
  assumes s: "op_safe op" and f: "fenced b fs"
  shows "keeps_fence b fs (snd (applyOp (render True b) op fs))"
proof -
  have j: "inside b (Join (render True b) rel)" if "local_path rel" for rel
    using Join_inside [OF fenced_names [OF f] that] .
  have ins: "inside b (Join (render True b) (op_Path op))" "inside b (Join (render True b) (op_OldPath op))"
    "inside b (Join (render True b) (op_NewPath op))"
    "\<And>e. op_Entry op = Some e \<Longrightarrow> inside b (Join (render True b) (fe_Path e))"
    using s j by (auto simp: op_safe_def)
  show ?thesis
    using f ins
    by (auto simp: applyOp_def Let_def Create_def keeps_refl keeps_rules keeps_utils
        intro!: keeps_and_then dest: open_create_handle split: option.split)
qed

interpretation applyOp: confined_ops b op_safe "applyOp (render True b)"
  by unfold_locales (rule applyOp_keeps)

interpretation apply_ops: confined_ops b "\<lambda>ops. \<forall>op. Some op \<in> set ops \<longrightarrow> op_safe op"
    "apply_ops (render True b)"
proof unfold_locales
  fix ops fs assume "\<forall>op. Some op \<in> set ops \<longrightarrow> op_safe op" "fenced b fs"
  then show "keeps_fence b fs (snd (apply_ops (render True b) ops fs))"
  proof (induction "render True b" ops fs rule: apply_ops.induct)
    case (3 op ops fs)
    have k: "keeps_fence b fs (snd (applyOp (render True b) op fs))"
      using 3 by (intro applyOp.act_keeps) auto
    obtain r fs1 where a: "applyOp (render True b) op fs = (r, fs1)" by fastforce
    show ?case
    proof (cases r)
      case (Inr u)
      have "fenced b fs1" using k a by (simp add: keeps_fence_def)
      then have "keeps_fence b fs1 (snd (apply_ops (render True b) ops fs1))"
        using "3.hyps" [OF a [symmetric] Inr] "3.prems"(1) by simp
      with k a Inr show ?thesis by (auto intro: keeps_trans)
    qed (use k a in simp)
  qed (simp_all add: keeps_refl)
qed

lemma RemoveAll_path_ok:
  assumes "\<forall>v \<in> set b. name_ok v" "name_ok x"
  shows "\<not> ends_with_dot (render True (b @ [x]))" "render True (b @ [x]) \<noteq> []"
proof -
  show "render True (b @ [x]) \<noteq> []" by (simp add: render_def)
  obtain p where p: "render True (b @ [x]) = p @ slash # x"
    by (cases "b = []") (auto simp: render_def join_slash_snoc)
  have x: "slash \<notin> set x" "x \<noteq> []" "x \<noteq> dot" using assms(2) by (auto simp: name_ok_def)
  then obtain y c where y: "x = y @ [c]" by (cases x rule: rev_cases) auto
  show "\<not> ends_with_dot (render True (b @ [x]))"
  proof (cases "y = []")
    case True
    with x(3) y show ?thesis unfolding p ends_with_dot_def by auto
  next
    case False
    then obtain z d where z: "y = z @ [d]" by (cases y rule: rev_cases) auto
    have "(p @ slash # z @ [d, c]) ! (length p + length z + 1) = d"
      by (simp add: nth_append)
    then show ?thesis using x(1) y z unfolding p ends_with_dot_def by auto
  qed
qed

text \<open>A scan in one statement: the tree, the known paths and the tombstones it leaves.\<close>

lemma ScanLocal_picture:
  assumes "wf_fs fs" "calm fs" "is_dir fs b" "engine_ok e" "e_baseDir e = render True b"
  shows "\<exists>e'. ScanLocal e fs = (Inr (), e') \<and>
    (\<forall>p. Get (e_localTree e') p \<noteq> None \<longleftrightarrow> p \<in> disk_paths fs b) \<and>
    (\<forall>r nd. r \<in> set (listed fs b) \<and> look fs (b @ r) = Some nd \<longrightarrow>
       (\<exists>n. Get (e_localTree e') (join_slash r) = Some (entry_of fs r nd n))) \<and>
    (\<forall>p. gm_flag (e_previousPaths e') p \<longleftrightarrow> p \<in> disk_paths fs b) \<and>
    (\<forall>p. IsTombstoned e' p \<longleftrightarrow>
       IsTombstoned e p \<or> (gm_flag (e_previousPaths e) p \<and> p \<notin> disk_paths fs b))"
proof -
  obtain e' where e': "ScanLocal e fs = (Inr (), e')"
    "e_localTree e' = foldl Set_tree (NewFileTree (e_baseDir e)) (number_entries fs b 0 (listed fs b))"
    "\<And>p. gm_flag (e_previousPaths e') p \<longleftrightarrow> p \<in> disk_paths fs b"
    "\<And>p. gm_flag (e_tombstones e') p \<longleftrightarrow>
       gm_flag (e_tombstones e) p \<or> (p \<in> set (gm_keys (e_previousPaths e)) \<and> p \<notin> disk_paths fs b)"
    using ScanLocal_plain [OF assms(1-3,5)] by blast
  have tree: "\<exists>n. Get (e_localTree e') (join_slash r) = Some (entry_of fs r nd n)"
    if "r \<in> set (listed fs b)" "look fs (b @ r) = Some nd" for r nd
    using scanned_tree [OF assms(1) that(1)] that(2) by (metis e'(2) option.sel)
  have "Get (e_localTree e') p \<noteq> None \<longleftrightarrow> p \<in> disk_paths fs b" for p
    using tree scanned_tree_None [of p fs b] by (fastforce simp: e'(2) disk_paths_listed listed_def set_walk_list)
  then show ?thesis
    using tree e' flag_in_keys [OF engine_okD(4) [OF assms(4)]] by (auto simp: IsTombstoned_def)
qed

text \<open>Operations whose paths never step above their start change nothing outside the base
  directory, whether they succeed, fail half-way or meet refused system calls, as long as no
  symbolic link is on the disk.\<close>

lemma ApplyChanges_confined:
  assumes "fenced b fs" "e_baseDir e = render True b" "\<forall>op. Some op \<in> set ops \<longrightarrow> op_safe op"
    "\<not> prefix b q"
  shows "kind_at (snd (snd (ApplyChanges e ops fs))) q = kind_at fs q"
proof -
  have "same_outside b fs (snd (apply_ops (render True b) ops fs))"
    using apply_ops.act_keeps [OF assms(3,1)] by (simp add: keeps_fence_def)
  moreover have "snd (snd (ApplyChanges e ops fs)) = snd (apply_ops (render True b) ops fs)"
    by (auto simp: ApplyChanges_def assms(2) split: prod.split sum.split)
  ultimately show ?thesis using assms(4) by (simp add: same_outside_def)
qed

section \<open>Properties\<close>

abbreviation demo_engine :: Engine where
  "demo_engine \<equiv> (fresh_engine ''/d'')\<lparr>e_tombstones := [(''old'', True)],
     e_previousPaths := [(''f'', True), (''gone'', True)]\<rparr>"

lemma demo_engine_ok [simp]: "engine_ok demo_engine"
  by (simp add: engine_ok_def fresh_engine_def flags_ok_def gm_ok_def)

lemma demo_dir [simp]: "is_dir demo_fs [''d'']" "render True [''d''] = ''/d''"
  by (simp_all add: is_dir_kind render_def)

text \<open>C4: a deletion made while the program was not running is noticed. An engine saves its state;
  later, whatever happened to the directory but not to the saved file, a new engine is started on it
  and scans. Exactly the paths the old engine had tombstoned, and the paths it knew that are gone
  from the disk, are tombstoned.\<close>

theorem restart_detects_deletions:
  assumes "wf_fs fs" "calm fs" "is_dir fs b" "tomb_slot fs b"
    and "engine_ok e" "all_storable e" "e_baseDir e = render True b"
    and "wf_fs fs2" "calm fs2" "is_dir fs2 b"
    and "kind_at fs2 (tomb_at b) = kind_at (snd (SaveTombstones e fs)) (tomb_at b)"
  shows "fst (SaveTombstones e fs) = Inr () \<and>
    (\<exists>e2. ScanLocal (NewEngine (render True b) fs2) fs2 = (Inr (), e2) \<and>
       (IsTombstoned e2 p \<longleftrightarrow>
          IsTombstoned e p \<or> (gm_flag (e_previousPaths e) p \<and> p \<notin> disk_paths fs2 b)))"
proof -
  note sv = SaveTombstones_saves [OF assms(1-4,7)]
  note fl = restart_flags [OF assms(8-10,5,6) assms(11) [unfolded sv(2), simplified]]
  let ?e = "NewEngine (render True b) fs2"
  obtain e2 where e2: "ScanLocal ?e fs2 = (Inr (), e2)"
    "e_localTree e2 = foldl Set_tree (NewFileTree (e_baseDir ?e)) (number_entries fs2 b 0 (listed fs2 b))"
    "\<And>p. gm_flag (e_previousPaths e2) p \<longleftrightarrow> p \<in> disk_paths fs2 b"
    "\<And>p. gm_flag (e_tombstones e2) p \<longleftrightarrow> gm_flag (e_tombstones ?e) p \<or>
      (p \<in> set (gm_keys (e_previousPaths ?e)) \<and> p \<notin> disk_paths fs2 b)"
    by (rule ScanLocal_plain [OF assms(8-10) fl(3)]) blast
  have "gm_flag (e_tombstones e2) p \<longleftrightarrow>
      gm_flag (e_tombstones e) p \<or> (gm_flag (e_previousPaths e) p \<and> p \<notin> disk_paths fs2 b)"
    using fl(1,2) [of p] flag_in_keys [OF engine_okD(4) [OF fl(4)], of p] e2(4) [of p]
    by (auto simp: IsTombstoned_def)
  with sv(1) e2(1) show ?thesis by (auto simp: IsTombstoned_def)
qed

theorem restart_detects_deletions_witness:
  "\<exists>e2. ScanLocal (NewEngine (render True [''d'']) (snd (SaveTombstones demo_engine demo_fs)))
      (snd (SaveTombstones demo_engine demo_fs)) = (Inr (), e2) \<and> IsTombstoned e2 ''gone''"
proof -
  let ?fs = "snd (SaveTombstones demo_engine demo_fs)"
  have k: "kind_at ?fs q = (if q \<noteq> tomb_at [''d''] then kind_at demo_fs q
      else Some (KFile (str_bytes (concat (tombstone_lines demo_engine)))))" for q
    using SaveTombstones_saves(2) [OF wf_demo calm_sample, of "[''d'']" demo_engine q]
    by (simp add: fresh_engine_def tomb_slot_def TombstoneFile_def)
  have wf: "wf_fs ?fs" by (rule SaveTombstones.wf) simp
  have ca: "calm ?fs" by (simp add: SaveTombstones.calm_act)
  have "trail_space ''old'' = None" "trail_space ''f'' = None" "trail_space ''gone'' = None" by code_simp+
  then have st: "all_storable demo_engine" by (simp add: all_storable_def storable_def gm_keys_def)
  have "p \<in> disk_paths ?fs [''d''] \<Longrightarrow> p = ''f''" for p
    by (auto simp: disk_paths_def look_None_kind k TombstoneFile_def SyncTombstoneFile_def split: if_splits)
  then have gone: "''gone'' \<notin> disk_paths ?fs [''d'']" by blast
  have known: "gm_flag (e_previousPaths demo_engine) ''gone''" by code_simp
  have slot: "tomb_slot demo_fs [''d'']" by (simp add: tomb_slot_def TombstoneFile_def)
  have base: "e_baseDir demo_engine = render True [''d'']" by (simp add: fresh_engine_def)
  have dir: "is_dir ?fs [''d'']" using k [of "[''d'']"] by (simp add: is_dir_kind)
  show ?thesis
    using restart_detects_deletions [OF wf_demo calm_sample demo_dir(1) slot demo_engine_ok st base
        wf ca dir refl, of "''gone''"] gone known
    by blast
qed

text \<open>C12: a scan makes the local tree an exact picture of the disk: a path is in the tree exactly when
  a node with that path is below the base directory, its entry is the node's metadata up to the
  sequence number, the known paths are the paths on disk, and a known path that is gone becomes a
  tombstone.\<close>

theorem ScanLocal_exact:
  assumes "wf_fs fs" "calm fs" "is_dir fs b" "engine_ok e" "e_baseDir e = render True b"
  shows "\<exists>e'. ScanLocal e fs = (Inr (), e') \<and>
    (\<forall>p. Get (e_localTree e') p \<noteq> None \<longleftrightarrow> p \<in> disk_paths fs b) \<and>
    (\<forall>r nd. r \<in> set (listed fs b) \<and> look fs (b @ r) = Some nd \<longrightarrow>
       (\<exists>n. Get (e_localTree e') (join_slash r) = Some (entry_of fs r nd n))) \<and>
    (\<forall>p. gm_flag (e_previousPaths e') p \<longleftrightarrow> p \<in> disk_paths fs b) \<and>
    (\<forall>p. IsTombstoned e' p \<longleftrightarrow>
       IsTombstoned e p \<or> (gm_flag (e_previousPaths e) p \<and> p \<notin> disk_paths fs b))"
  using assms by (rule ScanLocal_picture)

theorem ScanLocal_exact_witness:
  "\<exists>e'. ScanLocal demo_engine demo_fs = (Inr (), e') \<and> IsTombstoned e' ''gone'' \<and> IsTombstoned e' ''old''"
proof -
  have "p \<in> disk_paths demo_fs [''d''] \<Longrightarrow> p = ''f''" for p
    by (auto simp: disk_paths_def look_None_kind split: if_splits)
  then have gone: "''gone'' \<notin> disk_paths demo_fs [''d'']" by blast
  have known: "gm_flag (e_previousPaths demo_engine) ''gone''" "IsTombstoned demo_engine ''old''"
    by code_simp+
  have base: "e_baseDir demo_engine = render True [''d'']" by (simp add: fresh_engine_def)
  show ?thesis
    using ScanLocal_exact [OF wf_demo calm_sample demo_dir(1) demo_engine_ok base] gone known by blast
qed



text \<open>C35: nothing checks the paths a peer sends: a \<open>delete\<close> operation for \<open>../x\<close> removes the sibling
  \<open>x\<close> of the synchronised directory.\<close>

theorem applyOp_delete_escapes:
  assumes "wf_fs fs" "calm fs" "is_dir fs (b @ [w])" "name_ok x" "look fs (b @ [x]) \<noteq> None"
  shows "\<exists>fs'. applyOp (render True (b @ [w])) (blank_op\<lparr>op_Type := ''delete'', op_Path := ''../'' @ x\<rparr>) fs =
      (Inr (), fs') \<and> look fs' (b @ [x]) = None"
proof -
  have names: "\<forall>v \<in> set (b @ [w]). name_ok v" by (rule dir_names [OF assms(1,3)])
  have x: "slash \<notin> set x" "x \<noteq> []" using assms(4) by (auto simp: name_ok_def)
  have "segs (''../'' @ x) = [dotdot, x]"
    using x by (simp add: segs_def split_slash_word)
  moreover have "ups [dotdot, x] = 1" "downs [dotdot, x] = [x]"
    using assms(4) by (auto simp: ups_def downs_def clean_segs_def clean_step_def name_ok_def)
  ultimately have j: "Join (render True (b @ [w])) (''../'' @ x) = render True (b @ [x])"
    using Join_abs [OF names, of "''../'' @ x"] by simp
  have r: "resolve fs False (render True (b @ [x])) = Inr (b @ [x])"
    using assms by (intro resolve_plain) (auto simp: nameable_def look_None_kind)
  have st: "stuck fs (b @ [x]) = None" using assms(2) by (simp add: stuck_None)
  have nd: "\<not> ends_with_dot (render True (b @ [x]))" "render True (b @ [x]) \<noteq> []"
    using RemoveAll_path_ok names assms(4) by simp_all
  show ?thesis
    using assms(5) r st nd j
    by (auto simp: applyOp_def DeleteEntry_def RemoveAll_def look_stamp look_drop_tree)
qed

theorem applyOp_delete_escapes_witness:
  "\<exists>fs'. applyOp (render True ([] @ [''d'']))
      (blank_op\<lparr>op_Type := ''delete'', op_Path := ''../'' @ ''e''\<rparr>)
      (sample_fs [([], KDir), ([''d''], KDir), ([''e''], KFile [1])]) = (Inr (), fs') \<and>
    look fs' ([] @ [''e'']) = None"
  by (rule applyOp_delete_escapes)
    (auto simp: is_dir_kind name_ok_def look_sample intro!: wf_sample)

text \<open>C33: \<open>SetRemoteTree\<close> replaces the remote tree by exactly the entries received, each path with the
  last entry sent for it up to the sequence number, and dereferences a nil pointer, ending the
  process, exactly when one of the entries is \<open>null\<close>.\<close>

theorem SetRemoteTree_result:
  shows "(SetRemoteTree e t = Inl GoPanic \<longleftrightarrow> None \<in> set (st_Entries t)) \<and>
    (None \<notin> set (st_Entries t) \<longrightarrow>
      (\<exists>e'. SetRemoteTree e t = Inr e' \<and> tree_ok (e_remoteTree e') \<and> e_localTree e' = e_localTree e \<and>
        (\<forall>p. map_option (\<lambda>x. x\<lparr>fe_Seq := 0\<rparr>) (Get (e_remoteTree e') p) =
             map_option (\<lambda>x. x\<lparr>fe_Seq := 0\<rparr>) (find (\<lambda>x. fe_Path x = p) (rev (map the (st_Entries t)))))))"
proof -
  have se: "set_entries t0 es = (if None \<in> set es then Inl GoPanic else Inr (foldl Set_tree t0 (map the es)))" for t0 es
    by (induction t0 es rule: set_entries.induct) auto
  have fd: "map_option (\<lambda>x. x\<lparr>fe_Seq := 0\<rparr>) (Get (foldl Set_tree (NewFileTree d) xs) p) =
      map_option (\<lambda>x. x\<lparr>fe_Seq := 0\<rparr>) (find (\<lambda>x. fe_Path x = p) (rev xs))" for d xs p
    by (induction xs rule: rev_induct) (auto simp: seq_of_def)
  have ok: "tree_ok (foldl Set_tree (NewFileTree d) xs)" for d xs by (rule ft.ok_batch) simp
  show ?thesis by (auto simp: SetRemoteTree_def se fd ok)
qed

theorem SetRemoteTree_result_witness:
  "SetRemoteTree demo_engine \<lparr>st_Entries = [None]\<rparr> = Inl GoPanic"
  using SetRemoteTree_result [of demo_engine "\<lparr>st_Entries = [None]\<rparr>"] by simp

text \<open>C34: a batch of operations stops at the first one that fails: its error is returned with the
  operation's type, the disk keeps what the operations up to it did, and the ones after it are not
  tried; a \<open>null\<close> operation ends the process, an unknown type is an error.\<close>

theorem apply_ops_first_failure:
  assumes "apply_ops d (map Some ops1) fs = (Inr (), fs1)" "applyOp d op fs1 = (Inl err, fs2)"
  shows "apply_ops d (map Some ops1 @ Some op # ops2) fs =
    (Inl (add_ctx (''apply op '' @ op_Type op) err), fs2)"
  using assms(1)
proof (induction ops1 arbitrary: fs)
  case Nil
  with assms(2) show ?case by simp
next
  case (Cons o1 ops1)
  then show ?case by (auto split: prod.splits sum.splits)
qed

theorem apply_ops_first_failure_witness:
  "apply_ops ''/d'' (map Some [] @ Some (blank_op\<lparr>op_Type := ''chown''\<rparr>) # []) demo_fs =
    (Inl (add_ctx (''apply op '' @ ''chown'') (ErrMsg (''unknown op type: '' @ ''chown''))), demo_fs)"
proof -
  have a: "applyOp ''/d'' (blank_op\<lparr>op_Type := ''chown''\<rparr>) demo_fs =
      (Inl (ErrMsg (''unknown op type: '' @ ''chown'')), demo_fs)"
    by (simp add: applyOp_def)
  show ?thesis using apply_ops_first_failure [of "''/d''" "[]" demo_fs demo_fs, OF _ a, of "[]"] by simp
qed

end
