(* ===== verification/Monitor.thy ===== *)
theory Monitor
  imports Engine
begin

text \<open>
  \<open>sync/monitor.go\<close>: the directory monitor. Raw events of the watcher are filtered, coalesced per
  path for 200 ms and turned into change events on a buffered channel. Three kinds of goroutines
  share the state: the loop, one timer callback per pending path, and the callers of \<open>Ignore\<close> and
  \<open>Stop\<close>. Each critical section is one function on the state; \<open>mon_step\<close> interleaves them the way
  the scheduler may, so that the send of \<open>flushDebounce\<close>, which happens after the lock is given
  back, and the two halves of the loop's deferred exit are steps of their own.

  The watcher itself is the package fsnotify: an operation is a set of the flags it documents, adding
  a watch may fail as the parameter \<open>add\<close> says, and which events arrive is up to the environment.
\<close>

section \<open>State\<close>

datatype fsop = Op_Create | Op_Write | Op_Remove | Op_Rename | Op_Chmod

record fsevent =
  ev_Name :: string
  ev_Op :: "fsop set"

text \<open>A timer is armed until its due time, or not armed: it has fired or was stopped.\<close>

record debounceState =
  ds_timer :: "int option"
  ds_lastOp :: "fsop set"

datatype loop_pc = LIdle | LStarted | LRunning | LClosing | LDone

record Monitor =
  mo_baseDir :: string
  mo_watched :: "string list"
  mo_watcherClosed :: bool
  mo_ch :: "ChangeEvent list"
  mo_chClosed :: bool
  mo_quit :: bool
  mo_running :: bool
  mo_debounce :: "(string, debounceState) gomap"
  mo_ignoreMap :: "(string, int) gomap"
  mo_loop :: loop_pc
  mo_orphans :: "(string \<times> int) list"
  mo_fired :: "string list"
  mo_sending :: "ChangeEvent list"
  mo_now :: int
  mo_panic :: bool

definition ch_cap :: nat where
  "ch_cap = 256"

definition debounceDelay :: int where
  "debounceDelay = 200 * 1000000"

section \<open>Construction\<close>

text \<open>\<open>addWatch\<close> walks the tree and adds a watch for every directory; a failing walk or a failing
  \<open>add\<close> ends it, with the watches added so far in place.\<close>

definition watch_visit :: "(string \<Rightarrow> error option) \<Rightarrow> fs \<Rightarrow> string \<Rightarrow> string list \<Rightarrow> string list res" where
  "watch_visit add fs path watched =
     (case Lstat path fs of
        Inl e \<Rightarrow> Inl e
      | Inr info \<Rightarrow>
          if n_kind info \<noteq> KDir then Inr watched
          else
            (case (case resolve fs False path of Inl e \<Rightarrow> Some e | Inr p \<Rightarrow> fs_fault fs SReaddir p) of
               Some e \<Rightarrow> Inl (OsError e)
             | None \<Rightarrow>
                 (case add path of
                    Some e \<Rightarrow> Inl (Wrap ''watch'' e)
                  | None \<Rightarrow> Inr (watched @ [path]))))"

fun watch_loop :: "(string \<Rightarrow> error option) \<Rightarrow> fs \<Rightarrow> string list \<Rightarrow> string list \<Rightarrow> string list res" where
  "watch_loop add fs [] watched = Inr watched"
| "watch_loop add fs (path # paths) watched =
     (case watch_visit add fs path watched of
        Inl e \<Rightarrow> Inl e
      | Inr watched' \<Rightarrow> watch_loop add fs paths watched')"

definition addWatch :: "(string \<Rightarrow> error option) \<Rightarrow> string \<Rightarrow> fs \<Rightarrow> string list res" where
  "addWatch add dir fs =
     (case resolve fs False dir of
        Inl e \<Rightarrow> Inl (OsError e)
      | Inr root \<Rightarrow>
          watch_loop add fs (dir # map (\<lambda>rel. Join dir (join_slash rel)) (walk_list fs root)) [])"

definition NewMonitor :: "error option \<Rightarrow> (string \<Rightarrow> error option) \<Rightarrow> string \<Rightarrow> int \<Rightarrow> fs \<Rightarrow> Monitor res" where
  "NewMonitor newWatcher add baseDir now fs =
     (case newWatcher of
        Some e \<Rightarrow> Inl (Wrap ''create watcher'' e)
      | None \<Rightarrow>
          (let absDir = Abs (render True (fs_cwd fs)) baseDir
           in case addWatch add absDir fs of
                Inl e \<Rightarrow> Inl (Wrap ''add initial watch'' e)
              | Inr watched \<Rightarrow>
                  Inr \<lparr>mo_baseDir = absDir, mo_watched = watched, mo_watcherClosed = False, mo_ch = [],
                       mo_chClosed = False, mo_quit = False, mo_running = False,
                       mo_debounce = gm_make, mo_ignoreMap = gm_make, mo_loop = LIdle,
                       mo_orphans = [], mo_fired = [], mo_sending = [], mo_now = now, mo_panic = False\<rparr>))"

section \<open>Operations\<close>

definition Start :: "Monitor \<Rightarrow> Monitor" where
  "Start m = m\<lparr>mo_running := True, mo_loop := LStarted\<rparr>"

definition Stop :: "Monitor \<Rightarrow> Monitor" where
  "Stop m =
     (if \<not> mo_running m then m
      else m\<lparr>mo_running := False, mo_quit := True, mo_watcherClosed := True\<rparr>)"

definition Ignore :: "string \<Rightarrow> int \<Rightarrow> Monitor \<Rightarrow> Monitor" where
  "Ignore path duration m = m\<lparr>mo_ignoreMap := gm_set (mo_ignoreMap m) path (mo_now m + duration)\<rparr>"

definition isIgnored :: "string \<Rightarrow> Monitor \<Rightarrow> bool \<times> Monitor" where
  "isIgnored path m =
     (case gm_get (mo_ignoreMap m) path of
        None \<Rightarrow> (False, m)
      | Some until \<Rightarrow>
          if mo_now m > until
          then (False, m\<lparr>mo_ignoreMap := gm_delete (mo_ignoreMap m) path\<rparr>)
          else (True, m))"

text \<open>The parts of the loop: its start, one event, and the deferred function in two halves.\<close>

definition loop_init :: "Monitor \<Rightarrow> Monitor" where
  "loop_init m = m\<lparr>mo_debounce := gm_make, mo_loop := LRunning\<rparr>"

definition rel_name :: "Monitor \<Rightarrow> string \<Rightarrow> string" where
  "rel_name m name =
     (case Rel (mo_baseDir m) name of
        Inl _ \<Rightarrow> dot
      | Inr r \<Rightarrow> if r = [] then dot else r)"

definition debounce_event :: "string \<Rightarrow> fsop set \<Rightarrow> Monitor \<Rightarrow> Monitor" where
  "debounce_event relPath op m =
     (let due = Some (mo_now m + debounceDelay);
          state = (case gm_get (mo_debounce m) relPath of
                     Some state \<Rightarrow> state\<lparr>ds_lastOp := ds_lastOp state \<union> op, ds_timer := due\<rparr>
                   | None \<Rightarrow> \<lparr>ds_timer = due, ds_lastOp = op\<rparr>)
      in m\<lparr>mo_debounce := gm_set (mo_debounce m) relPath state\<rparr>)"

definition watch_created :: "(string \<Rightarrow> error option) \<Rightarrow> fsevent \<Rightarrow> fs \<Rightarrow> Monitor \<Rightarrow> Monitor" where
  "watch_created add event fs m =
     (if Op_Create \<in> ev_Op event then
        (case Stat (ev_Name event) fs of
           Inl _ \<Rightarrow> m
         | Inr info \<Rightarrow>
             if n_kind info = KDir \<and> add (ev_Name event) = None
             then m\<lparr>mo_watched := mo_watched m @ [ev_Name event]\<rparr> else m)
      else m)"

definition loop_event :: "(string \<Rightarrow> error option) \<Rightarrow> fsevent \<Rightarrow> fs \<Rightarrow> Monitor \<Rightarrow> Monitor" where
  "loop_event add event fs m =
     (let relPath = rel_name m (ev_Name event)
      in if relPath = TombstoneFile then m
         else
           (case isIgnored relPath m of
              (True, m1) \<Rightarrow> m1
            | (False, m1) \<Rightarrow> debounce_event relPath (ev_Op event) (watch_created add event fs m1)))"

definition loop_close :: "Monitor \<Rightarrow> Monitor" where
  "loop_close m = m\<lparr>mo_chClosed := True, mo_loop := LClosing\<rparr>"

definition loop_stop_timers :: "Monitor \<Rightarrow> Monitor" where
  "loop_stop_timers m =
     m\<lparr>mo_debounce := map (\<lambda>(k, d). (k, d\<lparr>ds_timer := None\<rparr>)) (mo_debounce m), mo_loop := LDone\<rparr>"

text \<open>A timer that fires runs its callback in a goroutine of its own.\<close>

definition fire :: "string \<Rightarrow> Monitor \<Rightarrow> Monitor" where
  "fire relPath m =
     (case gm_get (mo_debounce m) relPath of
        None \<Rightarrow> m
      | Some d \<Rightarrow>
          m\<lparr>mo_debounce := gm_set (mo_debounce m) relPath (d\<lparr>ds_timer := None\<rparr>),
            mo_fired := mo_fired m @ [relPath]\<rparr>)"

definition fire_orphan :: "string \<Rightarrow> int \<Rightarrow> Monitor \<Rightarrow> Monitor" where
  "fire_orphan relPath due m =
     m\<lparr>mo_orphans := remove1 (relPath, due) (mo_orphans m), mo_fired := mo_fired m @ [relPath]\<rparr>"

definition dominant :: "fsop set \<Rightarrow> string option" where
  "dominant op =
     (if Op_Remove \<in> op \<or> Op_Rename \<in> op then Some ''delete''
      else if Op_Create \<in> op then Some ''create''
      else if Op_Write \<in> op then Some ''modify''
      else None)"

text \<open>\<open>flushDebounce\<close> up to the second unlock: the event it is about to send, if any. The timer of the
  state it deletes may have been armed again in the meantime; nothing stops it, so it stays behind
  as an orphan that will run the callback for the same path once more.\<close>

definition flush_locked :: "string \<Rightarrow> fs \<Rightarrow> Monitor \<Rightarrow> ChangeEvent option \<times> Monitor" where
  "flush_locked relPath fs m =
     (case gm_get (mo_debounce m) relPath of
        None \<Rightarrow> (None, m)
      | Some state \<Rightarrow>
          (case dominant (ds_lastOp state) of
             None \<Rightarrow> (None, m)
           | Some eventType \<Rightarrow>
               (let ce = blank_event\<lparr>ce_Type := eventType, ce_Path := relPath\<rparr>;
                    ce' =
                      (if eventType = ''create'' \<or> eventType = ''modify''
                       then (case BuildEntry (mo_baseDir m) (Join (mo_baseDir m) relPath) 0 fs of
                               Inl _ \<Rightarrow> ce
                             | Inr entry \<Rightarrow> ce\<lparr>ce_Entry := Some entry\<rparr>)
                       else ce)
                in (Some ce', m\<lparr>mo_debounce := gm_delete (mo_debounce m) relPath,
                                 mo_orphans := mo_orphans m @
                                   (case ds_timer state of None \<Rightarrow> [] | Some due \<Rightarrow> [(relPath, due)])\<rparr>))))"

definition flushDebounce :: "string \<Rightarrow> fs \<Rightarrow> Monitor \<Rightarrow> Monitor" where
  "flushDebounce relPath fs m =
     (case flush_locked relPath fs m of
        (None, m1) \<Rightarrow> m1
      | (Some ce, m1) \<Rightarrow> m1\<lparr>mo_sending := mo_sending m1 @ [ce]\<rparr>)"

text \<open>The select with a default: a full channel drops the event, a closed one panics.\<close>

definition send_event :: "ChangeEvent \<Rightarrow> Monitor \<Rightarrow> Monitor" where
  "send_event ce m =
     (if mo_chClosed m then m\<lparr>mo_panic := True\<rparr>
      else if length (mo_ch m) < ch_cap then m\<lparr>mo_ch := mo_ch m @ [ce]\<rparr>
      else m)"

definition recv_event :: "Monitor \<Rightarrow> Monitor" where
  "recv_event m = m\<lparr>mo_ch := tl (mo_ch m)\<rparr>"

section \<open>Interleavings\<close>

text \<open>One step of any goroutine, or of the clock. A panic ends the process.\<close>

inductive mon_step :: "(string \<Rightarrow> error option) \<Rightarrow> Monitor \<Rightarrow> Monitor \<Rightarrow> bool"
  for add :: "string \<Rightarrow> error option" where
  start: "\<not> mo_panic m \<Longrightarrow> mo_loop m = LIdle \<Longrightarrow> mon_step add m (Start m)"
| init: "\<not> mo_panic m \<Longrightarrow> mo_loop m = LStarted \<Longrightarrow> mon_step add m (loop_init m)"
| event: "\<not> mo_panic m \<Longrightarrow> mo_loop m = LRunning \<Longrightarrow> \<not> mo_watcherClosed m \<Longrightarrow>
    mon_step add m (loop_event add ev fs m)"
| close: "\<not> mo_panic m \<Longrightarrow> mo_loop m = LRunning \<Longrightarrow> mo_quit m \<or> mo_watcherClosed m \<Longrightarrow>
    mon_step add m (loop_close m)"
| stop_timers: "\<not> mo_panic m \<Longrightarrow> mo_loop m = LClosing \<Longrightarrow> mon_step add m (loop_stop_timers m)"
| stop: "\<not> mo_panic m \<Longrightarrow> mon_step add m (Stop m)"
| ignore: "\<not> mo_panic m \<Longrightarrow> mon_step add m (Ignore path duration m)"
| tick: "\<not> mo_panic m \<Longrightarrow> mo_now m \<le> t \<Longrightarrow> mon_step add m (m\<lparr>mo_now := t\<rparr>)"
| fire: "\<not> mo_panic m \<Longrightarrow> gm_get (mo_debounce m) p = Some d \<Longrightarrow> ds_timer d = Some due \<Longrightarrow>
    due \<le> mo_now m \<Longrightarrow> mon_step add m (fire p m)"
| fire_orphan: "\<not> mo_panic m \<Longrightarrow> (p, due) \<in> set (mo_orphans m) \<Longrightarrow> due \<le> mo_now m \<Longrightarrow>
    mon_step add m (fire_orphan p due m)"
| flush: "\<not> mo_panic m \<Longrightarrow> p \<in> set (mo_fired m) \<Longrightarrow>
    mon_step add m (flushDebounce p fs (m\<lparr>mo_fired := remove1 p (mo_fired m)\<rparr>))"
| send: "\<not> mo_panic m \<Longrightarrow> ce \<in> set (mo_sending m) \<Longrightarrow>
    mon_step add m (send_event ce (m\<lparr>mo_sending := remove1 ce (mo_sending m)\<rparr>))"
| recv: "\<not> mo_panic m \<Longrightarrow> mo_ch m \<noteq> [] \<Longrightarrow> mon_step add m (recv_event m)"

inductive_cases mon_stepE: "mon_step add m m'"

section \<open>What every interleaving keeps\<close>

definition event_ok :: "ChangeEvent \<Rightarrow> bool" where
  "event_ok ce \<longleftrightarrow> ce_Type ce \<in> {''create'', ''modify'', ''delete''} \<and> ce_Path ce \<noteq> TombstoneFile \<and>
     (ce_Type ce = ''delete'' \<longrightarrow> ce_Entry ce = None)"

definition mon_inv :: "Monitor \<Rightarrow> bool" where
  "mon_inv m \<longleftrightarrow> gm_ok (mo_debounce m) \<and> TombstoneFile \<notin> set (gm_keys (mo_debounce m)) \<and>
     length (mo_ch m) \<le> ch_cap \<and> (\<forall>ce \<in> set (mo_ch m) \<union> set (mo_sending m). event_ok ce) \<and>
     (mo_chClosed m \<longrightarrow> mo_loop m = LClosing \<or> mo_loop m = LDone) \<and>
     (mo_loop m = LClosing \<or> mo_loop m = LDone \<longrightarrow> mo_quit m) \<and>
     (mo_watcherClosed m \<longrightarrow> mo_quit m) \<and> (mo_panic m \<longrightarrow> mo_chClosed m)"

lemma flush_locked_event_ok:
  assumes "flush_locked p fs m = (Some ce, m')" "TombstoneFile \<notin> set (gm_keys (mo_debounce m))"
  shows "event_ok ce"
proof -
  obtain d t where d: "gm_get (mo_debounce m) p = Some d" "dominant (ds_lastOp d) = Some t"
    and ce: "ce_Type ce = t" "ce_Path ce = p" "t = ''delete'' \<longrightarrow> ce_Entry ce = None"
    using assms(1) by (auto simp: flush_locked_def Let_def split: option.splits sum.splits if_splits)
  have "t \<in> {''create'', ''modify'', ''delete''}"
    using d(2) by (auto simp: dominant_def split: if_splits)
  moreover have "p \<noteq> TombstoneFile" using gm_get_in_keys [OF d(1)] assms(2) by auto
  ultimately show ?thesis using ce by (simp add: event_ok_def)
qed

lemma mon_inv_flush:
  assumes "mon_inv m" shows "mon_inv (flushDebounce p fs m)"
proof -
  obtain r m1 where f: "flush_locked p fs m = (r, m1)" by fastforce
  have k: "set (gm_keys (gm_delete (mo_debounce m) p)) \<subseteq> set (gm_keys (mo_debounce m))"
    by (auto simp: gm_keys_get)
  have m1: "mo_debounce m1 = mo_debounce m \<or> mo_debounce m1 = gm_delete (mo_debounce m) p"
    "mo_ch m1 = mo_ch m" "mo_sending m1 = mo_sending m" "mo_chClosed m1 = mo_chClosed m"
    "mo_loop m1 = mo_loop m" "mo_quit m1 = mo_quit m" "mo_watcherClosed m1 = mo_watcherClosed m"
    "mo_panic m1 = mo_panic m"
    using f by (auto simp: flush_locked_def Let_def split: option.splits)
  have "event_ok ce" if "r = Some ce" for ce
    using flush_locked_event_ok f that assms by (auto simp: mon_inv_def)
  moreover have "gm_ok (mo_debounce m1)" "TombstoneFile \<notin> set (gm_keys (mo_debounce m1))"
    using m1(1) assms k by (auto simp: mon_inv_def gm_ok_delete)
  ultimately show ?thesis
    using assms f m1(2-) by (auto simp: flushDebounce_def mon_inv_def split: option.split)
qed

lemma mon_inv_loop_event: "mon_inv m \<Longrightarrow> mon_inv (loop_event add ev fs m)"
  by (auto simp: loop_event_def debounce_event_def watch_created_def isIgnored_def Let_def mon_inv_def
      gm_ok_set gm.keys_put split: option.split sum.split)

lemma mon_inv_send:
  assumes "mon_inv m" "ce \<in> set (mo_sending m)"
  shows "mon_inv (send_event ce (m\<lparr>mo_sending := remove1 ce (mo_sending m)\<rparr>))"
  using assms by (auto simp: send_event_def mon_inv_def dest: notin_set_remove1)

lemma keys_map_value: "gm_keys (map (\<lambda>(k, d). (k, f d)) m) = gm_keys m"
  by (auto simp: gm_keys_def)

interpretation monitor: inv_steps "mon_step add" mon_inv
proof unfold_locales
  fix m m' assume inv: "mon_inv m" and st: "mon_step add m m'"
  from st show "mon_inv m'"
  proof cases
    case (event ev fs)
    with inv show ?thesis by (simp add: mon_inv_loop_event)
  next
    case (flush p fs)
    have "mon_inv (m\<lparr>mo_fired := remove1 p (mo_fired m)\<rparr>)" using inv by (simp add: mon_inv_def)
    with flush show ?thesis by (simp add: mon_inv_flush)
  next
    case (send ce)
    with inv show ?thesis by (simp add: mon_inv_send)
  next
    case recv
    with inv show ?thesis by (cases "mo_ch m") (auto simp: recv_event_def mon_inv_def)
  next
    case stop_timers
    have "gm_ok (map (\<lambda>(k, d). (k, d\<lparr>ds_timer := None\<rparr>)) (mo_debounce m)) = gm_ok (mo_debounce m)"
      by (simp only: gm_ok_def keys_map_value [unfolded gm_keys_def])
    with stop_timers inv show ?thesis
      by (auto simp: loop_stop_timers_def mon_inv_def keys_map_value)
  next
    case (fire p d due)
    with inv show ?thesis
      by (auto simp: fire_def mon_inv_def gm_ok_set gm.keys_put dest: gm_get_in_keys)
  qed (use inv in \<open>auto simp: Start_def loop_init_def loop_close_def Stop_def Ignore_def fire_orphan_def
      mon_inv_def gm_ok_def gm_keys_def\<close>)
qed

lemma NewMonitor_inv: "NewMonitor nw add d t fs = Inr m \<Longrightarrow> mon_inv m"
  by (auto simp: NewMonitor_def mon_inv_def Let_def gm_ok_def gm_keys_def split: option.splits sum.splits)

text \<open>While a path is ignored, raw events on it have no effect at all. In particular a directory that
  appears under an ignored path is not added to the watched directories, so later changes inside it
  go unnoticed.\<close>

lemma ignored_event_dropped:
  assumes "gm_get (mo_ignoreMap m) (rel_name m (ev_Name ev)) = Some until" "mo_now m \<le> until"
  shows "loop_event add ev fs m = m"
  using assms by (auto simp: loop_event_def isIgnored_def Let_def)

section \<open>A burst of raw events\<close>

text \<open>Raw events on one name, each with its arrival time, its operation and the disk at that time.\<close>

definition burst :: "(string \<Rightarrow> error option) \<Rightarrow> string \<Rightarrow> (int \<times> fsop set \<times> fs) list \<Rightarrow> Monitor \<Rightarrow> Monitor" where
  "burst add name =
     run_all (\<lambda>(t, op, fs) m. loop_event add \<lparr>ev_Name = name, ev_Op = op\<rparr> fs (m\<lparr>mo_now := t\<rparr>))"

definition ops_of :: "(int \<times> fsop set \<times> fs) list \<Rightarrow> fsop set" where
  "ops_of xs = (\<Union>(t, op, fs) \<in> set xs. op)"

text \<open>What an event that passes the filters does.\<close>

lemma watch_created_sel [simp]:
  "mo_baseDir (watch_created add ev fs m) = mo_baseDir m" "mo_ch (watch_created add ev fs m) = mo_ch m"
  "mo_sending (watch_created add ev fs m) = mo_sending m" "mo_fired (watch_created add ev fs m) = mo_fired m"
  "mo_debounce (watch_created add ev fs m) = mo_debounce m" "mo_now (watch_created add ev fs m) = mo_now m"
  "mo_ignoreMap (watch_created add ev fs m) = mo_ignoreMap m" "mo_loop (watch_created add ev fs m) = mo_loop m"
  "mo_panic (watch_created add ev fs m) = mo_panic m" "mo_chClosed (watch_created add ev fs m) = mo_chClosed m"
  "mo_running (watch_created add ev fs m) = mo_running m" "mo_quit (watch_created add ev fs m) = mo_quit m"
  "mo_watcherClosed (watch_created add ev fs m) = mo_watcherClosed m"
  "mo_orphans (watch_created add ev fs m) = mo_orphans m"
  by (auto simp: watch_created_def split: sum.split)

lemma loop_event_pass:
  assumes "rel_name m (ev_Name ev) = rel" "rel \<noteq> TombstoneFile" "gm_get (mo_ignoreMap m) rel = None"
  shows "loop_event add ev fs m = debounce_event rel (ev_Op ev) (watch_created add ev fs m)"
  using assms by (simp add: loop_event_def isIgnored_def)

lemma debounce_event_sel [simp]:
  "mo_baseDir (debounce_event rel op m) = mo_baseDir m" "mo_ch (debounce_event rel op m) = mo_ch m"
  "mo_sending (debounce_event rel op m) = mo_sending m" "mo_fired (debounce_event rel op m) = mo_fired m"
  "mo_now (debounce_event rel op m) = mo_now m" "mo_ignoreMap (debounce_event rel op m) = mo_ignoreMap m"
  "mo_loop (debounce_event rel op m) = mo_loop m" "mo_panic (debounce_event rel op m) = mo_panic m"
  "mo_running (debounce_event rel op m) = mo_running m"
  by (simp_all add: debounce_event_def Let_def)

lemma get_debounce_event:
  "gm_get (mo_debounce (debounce_event rel op m)) q =
     (if q = rel
      then Some \<lparr>ds_timer = Some (mo_now m + debounceDelay),
                 ds_lastOp = (case gm_get (mo_debounce m) rel of None \<Rightarrow> op | Some d \<Rightarrow> ds_lastOp d \<union> op)\<rparr>
      else gm_get (mo_debounce m) q)"
  by (simp add: debounce_event_def Let_def split: option.split)

lemma burst_state:
  assumes "xs \<noteq> []" "rel_name m name = rel" "rel \<noteq> TombstoneFile" "gm_get (mo_ignoreMap m) rel = None"
  shows "gm_get (mo_debounce (burst add name xs m)) rel =
      Some \<lparr>ds_timer = Some (fst (last xs) + debounceDelay),
            ds_lastOp = (case gm_get (mo_debounce m) rel of None \<Rightarrow> {} | Some d \<Rightarrow> ds_lastOp d) \<union> ops_of xs\<rparr> \<and>
    (\<forall>q. q \<noteq> rel \<longrightarrow> gm_get (mo_debounce (burst add name xs m)) q = gm_get (mo_debounce m) q) \<and>
    mo_ch (burst add name xs m) = mo_ch m \<and> mo_sending (burst add name xs m) = mo_sending m \<and>
    mo_fired (burst add name xs m) = mo_fired m \<and> mo_baseDir (burst add name xs m) = mo_baseDir m"
  using assms
proof (induction xs arbitrary: m)
  case Nil
  then show ?case by simp
next
  case (Cons x xs)
  obtain t op fs where x: "x = (t, op, fs)" by (cases x) auto
  let ?ev = "\<lparr>ev_Name = name, ev_Op = op\<rparr>" and ?m = "m\<lparr>mo_now := t\<rparr>"
  let ?m1 = "debounce_event rel op (watch_created add ?ev fs ?m)"
  have "rel_name ?m name = rel" using Cons.prems(2) by (simp add: rel_name_def)
  then have e: "loop_event add ?ev fs ?m = ?m1" using Cons.prems by (simp add: loop_event_pass)
  then have b: "burst add name (x # xs) m = burst add name xs ?m1" by (simp add: burst_def x)
  have r1: "rel_name ?m1 name = rel" using Cons.prems(2) by (simp add: rel_name_def)
  show ?case
  proof (cases "xs = []")
    case True
    then show ?thesis
      unfolding b by (auto simp: burst_def x ops_of_def get_debounce_event split: option.split)
  next
    case False
    have "gm_get (mo_ignoreMap ?m1) rel = None" using Cons.prems by simp
    from Cons.IH [OF False r1 Cons.prems(3) this] False show ?thesis
      unfolding b by (auto simp: x ops_of_def get_debounce_event split: option.split)
  qed
qed

lemma Rel_self: "Rel b b = Inr dot"
  by (simp add: Rel_def)

lemma watch_loop_all:
  assumes "wf_fs fs" "calm fs" "\<forall>p \<in> set ps. look fs p \<noteq> None"
  shows "watch_loop (\<lambda>_. None) fs (map (render True) ps) ws =
    Inr (ws @ map (render True) (filter (is_dir fs) ps))"
  using assms(3)
proof (induction ps arbitrary: ws)
  case Nil
  then show ?case by simp
next
  case (Cons p ps)
  then obtain nd where nd: "look fs p = Some nd" by auto
  have "Lstat (render True p) fs = Inr nd" using assms nd by (simp add: Lstat_plain)
  moreover have "resolve fs False (render True p) = Inr p"
    using assms nd by (intro resolve_plain) (auto simp: nameable_look)
  ultimately show ?case
    using Cons nd assms(2) by (auto simp: watch_visit_def is_dir_def)
qed

lemma addWatch_all:
  assumes "wf_fs fs" "calm fs" "is_dir fs b"
  shows "addWatch (\<lambda>_. None) (render True b) fs =
    Inr (map (render True) (filter (is_dir fs) (b # map ((@) b) (walk_list fs b))))"
proof -
  have names: "\<forall>w \<in> set b. name_ok w" by (rule dir_names [OF assms(1,3)])
  have r: "resolve fs False (render True b) = Inr b"
    using assms by (intro resolve_plain nameable_dir) auto
  have j: "Join (render True b) (join_slash rel) = render True (b @ rel)" if "rel \<in> set (walk_list fs b)" for rel
  proof (rule Join_names [OF names])
    have "look fs (b @ rel) \<noteq> None" using that by (simp add: set_walk_list)
    then have "nameable fs (b @ rel)" by (auto intro: nameable_look)
    then show "\<forall>w \<in> set rel. name_ok w" using nameable_names [OF assms(1)] by fastforce
  qed
  have "map (\<lambda>rel. Join (render True b) (join_slash rel)) (walk_list fs b) =
      map (render True) (map ((@) b) (walk_list fs b))"
    using j by simp
  then have "addWatch (\<lambda>_. None) (render True b) fs =
      watch_loop (\<lambda>_. None) fs (map (render True) (b # map ((@) b) (walk_list fs b))) []"
    by (simp only: addWatch_def r sum.case list.map)
  moreover have "\<forall>p \<in> set (b # map ((@) b) (walk_list fs b)). look fs p \<noteq> None"
    using assms(3) by (auto simp: set_walk_list is_dir_def split: option.splits)
  ultimately show ?thesis by (simp only: watch_loop_all [OF assms(1,2)] append_Nil)
qed

section \<open>Properties\<close>

definition demo_monitor :: Monitor where
  "demo_monitor =
     \<lparr>mo_baseDir = ''/d'', mo_watched = [''/d''], mo_watcherClosed = False, mo_ch = [],
      mo_chClosed = False, mo_quit = False, mo_running = False, mo_debounce = gm_make,
      mo_ignoreMap = gm_make, mo_loop = LIdle, mo_orphans = [], mo_fired = [], mo_sending = [],
      mo_now = 0, mo_panic = False\<rparr>"

lemma demo_monitor_new: "NewMonitor None (\<lambda>_. None) ''/d'' 0 demo_fs = Inr demo_monitor"
  by code_simp

text \<open>C18: under every interleaving of the loop, the timer callbacks and the callers, a monitor never
  holds more than 256 undelivered events, never reports the tombstone file, only sends creations,
  modifications and deletions, attaches no metadata to a deletion, and cannot panic before it is
  stopped.\<close>

theorem monitor_invariant:
  assumes "NewMonitor newWatcher add dir t fs = Inr m0" "rtranclp (mon_step add) m0 m"
  shows "length (mo_ch m) \<le> 256 \<and>
    (\<forall>ce \<in> set (mo_ch m). ce_Type ce \<in> {''create'', ''modify'', ''delete''} \<and> ce_Path ce \<noteq> TombstoneFile \<and>
       (ce_Type ce = ''delete'' \<longrightarrow> ce_Entry ce = None)) \<and>
    (mo_panic m \<longrightarrow> mo_quit m)"
proof -
  have "mon_inv m" using monitor.reach_inv [OF assms(2) NewMonitor_inv [OF assms(1)]] .
  then show ?thesis by (auto simp: mon_inv_def event_ok_def ch_cap_def)
qed

theorem monitor_invariant_witness:
  "length (mo_ch (Start demo_monitor)) \<le> 256"
proof -
  have "mon_step (\<lambda>_. None) demo_monitor (Start demo_monitor)"
    by (rule mon_step.start) (simp_all add: demo_monitor_def)
  then show ?thesis using monitor_invariant [OF demo_monitor_new] by blast
qed

text \<open>C19: a burst of raw events on one path, none of them ignored, is coalesced into one change
  event: nothing is sent while the burst lasts; the timer is due 200 ms after the last raw event;
  when it fires, one event is sent whose kind is that of the strongest operation of the whole
  burst, removal and renaming before creation before writing, and the path is no longer pending.\<close>

theorem burst_is_one_event:
  assumes "xs \<noteq> []" "rel_name m name = rel" "rel \<noteq> TombstoneFile"
    "gm_get (mo_ignoreMap m) rel = None" "gm_get (mo_debounce m) rel = None"
    "dominant (ops_of xs) = Some kind"
  shows "mo_ch (burst add name xs m) = mo_ch m \<and> mo_sending (burst add name xs m) = mo_sending m \<and>
    map_option ds_timer (gm_get (mo_debounce (burst add name xs m)) rel) =
      Some (Some (fst (last xs) + 200 * 1000000)) \<and>
    (\<exists>ce. ce_Type ce = kind \<and> ce_Path ce = rel \<and>
       mo_sending (flushDebounce rel fs (fire rel (burst add name xs m))) = mo_sending m @ [ce] \<and>
       gm_get (mo_debounce (flushDebounce rel fs (fire rel (burst add name xs m)))) rel = None)"
proof -
  let ?b = "burst add name xs m"
  have b: "gm_get (mo_debounce ?b) rel =
      Some \<lparr>ds_timer = Some (fst (last xs) + debounceDelay), ds_lastOp = ops_of xs\<rparr>"
    "mo_ch ?b = mo_ch m" "mo_sending ?b = mo_sending m"
    using burst_state [OF assms(1-4), of add] assms(5) by simp_all
  have g: "gm_get (mo_debounce (fire rel ?b)) rel = Some \<lparr>ds_timer = None, ds_lastOp = ops_of xs\<rparr>"
    "mo_sending (fire rel ?b) = mo_sending m"
    using b by (simp_all add: fire_def)
  obtain ce m1 where f: "flush_locked rel fs (fire rel ?b) = (Some ce, m1)" "ce_Type ce = kind" "ce_Path ce = rel"
    "mo_sending m1 = mo_sending m" "gm_get (mo_debounce m1) rel = None"
    using g assms(6) by (auto simp: flush_locked_def Let_def split: sum.splits)
  then have "mo_sending (flushDebounce rel fs (fire rel ?b)) = mo_sending m @ [ce] \<and>
      gm_get (mo_debounce (flushDebounce rel fs (fire rel ?b))) rel = None"
    by (simp add: flushDebounce_def)
  with f(2,3) b show ?thesis by (auto simp: debounceDelay_def)
qed

theorem burst_is_one_event_witness:
  "\<exists>ce. ce_Type ce = ''create'' \<and> ce_Path ce = ''f'' \<and>
     mo_sending (flushDebounce ''f'' demo_fs (fire ''f''
       (burst (\<lambda>_. None) ''/d/f'' [(1, {Op_Create}, demo_fs), (2, {Op_Write, Op_Chmod}, demo_fs)] demo_monitor))) = [ce]"
proof -
  let ?xs = "[(1, {Op_Create}, demo_fs), (2, {Op_Write, Op_Chmod}, demo_fs)]"
  have "rel_name demo_monitor ''/d/f'' = ''f''" by code_simp
  moreover have "dominant (ops_of ?xs) = Some ''create''" by (auto simp: dominant_def ops_of_def)
  ultimately show ?thesis
    using burst_is_one_event [of ?xs demo_monitor "''/d/f''" "''f''" "''create''" "\<lambda>_. None" demo_fs]
    by (auto simp: demo_monitor_def TombstoneFile_def)
qed

text \<open>C38: a new monitor watches every directory of the tree, the root included, and nothing else.\<close>

theorem NewMonitor_watches:
  assumes "wf_fs fs" "calm fs" "is_dir fs b"
  shows "\<exists>m. NewMonitor None (\<lambda>_. None) (render True b) t fs = Inr m \<and> mo_baseDir m = render True b \<and>
    set (mo_watched m) = render True ` {p. prefix b p \<and> is_dir fs p}"
proof -
  let ?ps = "filter (is_dir fs) (b # map ((@) b) (walk_list fs b))"
  have "Abs (render True (fs_cwd fs)) (render True b) = render True b"
    using dir_names [OF assms(1,3)] by (simp add: Abs_def Clean_abs)
  moreover have "set ?ps = {p. prefix b p \<and> is_dir fs p}"
  proof (intro equalityI subsetI)
    show "p \<in> set ?ps \<Longrightarrow> p \<in> {p. prefix b p \<and> is_dir fs p}" for p
      unfolding set_filter by auto
  next
    fix p assume p: "p \<in> {p. prefix b p \<and> is_dir fs p}"
    then obtain r where "p = b @ r" by (auto elim: prefixE)
    with p show "p \<in> set ?ps"
      by (cases "r = []") (auto simp: set_walk_list is_dir_def split: option.splits)
  qed
  ultimately show ?thesis
    using addWatch_all [OF assms] by (simp add: NewMonitor_def Let_def del: filter.simps set_filter)
qed

theorem NewMonitor_watches_witness:
  "\<exists>m. NewMonitor None (\<lambda>_. None) (render True [''d'']) 0 demo_fs = Inr m"
  using NewMonitor_watches [OF wf_demo calm_sample demo_dir(1), of 0] by blast

text \<open>A started monitor can come to hold an event it is about to send.\<close>

lemma pending_send_reachable:
  assumes "NewMonitor newWatcher add dir t fs = Inr m0"
  obtains m ce where "rtranclp (mon_step add) m0 m" "mo_loop m = LRunning" "\<not> mo_panic m" "mo_sending m = [ce]" "mo_running m"
proof -
  let ?ev = "\<lparr>ev_Name = mo_baseDir m0, ev_Op = {Op_Remove}\<rparr>" and ?t = "mo_now m0 + debounceDelay"
  have m0: "mo_loop m0 = LIdle" "\<not> mo_panic m0" "\<not> mo_watcherClosed m0" "mo_sending m0 = []"
    "mo_ignoreMap m0 = gm_make" "mo_fired m0 = []"
    using assms by (auto simp: NewMonitor_def Let_def split: option.splits sum.splits)
  have s1: "mon_step add m0 (Start m0)" by (rule mon_step.start) (use m0 in simp_all)
  define m2 where "m2 = loop_init (Start m0)"
  have m2: "mo_loop m2 = LRunning" "\<not> mo_panic m2" "\<not> mo_watcherClosed m2" "mo_sending m2 = []" "mo_running m2"
    "mo_ignoreMap m2 = gm_make" "mo_fired m2 = []" "mo_now m2 = mo_now m0" "mo_debounce m2 = gm_make"
    using m0 by (simp_all add: m2_def loop_init_def Start_def)
  have s2: "mon_step add (Start m0) m2"
    unfolding m2_def by (rule mon_step.init) (use m0 in \<open>simp_all add: Start_def\<close>)
  have rel: "rel_name m2 (ev_Name ?ev) = dot"
    by (simp add: m2_def rel_name_def loop_init_def Start_def Rel_self)
  define m3 where "m3 = loop_event add ?ev fs m2"
  have e3: "m3 = debounce_event dot {Op_Remove} (watch_created add ?ev fs m2)"
    unfolding m3_def by (subst loop_event_pass [OF rel]) (use m2 in \<open>simp_all add: TombstoneFile_def\<close>)
  have m3: "mo_loop m3 = LRunning" "\<not> mo_panic m3" "mo_sending m3 = []" "mo_running m3" "mo_fired m3 = []"
    "mo_now m3 = mo_now m0" "gm_get (mo_debounce m3) dot = Some \<lparr>ds_timer = Some ?t, ds_lastOp = {Op_Remove}\<rparr>"
    using m2 by (simp_all add: e3 get_debounce_event)
  have s3: "mon_step add m2 m3" unfolding m3_def by (rule mon_step.event) (use m2 in simp_all)
  define m4 where "m4 = m3\<lparr>mo_now := ?t\<rparr>"
  have s4: "mon_step add m3 m4"
    unfolding m4_def by (rule mon_step.tick) (use m3 in \<open>simp_all add: debounceDelay_def\<close>)
  define m5 where "m5 = fire dot m4"
  have m5: "mo_loop m5 = LRunning" "\<not> mo_panic m5" "mo_sending m5 = []" "mo_running m5" "mo_fired m5 = [dot]"
    "gm_get (mo_debounce m5) dot = Some \<lparr>ds_timer = None, ds_lastOp = {Op_Remove}\<rparr>"
    using m3 by (simp_all add: m5_def m4_def fire_def)
  have s5: "mon_step add m4 m5"
    unfolding m5_def by (rule mon_step.fire [where due = ?t and d = "\<lparr>ds_timer = Some ?t, ds_lastOp = {Op_Remove}\<rparr>"]) (use m3 in \<open>simp_all add: m4_def\<close>)
  define m6 where "m6 = flushDebounce dot fs (m5\<lparr>mo_fired := remove1 dot (mo_fired m5)\<rparr>)"
  let ?ce = "blank_event\<lparr>ce_Type := ''delete'', ce_Path := dot\<rparr>"
  have m6: "mo_loop m6 = LRunning" "\<not> mo_panic m6" "mo_sending m6 = [?ce]" "mo_running m6"
    using m5 by (simp_all add: m6_def flushDebounce_def flush_locked_def dominant_def)
  have s6: "mon_step add m5 m6" unfolding m6_def by (rule mon_step.flush) (use m5 in simp_all)
  have "rtranclp (mon_step add) m0 m6"
    using s1 s2 s3 s4 s5 s6 by (meson converse_rtranclp_into_rtranclp rtranclp.rtrancl_refl)
  from that [OF this m6] show ?thesis .
qed

text \<open>C39: stopping is racy: for every monitor there is an interleaving in which a callback that has
  already taken its event tries to send it after the loop closed the channel, and the process
  panics.\<close>

theorem stop_can_panic:
  assumes "NewMonitor newWatcher add dir t fs = Inr m0"
  shows "\<exists>m. rtranclp (mon_step add) m0 m \<and> mo_panic m"
proof -
  obtain m6 ce where m6: "rtranclp (mon_step add) m0 m6" "mo_loop m6 = LRunning" "\<not> mo_panic m6" "mo_sending m6 = [ce]" "mo_running m6"
    by (rule pending_send_reachable [OF assms])
  define m8 where "m8 = loop_close (Stop m6)"
  have m8: "mo_chClosed m8" "\<not> mo_panic m8" "mo_sending m8 = [ce]"
    using m6 by (simp_all add: m8_def loop_close_def Stop_def)
  have s7: "mon_step add m6 (Stop m6)" by (rule mon_step.stop) (use m6 in simp)
  have s8: "mon_step add (Stop m6) m8"
    unfolding m8_def by (rule mon_step.close) (use m6 in \<open>simp_all add: Stop_def\<close>)
  define m9 where "m9 = send_event ce (m8\<lparr>mo_sending := remove1 ce (mo_sending m8)\<rparr>)"
  have s9: "mon_step add m8 m9" unfolding m9_def by (rule mon_step.send) (use m8 in simp_all)
  have "mo_panic m9" using m8 by (simp add: m9_def send_event_def)
  moreover have "rtranclp (mon_step add) m0 m9"
    using m6(1) s7 s8 s9 by (meson rtranclp.rtrancl_into_rtrancl)
  ultimately show ?thesis by blast
qed

theorem stop_can_panic_witness:
  "\<exists>m. rtranclp (mon_step (\<lambda>_. None)) demo_monitor m \<and> mo_panic m"
  by (rule stop_can_panic [OF demo_monitor_new])

end
