(* ===== verification/Json.thy ===== *)
theory Json
  imports Message
begin

text \<open>
  Package \<open>encoding/json\<close> as far as the program uses it: \<open>Marshal\<close> of structs, strings, unsigned and
  signed integers, byte slices, byte arrays, pointers and slices, and \<open>Unmarshal\<close> of any text into
  them. A value is printed the way Go prints it, without spaces and with its escapes; the parser
  accepts the whole JSON grammar. Strings are byte sequences: printing replaces a byte that is not
  part of a UTF-8 sequence by the replacement character, and so does reading.
\<close>

section \<open>UTF-8\<close>

definition code :: "char \<Rightarrow> nat" where
  "code c = of_char c"

definition cont :: "char \<Rightarrow> bool" where
  "cont c \<longleftrightarrow> 128 \<le> code c \<and> code c \<le> 191"

text \<open>The bounds of the second byte after a lead byte.\<close>

definition second_ok :: "nat \<Rightarrow> char \<Rightarrow> bool" where
  "second_ok x c \<longleftrightarrow>
     (if x = 224 then 160 else if x = 240 then 144 else 128) \<le> code c \<and>
     code c \<le> (if x = 237 then 159 else if x = 244 then 143 else 191)"

text \<open>The length of the sequence at the head, or zero when there is none.\<close>

fun utf8_at :: "string \<Rightarrow> nat" where
  "utf8_at [] = 0"
| "utf8_at (a # cs) =
     (let x = code a
      in if x < 128 then 1
         else if 194 \<le> x \<and> x \<le> 223 then (case cs of b # _ \<Rightarrow> if cont b then 2 else 0 | _ \<Rightarrow> 0)
         else if 224 \<le> x \<and> x \<le> 239 then
           (case cs of b # c # _ \<Rightarrow> if second_ok x b \<and> cont c then 3 else 0 | _ \<Rightarrow> 0)
         else if 240 \<le> x \<and> x \<le> 244 then
           (case cs of b # c # d # _ \<Rightarrow> if second_ok x b \<and> cont c \<and> cont d then 4 else 0 | _ \<Rightarrow> 0)
         else 0)"

definition rune_error :: string where
  "rune_error = [CHR 0xEF, CHR 0xBF, CHR 0xBD]"

definition chr_of :: "nat \<Rightarrow> char" where
  "chr_of n = char_of n"

definition utf8_encode :: "nat \<Rightarrow> string" where
  "utf8_encode r =
     (if r < 128 then [chr_of r]
      else if r < 2048 then [chr_of (192 + r div 64), chr_of (128 + r mod 64)]
      else if 55296 \<le> r \<and> r \<le> 57343 \<or> 1114111 < r then rune_error
      else if r < 65536
      then [chr_of (224 + r div 4096), chr_of (128 + r div 64 mod 64), chr_of (128 + r mod 64)]
      else [chr_of (240 + r div 262144), chr_of (128 + r div 4096 mod 64),
            chr_of (128 + r div 64 mod 64), chr_of (128 + r mod 64)])"

function sanitize :: "string \<Rightarrow> string" where
  "sanitize s =
     (if s = [] then []
      else if utf8_at s = 0 then rune_error @ sanitize (drop 1 s)
      else take (utf8_at s) s @ sanitize (drop (utf8_at s) s))"
  by pat_completeness auto
termination
  by (relation "measure length") auto

declare sanitize.simps [simp del]

function utf8_valid :: "string \<Rightarrow> bool" where
  "utf8_valid s =
     (if s = [] then True else if utf8_at s = 0 then False else utf8_valid (drop (utf8_at s) s))"
  by pat_completeness auto
termination
  by (relation "measure length") auto

declare utf8_valid.simps [simp del]

lemma sanitize_valid: "utf8_valid s \<Longrightarrow> sanitize s = s"
proof (induction s rule: utf8_valid.induct)
  case (1 s)
  show ?case
  proof (cases "s = []")
    case False
    with "1.prems" have "utf8_at s \<noteq> 0" "utf8_valid (drop (utf8_at s) s)"
      by (auto simp: utf8_valid.simps [of s] split: if_splits)
    with False "1.IH" show ?thesis by (subst sanitize.simps) simp
  qed (simp add: sanitize.simps)
qed

lemma utf8_at_le: "utf8_at s \<le> length s"
  by (cases s) (auto simp: Let_def split: list.split)

text \<open>A sequence is recognised by its own bytes, whatever follows.\<close>

lemma utf8_at_take: "utf8_at s = n \<Longrightarrow> n \<noteq> 0 \<Longrightarrow> utf8_at (take n s @ t) = n"
  by (cases s) (auto simp: Let_def split: list.splits if_splits)

section \<open>Values and printing\<close>

datatype json =
    JNull
  | JBool bool
  | JNum string
  | JStr string
  | JArr "json list"
  | JObj "(string \<times> json) list"

definition hex_digit :: "nat \<Rightarrow> char" where
  "hex_digit n = (if n < 10 then chr_of (48 + n) else chr_of (87 + n))"

text \<open>\<open>appendString\<close> with HTML escaping.\<close>

definition html_safe :: "char \<Rightarrow> bool" where
  "html_safe c \<longleftrightarrow> 32 \<le> code c \<and> code c < 128 \<and>
     c \<noteq> CHR 0x22 \<and> c \<noteq> CHR 0x5C \<and> c \<noteq> CHR ''<'' \<and> c \<noteq> CHR ''>'' \<and> c \<noteq> CHR ''&''"

abbreviation quote :: char where "quote \<equiv> CHR 0x22"
abbreviation backslash :: char where "backslash \<equiv> CHR 0x5C"

definition esc :: "char \<Rightarrow> string" where
  "esc c =
     (if html_safe c then [c]
      else if c = backslash \<or> c = quote then [backslash, c]
      else if c = CHR 0x08 then [backslash, CHR ''b'']
      else if c = CHR 0x0C then [backslash, CHR ''f'']
      else if c = CHR 0x0A then [backslash, CHR ''n'']
      else if c = CHR 0x0D then [backslash, CHR ''r'']
      else if c = CHR 0x09 then [backslash, CHR ''t'']
      else [backslash, CHR ''u'', CHR ''0'', CHR ''0'', hex_digit (code c div 16), hex_digit (code c mod 16)])"

definition u_ffd :: string where "u_ffd = backslash # ''ufffd''"

definition esc_seq :: "string \<Rightarrow> string" where
  "esc_seq w =
     (if w = [CHR 0xE2, CHR 0x80, CHR 0xA8] then backslash # ''u2028''
      else if w = [CHR 0xE2, CHR 0x80, CHR 0xA9] then backslash # ''u2029''
      else w)"

function quote_body :: "string \<Rightarrow> string" where
  "quote_body s =
     (case s of
        [] \<Rightarrow> []
      | c # cs \<Rightarrow>
          if code c < 128 then esc c @ quote_body cs
          else if utf8_at s = 0 then u_ffd @ quote_body cs
          else esc_seq (take (utf8_at s) s) @ quote_body (drop (utf8_at s) s))"
  by pat_completeness auto
termination
  by (relation "measure length") auto

declare quote_body.simps [simp del]

fun sep_by :: "char \<Rightarrow> string list \<Rightarrow> string" where
  "sep_by c [] = []"
| "sep_by c [w] = w"
| "sep_by c (w # v # ws) = w @ c # sep_by c (v # ws)"

definition print_str :: "string \<Rightarrow> string" where
  "print_str s = quote # quote_body s @ [quote]"

fun print_json :: "json \<Rightarrow> string" where
  "print_json JNull = ''null''"
| "print_json (JBool b) = (if b then ''true'' else ''false'')"
| "print_json (JNum n) = n"
| "print_json (JStr s) = print_str s"
| "print_json (JArr js) = CHR ''['' # sep_by (CHR '','') (map print_json js) @ '']''"
| "print_json (JObj kvs) =
     CHR ''{'' # sep_by (CHR '','') (map (\<lambda>(k, j). print_str k @ CHR '':'' # print_json j) kvs) @ ''}''"

section \<open>Reading strings\<close>

definition hex_val :: "char \<Rightarrow> nat option" where
  "hex_val c =
     (if 48 \<le> code c \<and> code c \<le> 57 then Some (code c - 48)
      else if 97 \<le> code c \<and> code c \<le> 102 then Some (code c - 87)
      else if 65 \<le> code c \<and> code c \<le> 70 then Some (code c - 55)
      else None)"

fun hex4 :: "string \<Rightarrow> nat option" where
  "hex4 (a # b # c # d # _) =
     (case (hex_val a, hex_val b, hex_val c, hex_val d) of
        (Some w, Some x, Some y, Some z) \<Rightarrow> Some (((w * 16 + x) * 16 + y) * 16 + z)
      | _ \<Rightarrow> None)"
| "hex4 _ = None"

text \<open>\<open>getu4\<close>: a whole \<open>\uXXXX\<close> escape at the head.\<close>

definition getu4 :: "string \<Rightarrow> nat option" where
  "getu4 s = (if take 2 s = [backslash, CHR ''u''] then hex4 (drop 2 s) else None)"

text \<open>\<open>utf16.DecodeRune\<close>.\<close>

definition pair_rune :: "nat \<Rightarrow> nat \<Rightarrow> nat option" where
  "pair_rune r1 r2 =
     (if 55296 \<le> r1 \<and> r1 < 56320 \<and> 56320 \<le> r2 \<and> r2 < 57344
      then Some ((r1 - 55296) * 1024 + (r2 - 56320) + 65536) else None)"

text \<open>What follows a backslash: the bytes it stands for and what is left to read.\<close>

definition unescape :: "string \<Rightarrow> (string \<times> string) option" where
  "unescape s =
     (case s of
        [] \<Rightarrow> None
      | c # cs \<Rightarrow>
          if c = quote \<or> c = backslash \<or> c = CHR ''/'' then Some ([c], cs)
          else if c = CHR ''b'' then Some ([CHR 0x08], cs)
          else if c = CHR ''f'' then Some ([CHR 0x0C], cs)
          else if c = CHR ''n'' then Some ([CHR 0x0A], cs)
          else if c = CHR ''r'' then Some ([CHR 0x0D], cs)
          else if c = CHR ''t'' then Some ([CHR 0x09], cs)
          else if c = CHR ''u'' then
            (case hex4 cs of
               None \<Rightarrow> None
             | Some r \<Rightarrow>
                 let rest = drop 4 cs
                 in if 55296 \<le> r \<and> r < 57344 then
                      (case getu4 rest of
                         None \<Rightarrow> Some (rune_error, rest)
                       | Some r2 \<Rightarrow>
                           (case pair_rune r r2 of
                              None \<Rightarrow> Some (rune_error, rest)
                            | Some d \<Rightarrow> Some (utf8_encode d, drop 6 rest)))
                    else Some (utf8_encode r, rest))
          else None)"

text \<open>One unit of a string body: an escape, a plain character or a UTF-8 sequence.\<close>

definition str_unit :: "string \<Rightarrow> (string \<times> string) option" where
  "str_unit s =
     (case s of
        [] \<Rightarrow> None
      | c # cs \<Rightarrow>
          if c = backslash then unescape cs
          else if code c < 32 then None
          else if utf8_at s = 0 then Some (rune_error, cs)
          else Some (take (utf8_at s) s, drop (utf8_at s) s))"

lemma unescape_shorter: "unescape s = Some (w, t) \<Longrightarrow> length t < length s"
  by (auto simp: unescape_def Let_def split: list.splits if_splits option.splits)

lemma str_unit_shorter: "str_unit s = Some (w, t) \<Longrightarrow> length t < length s"
  using unescape_shorter
  by (fastforce simp: str_unit_def split: list.splits if_splits)

function parse_str :: "string \<Rightarrow> (string \<times> string) option" where
  "parse_str s =
     (case s of
        [] \<Rightarrow> None
      | c # cs \<Rightarrow>
          if c = quote then Some ([], cs)
          else (case str_unit s of
                  None \<Rightarrow> None
                | Some (w, t) \<Rightarrow> map_option (\<lambda>(v, rest). (w @ v, rest)) (parse_str t)))"
  by pat_completeness auto
termination
  by (relation "measure length") (auto dest: str_unit_shorter)

declare parse_str.simps [simp del]

section \<open>Strings round trip\<close>

abbreviation glue :: "string \<Rightarrow> (string \<times> string) option \<Rightarrow> (string \<times> string) option" where
  "glue w \<equiv> map_option (\<lambda>(v, rest). (w @ v, rest))"

lemma parse_unit:
  "str_unit (c # s) = Some (w, t) \<Longrightarrow> c \<noteq> quote \<Longrightarrow> parse_str (c # s) = glue w (parse_str t)"
  by (subst parse_str.simps) simp

lemma code_eq: "code c = code d \<longleftrightarrow> c = d"
  by (simp add: code_def)

lemma chr_code [simp]: "chr_of (code c) = c"
  by (simp add: chr_of_def code_def)

lemma code_chr: "n < 256 \<Longrightarrow> code (chr_of n) = n"
  by (simp add: chr_of_def code_def of_char_of)

lemma chr_of_eq: "n < 256 \<Longrightarrow> chr_of n = c \<longleftrightarrow> n = code c"
  using code_chr [of n] by (metis chr_code)

lemma hex_val_digit: "n < 16 \<Longrightarrow> hex_val (hex_digit n) = Some n"
  by (simp add: hex_val_def hex_digit_def code_chr)

lemma unescape_u00:
  "n < 128 \<Longrightarrow> unescape (CHR ''u'' # CHR ''0'' # CHR ''0'' # hex_digit (n div 16) # hex_digit (n mod 16) # t) =
     Some ([chr_of n], t)"
proof -
  assume n: "n < 128"
  have "hex_val (hex_digit (n div 16)) = Some (n div 16)" "hex_val (hex_digit (n mod 16)) = Some (n mod 16)"
    using n by (simp_all add: hex_val_digit)
  moreover have "hex_val (CHR ''0'') = Some 0" by (simp add: hex_val_def code_def)
  ultimately have "hex4 (CHR ''0'' # CHR ''0'' # hex_digit (n div 16) # hex_digit (n mod 16) # t) = Some n"
    by simp
  with n show ?thesis by (simp add: unescape_def utf8_encode_def)
qed

lemma parse_esc:
  assumes "code c < 128"
  shows "parse_str (esc c @ t) = glue [c] (parse_str t)"
proof (cases "html_safe c")
  case True
  then have "str_unit (c # t) = Some ([c], t)" "c \<noteq> quote"
    using assms by (auto simp: str_unit_def html_safe_def)
  then show ?thesis using True parse_unit [of c t] by (simp add: esc_def)
next
  case False
  have "\<exists>u. esc c @ t = backslash # u \<and> unescape u = Some ([c], t)"
  proof (cases "c \<in> {backslash, quote, CHR 0x08, CHR 0x0C, CHR 0x0A, CHR 0x0D, CHR 0x09}")
    case True
    with False show ?thesis by (auto simp: esc_def unescape_def)
  next
    case nspecial: False
    with False have "esc c @ t =
        backslash # CHR ''u'' # CHR ''0'' # CHR ''0'' # hex_digit (code c div 16) # hex_digit (code c mod 16) # t"
      by (simp add: esc_def)
    with unescape_u00 [OF assms] show ?thesis by simp
  qed
  then obtain u where "esc c @ t = backslash # u" "unescape u = Some ([c], t)" by blast
  then show ?thesis using parse_unit [of backslash u "[c]" t] by (simp add: str_unit_def)
qed

lemma parse_uXXXX:
  assumes "hex4 h = Some r" "length h = 4" "\<not> (55296 \<le> r \<and> r < 57344)" "utf8_encode r = w"
  shows "parse_str ((backslash # CHR ''u'' # h) @ t) = glue w (parse_str t)"
proof -
  obtain a b c d where h: "h = [a, b, c, d]"
    using assms(2) by (auto simp: length_Suc_conv numeral_eq_Suc)
  have "hex4 (h @ t) = Some r" using assms(1) by (simp add: h)
  then have "unescape (CHR ''u'' # h @ t) = Some (w, t)"
    using assms(2-4) by (auto simp: unescape_def Let_def)
  then show ?thesis using parse_unit [of backslash "CHR ''u'' # h @ t" w t] by (simp add: str_unit_def)
qed

lemma parse_u_ffd: "parse_str (u_ffd @ t) = glue rune_error (parse_str t)"
proof -
  have "hex4 ''fffd'' = Some 65533" by (simp add: hex_val_def code_def)
  moreover have "utf8_encode 65533 = rune_error"
    by (simp add: utf8_encode_def rune_error_def chr_of_eq) (simp add: code_def)
  ultimately have "parse_str ((backslash # CHR ''u'' # ''fffd'') @ t) = glue rune_error (parse_str t)"
    by (intro parse_uXXXX) simp_all
  then show ?thesis by (simp add: u_ffd_def)
qed

lemma parse_esc_seq:
  assumes "utf8_at s = n" "n \<noteq> 0" "s = c # cs" "128 \<le> code c"
  shows "parse_str (esc_seq (take n s) @ t) = glue (take n s) (parse_str t)"
proof (cases "esc_seq (take n s) = take n s")
  case True
  have "n \<le> length s" using assms(1) utf8_at_le by blast
  then obtain w where w: "take n s = c # w" using assms(2,3) by (cases n) auto
  then have x: "take n s @ t = c # w @ t" by simp
  have u: "utf8_at (c # w @ t) = n" using utf8_at_take [OF assms(1,2), of t] by (simp only: x)
  have c: "c \<noteq> backslash" "c \<noteq> quote" "\<not> code c < 32" using assms(4) by (auto simp: code_def)
  have "str_unit (c # w @ t) = Some (take n (c # w @ t), drop n (c # w @ t))"
    unfolding str_unit_def list.case u using c assms(2) by (simp only: if_False)
  moreover have "take n (take n s @ t) = take n s" "drop n (take n s @ t) = t"
    using \<open>n \<le> length s\<close> by simp_all
  ultimately have "str_unit (c # w @ t) = Some (take n s, t)" by (simp only: x)
  then show ?thesis using True x c(2) parse_unit [of c "w @ t" "take n s" t] by simp
next
  case False
  then consider (ls) "take n s = [CHR 0xE2, CHR 0x80, CHR 0xA8]" | (ps) "take n s = [CHR 0xE2, CHR 0x80, CHR 0xA9]"
    by (auto simp: esc_seq_def split: if_splits)
  then show ?thesis
  proof cases
    case ls
    have "hex4 ''2028'' = Some 8232" by (simp add: hex_val_def code_def)
    moreover have "utf8_encode 8232 = [CHR 0xE2, CHR 0x80, CHR 0xA8]"
      by (simp add: utf8_encode_def chr_of_eq) (simp add: code_def)
    ultimately have "parse_str ((backslash # CHR ''u'' # ''2028'') @ t) =
        glue [CHR 0xE2, CHR 0x80, CHR 0xA8] (parse_str t)"
      by (intro parse_uXXXX) simp_all
    then show ?thesis by (simp add: ls esc_seq_def)
  next
    case ps
    have "hex4 ''2029'' = Some 8233" by (simp add: hex_val_def code_def)
    moreover have "utf8_encode 8233 = [CHR 0xE2, CHR 0x80, CHR 0xA9]"
      by (simp add: utf8_encode_def chr_of_eq) (simp add: code_def)
    ultimately have "parse_str ((backslash # CHR ''u'' # ''2029'') @ t) =
        glue [CHR 0xE2, CHR 0x80, CHR 0xA9] (parse_str t)"
      by (intro parse_uXXXX) simp_all
    then show ?thesis by (simp add: ps esc_seq_def)
  qed
qed

lemma parse_quote_body: "parse_str (quote_body s @ quote # rest) = Some (sanitize s, rest)"
proof (induction s rule: quote_body.induct)
  case (1 s)
  show ?case
  proof (cases s)
    case Nil
    then show ?thesis by (simp add: quote_body.simps sanitize.simps parse_str.simps)
  next
    case (Cons c cs)
    show ?thesis
    proof (cases "code c < 128")
      case True
      then have "utf8_at s = 1" by (simp add: Cons)
      then have "sanitize s = c # sanitize cs" by (subst sanitize.simps) (simp add: Cons)
      with True "1.IH"(1) [OF Cons True] show ?thesis
        by (subst quote_body.simps) (simp add: Cons parse_esc)
    next
      case big: False
      show ?thesis
      proof (cases "utf8_at s = 0")
        case True
        then have "sanitize s = rune_error @ sanitize cs" by (subst sanitize.simps) (simp add: Cons)
        with big True "1.IH"(2) [OF Cons big True] show ?thesis
          by (subst quote_body.simps) (simp add: Cons parse_u_ffd)
      next
        case False
        then have "sanitize s = take (utf8_at s) s @ sanitize (drop (utf8_at s) s)"
          by (subst sanitize.simps) (simp add: Cons)
        moreover have "quote_body s = esc_seq (take (utf8_at s) s) @ quote_body (drop (utf8_at s) s)"
          using big False by (subst quote_body.simps) (simp add: Cons)
        ultimately show ?thesis
          using "1.IH"(3) [OF Cons big False] parse_esc_seq [OF refl False Cons] big
          by (simp del: utf8_at.simps)
      qed
    qed
  qed
qed

section \<open>Numbers\<close>

definition is_digit :: "char \<Rightarrow> bool" where
  "is_digit c \<longleftrightarrow> 48 \<le> code c \<and> code c \<le> 57"

fun print_nat :: "nat \<Rightarrow> string" where
  "print_nat n = (if n < 10 then [chr_of (48 + n)] else print_nat (n div 10) @ [chr_of (48 + n mod 10)])"

declare print_nat.simps [simp del]

definition print_int :: "int \<Rightarrow> string" where
  "print_int i = (if i < 0 then CHR ''-'' # print_nat (nat (- i)) else print_nat (nat i))"

definition parse_nat :: "string \<Rightarrow> nat" where
  "parse_nat ds = foldl (\<lambda>v c. v * 10 + (code c - 48)) 0 ds"

text \<open>The literal at the head: sign, integer part, fraction and exponent.\<close>

definition lex_digits :: "string \<Rightarrow> (string \<times> string) option" where
  "lex_digits s =
     (let ds = takeWhile is_digit s in if ds = [] then None else Some (ds, dropWhile is_digit s))"

definition lex_int :: "string \<Rightarrow> (string \<times> string) option" where
  "lex_int s =
     (case s of
        [] \<Rightarrow> None
      | c # cs \<Rightarrow> if c = CHR ''0'' then Some ([c], cs) else lex_digits s)"

definition lex_frac :: "string \<Rightarrow> (string \<times> string) option" where
  "lex_frac s =
     (case s of
        [] \<Rightarrow> Some ([], [])
      | c # cs \<Rightarrow>
          if c = CHR ''.'' then map_option (\<lambda>(ds, r). (c # ds, r)) (lex_digits cs) else Some ([], s))"

definition lex_exp :: "string \<Rightarrow> (string \<times> string) option" where
  "lex_exp s =
     (case s of
        [] \<Rightarrow> Some ([], [])
      | c # cs \<Rightarrow>
          if c = CHR ''e'' \<or> c = CHR ''E'' then
            (case cs of
               [] \<Rightarrow> None
             | d # ds \<Rightarrow>
                 if d = CHR ''+'' \<or> d = CHR ''-'' then map_option (\<lambda>(x, r). (c # d # x, r)) (lex_digits ds)
                 else map_option (\<lambda>(x, r). (c # x, r)) (lex_digits cs))
          else Some ([], s))"

definition lex_number :: "string \<Rightarrow> (string \<times> string) option" where
  "lex_number s =
     (let (sign, s1) = (case s of c # cs \<Rightarrow> if c = CHR ''-'' then ([c], cs) else ([], s) | [] \<Rightarrow> ([], []))
      in case lex_int s1 of
           None \<Rightarrow> None
         | Some (i, s2) \<Rightarrow>
             (case lex_frac s2 of
                None \<Rightarrow> None
              | Some (f, s3) \<Rightarrow>
                  (case lex_exp s3 of
                     None \<Rightarrow> None
                   | Some (e, s4) \<Rightarrow> Some (sign @ i @ f @ e, s4))))"

lemma digit_chr: "n < 10 \<Longrightarrow> is_digit (chr_of (48 + n)) \<and> code (chr_of (48 + n)) = 48 + n"
  by (simp add: is_digit_def code_chr)

lemma print_nat_digits: "\<forall>c \<in> set (print_nat n). is_digit c"
proof (induction n rule: print_nat.induct)
  case (1 n)
  then show ?case by (subst print_nat.simps) (use digit_chr in auto)
qed

lemma print_nat_nonempty [simp]: "print_nat n \<noteq> []"
  by (subst print_nat.simps) simp

lemma print_nat_head: "hd (print_nat n) = CHR ''0'' \<Longrightarrow> n = 0"
proof (induction n rule: print_nat.induct)
  case (1 n)
  show ?case
  proof (cases "n < 10")
    case True
    with "1.prems" show ?thesis by (subst (asm) print_nat.simps) (simp add: chr_of_eq code_def)
  next
    case False
    have "hd (print_nat n) = hd (print_nat (n div 10))"
      using False by (subst print_nat.simps) simp
    with "1.IH" [OF False] "1.prems" have "n div 10 = 0" by simp
    with False show ?thesis by simp
  qed
qed

lemma parse_print_nat [simp]: "parse_nat (print_nat n) = n"
proof (induction n rule: print_nat.induct)
  case (1 n)
  show ?case
  proof (cases "n < 10")
    case True
    then show ?thesis
      by (subst print_nat.simps) (use digit_chr [OF True] in \<open>simp add: parse_nat_def\<close>)
  next
    case False
    have "parse_nat (ds @ [c]) = parse_nat ds * 10 + (code c - 48)" for ds c by (simp add: parse_nat_def)
    then have "parse_nat (print_nat n) = parse_nat (print_nat (n div 10)) * 10 + n mod 10"
      using False digit_chr [of "n mod 10"] by (subst print_nat.simps) simp
    with "1.IH" [OF False] show ?thesis by simp
  qed
qed

text \<open>A text that cannot continue a number.\<close>

definition num_stop :: "string \<Rightarrow> bool" where
  "num_stop s = (case s of [] \<Rightarrow> True | c # _ \<Rightarrow> \<not> is_digit c \<and> c \<notin> {CHR ''.'', CHR ''e'', CHR ''E''})"

lemma lex_digits_print:
  assumes "num_stop rest" shows "lex_digits (print_nat n @ rest) = Some (print_nat n, rest)"
proof -
  have tw: "takeWhile is_digit rest = []" "dropWhile is_digit rest = rest"
    using assms by (cases rest; simp add: num_stop_def)+
  have "takeWhile is_digit (print_nat n @ rest) = print_nat n" "dropWhile is_digit (print_nat n @ rest) = rest"
    using print_nat_digits [of n] tw by (simp_all add: takeWhile_append2 dropWhile_append2)
  then show ?thesis by (simp add: lex_digits_def)
qed

lemma print_nat_0: "print_nat 0 = ''0''"
  by (subst print_nat.simps) (simp add: chr_of_eq code_def)

lemma lex_int_print:
  assumes "num_stop rest" shows "lex_int (print_nat n @ rest) = Some (print_nat n, rest)"
proof (cases "n = 0")
  case True
  then show ?thesis by (simp add: lex_int_def print_nat_0)
next
  case False
  then have "hd (print_nat n) \<noteq> CHR ''0''" using print_nat_head by auto
  then obtain c cs where "print_nat n = c # cs" "c \<noteq> CHR ''0''" by (cases "print_nat n") auto
  with lex_digits_print [OF assms, of n] show ?thesis by (simp add: lex_int_def)
qed

lemma lex_number_print:
  assumes "num_stop rest" shows "lex_number (print_int i @ rest) = Some (print_int i, rest)"
proof -
  have fe: "lex_frac rest = Some ([], rest)" "lex_exp rest = Some ([], rest)"
    using assms by (cases rest; simp add: num_stop_def lex_frac_def lex_exp_def)+
  have "is_digit (hd (print_nat n))" for n
    using print_nat_digits hd_in_set [OF print_nat_nonempty] by blast
  moreover have "\<not> is_digit (CHR ''-'')" by (simp add: is_digit_def code_def)
  ultimately have "hd (print_nat n) \<noteq> CHR ''-''" for n by metis
  then have "\<exists>c cs. print_nat n = c # cs \<and> c \<noteq> CHR ''-''" for n
    by (metis list.collapse print_nat_nonempty)
  then obtain c cs where c: "print_nat (nat i) = c # cs" "c \<noteq> CHR ''-''" by blast
  show ?thesis
  proof (cases "i < 0")
    case True
    then show ?thesis using lex_int_print [OF assms] fe by (simp add: lex_number_def print_int_def)
  next
    case False
    have "lex_int (c # cs @ rest) = Some (c # cs, rest)" using lex_int_print [OF assms, of "nat i"] c by simp
    with False c fe show ?thesis by (simp add: lex_number_def print_int_def)
  qed
qed

section \<open>Reading values\<close>

definition is_ws :: "char \<Rightarrow> bool" where
  "is_ws c \<longleftrightarrow> c = CHR 0x20 \<or> c = CHR 0x09 \<or> c = CHR 0x0A \<or> c = CHR 0x0D"

definition skip_ws :: "string \<Rightarrow> string" where
  "skip_ws s = dropWhile is_ws s"

definition lit :: "string \<Rightarrow> json \<Rightarrow> string \<Rightarrow> (json \<times> string) option" where
  "lit w j s = (if take (length w) s = w then Some (j, drop (length w) s) else None)"

text \<open>
  The recursive descent, with fuel, and with the nesting the scanner still allows. The fuel
  \<open>parse_json\<close> starts with is enough for every text (\<open>fuel_enough\<close> below).
\<close>

fun parse_value :: "nat \<Rightarrow> nat \<Rightarrow> string \<Rightarrow> (json \<times> string) option"
  and parse_elems :: "nat \<Rightarrow> nat \<Rightarrow> string \<Rightarrow> (json list \<times> string) option"
  and parse_members :: "nat \<Rightarrow> nat \<Rightarrow> string \<Rightarrow> ((string \<times> json) list \<times> string) option" where
  "parse_value 0 d s = None"
| "parse_value (Suc n) d s =
     (case skip_ws s of
        [] \<Rightarrow> None
      | c # cs \<Rightarrow>
          if c = quote then map_option (\<lambda>(v, r). (JStr v, r)) (parse_str cs)
          else if c = CHR ''{'' then
            if d = 0 then None
            else (case skip_ws cs of
                    [] \<Rightarrow> None
                  | e # r \<Rightarrow>
                      if e = CHR ''}'' then Some (JObj [], r)
                      else map_option (\<lambda>(kvs, r). (JObj kvs, r)) (parse_members n (d - 1) cs))
          else if c = CHR ''['' then
            if d = 0 then None
            else (case skip_ws cs of
                    [] \<Rightarrow> None
                  | e # r \<Rightarrow>
                      if e = CHR '']'' then Some (JArr [], r)
                      else map_option (\<lambda>(js, r). (JArr js, r)) (parse_elems n (d - 1) cs))
          else if c = CHR ''n'' then lit ''null'' JNull (c # cs)
          else if c = CHR ''t'' then lit ''true'' (JBool True) (c # cs)
          else if c = CHR ''f'' then lit ''false'' (JBool False) (c # cs)
          else map_option (\<lambda>(x, r). (JNum x, r)) (lex_number (c # cs)))"
| "parse_elems 0 d s = None"
| "parse_elems (Suc n) d s =
     (case parse_value n d s of
        None \<Rightarrow> None
      | Some (j, r) \<Rightarrow>
          (case skip_ws r of
             [] \<Rightarrow> None
           | e # r1 \<Rightarrow>
               if e = CHR '','' then map_option (\<lambda>(js, t). (j # js, t)) (parse_elems n d r1)
               else if e = CHR '']'' then Some ([j], r1)
               else None))"
| "parse_members 0 d s = None"
| "parse_members (Suc n) d s =
     (case skip_ws s of
        [] \<Rightarrow> None
      | c # cs \<Rightarrow>
          if c \<noteq> quote then None
          else (case parse_str cs of
                  None \<Rightarrow> None
                | Some (k, r) \<Rightarrow>
                    (case skip_ws r of
                       [] \<Rightarrow> None
                     | e # r1 \<Rightarrow>
                         if e \<noteq> CHR '':'' then None
                         else (case parse_value n d r1 of
                                 None \<Rightarrow> None
                               | Some (j, r2) \<Rightarrow>
                                   (case skip_ws r2 of
                                      [] \<Rightarrow> None
                                    | f # r3 \<Rightarrow>
                                        if f = CHR '','' then
                                          map_option (\<lambda>(kvs, t). ((k, j) # kvs, t)) (parse_members n d r3)
                                        else if f = CHR ''}'' then Some ([(k, j)], r3)
                                        else None)))))"

definition maxNestingDepth :: nat where
  "maxNestingDepth = 10000"

definition parse_json :: "string \<Rightarrow> json option" where
  "parse_json s =
     (case parse_value (2 * length s + 2) maxNestingDepth s of
        None \<Rightarrow> None
      | Some (j, r) \<Rightarrow> if skip_ws r = [] then Some j else None)"

section \<open>The fuel is enough\<close>

lemma skip_ws_le: "length (skip_ws s) \<le> length s"
  by (simp add: skip_ws_def length_dropWhile_le)

lemma skip_ws_Cons: "skip_ws s = c # cs \<Longrightarrow> length cs < length s"
  using skip_ws_le [of s] by simp

lemma parse_str_shorter: "parse_str s = Some (w, t) \<Longrightarrow> length t < length s"
proof (induction s arbitrary: w t rule: parse_str.induct)
  case (1 s)
  show ?case
  proof (cases s)
    case Nil
    with "1.prems" show ?thesis by (simp add: parse_str.simps)
  next
    case (Cons c cs)
    show ?thesis
    proof (cases "c = quote")
      case True
      with "1.prems" Cons show ?thesis by (subst (asm) parse_str.simps) simp
    next
      case False
      with "1.prems" Cons obtain v s1 w' where u: "str_unit s = Some (v, s1)" "parse_str s1 = Some (w', t)"
        by (subst (asm) parse_str.simps) (auto split: option.splits)
      then have "length t < length s1" using "1.IH" [OF Cons False u(1) refl] by simp
      with str_unit_shorter [OF u(1)] show ?thesis by simp
    qed
  qed
qed

lemma lex_digits_shorter: "lex_digits s = Some (x, r) \<Longrightarrow> length r < length s"
  by (cases s) (auto simp: lex_digits_def Let_def less_Suc_eq_le length_dropWhile_le split: if_splits)

lemma lex_number_shorter: "lex_number s = Some (x, r) \<Longrightarrow> length r < length s"
proof -
  have i: "lex_int s = Some (x, r) \<Longrightarrow> length r < length s" for s x r
    by (auto simp: lex_int_def split: list.splits if_splits dest!: lex_digits_shorter)
  have f: "lex_frac s = Some (x, r) \<Longrightarrow> length r \<le> length s" for s x r
    by (auto simp: lex_frac_def split: list.splits if_splits dest!: lex_digits_shorter)
  have e: "lex_exp s = Some (x, r) \<Longrightarrow> length r \<le> length s" for s x r
    by (auto simp: lex_exp_def split: list.splits if_splits dest!: lex_digits_shorter)
  assume "lex_number s = Some (x, r)"
  then show ?thesis
    by (auto simp: lex_number_def Let_def split: option.splits list.splits if_splits dest!: i f e)
qed

lemma lit_shorter: "lit w j s = Some (j', r) \<Longrightarrow> w \<noteq> [] \<Longrightarrow> s \<noteq> [] \<Longrightarrow> length r < length s"
  by (auto simp: lit_def split: if_splits)

lemma parse_shorter:
  "parse_value n d s = Some (j, r) \<Longrightarrow> length r < length s"
  "parse_elems n d s = Some (js, r) \<Longrightarrow> length r < length s"
  "parse_members n d s = Some (kvs, r) \<Longrightarrow> length r < length s"
proof (induction n d s and n d s and n d s arbitrary: j r and js r and kvs r
    rule: parse_value_parse_elems_parse_members.induct)
  case (2 n d s)
  then obtain c cs where c: "skip_ws s = c # cs" by (auto split: list.splits)
  have le: "length (c # cs) \<le> length s" using skip_ws_le [of s] c by simp
  have e: "skip_ws cs = e # u \<Longrightarrow> length u < length cs" for e u by (rule skip_ws_Cons)
  show ?case
    using "2.prems" "2.IH" [OF c] le
    by (auto simp: c split: if_splits list.splits
        dest!: parse_str_shorter lex_number_shorter lit_shorter e) (fastforce dest: less_le_trans)+
next
  case (4 n d s)
  obtain j r0 where v: "parse_value n d s = Some (j, r0)" using "4.prems" by (auto split: option.splits)
  obtain e r1 where e: "skip_ws r0 = e # r1" using "4.prems" v by (auto split: list.splits)
  have "length r1 < length s" using "4.IH"(1) [OF v] skip_ws_Cons [OF e] by simp
  then show ?case
    using "4.prems" v e "4.IH"(2) [OF v refl e] by (auto split: if_splits)
next
  case (6 n d s)
  show ?case
    using "6.prems" "6.IH"
    by (fastforce split: list.splits if_splits option.splits dest!: skip_ws_Cons parse_str_shorter)
qed auto

declare parse_value.simps(2) [simp del] parse_elems.simps(2) [simp del] parse_members.simps(2) [simp del]

lemma fuel_step:
  "2 * length s < n \<Longrightarrow> parse_value (Suc n) d s = parse_value n d s"
  "2 * length s + 1 < n \<Longrightarrow> parse_elems (Suc n) d s = parse_elems n d s"
  "2 * length s + 1 < n \<Longrightarrow> parse_members (Suc n) d s = parse_members n d s"
proof (induction n d s and n d s and n d s rule: parse_value_parse_elems_parse_members.induct)
  case (2 n d s)
  show ?case
  proof (cases "skip_ws s")
    case Nil
    then show ?thesis unfolding parse_value.simps(2) Nil by simp
  next
    case (Cons c cs)
    have "2 * length cs + 1 < n" using skip_ws_Cons [OF Cons] "2.prems" by simp
    with "2.IH" [OF Cons] show ?thesis
      unfolding parse_value.simps(2) [of "Suc n" d s] parse_value.simps(2) [of n d s] Cons
      by (auto split: list.split)
  qed
next
  case (4 n d s)
  have v: "parse_value (Suc n) d s = parse_value n d s" using "4.IH"(1) "4.prems" by simp
  have e: "parse_elems (Suc n) d r1 = parse_elems n d r1"
    if "parse_value n d s = Some (j, r)" "skip_ws r = CHR '','' # r1" for j r r1
  proof -
    have "length r1 < length s" using parse_shorter(1) [OF that(1)] skip_ws_Cons [OF that(2)] by simp
    then show ?thesis using "4.IH"(2) [OF that(1) refl that(2)] "4.prems" by simp
  qed
  show ?case
    unfolding parse_elems.simps(2) [of "Suc n" d s] parse_elems.simps(2) [of n d s] v
    by (auto simp: e split: option.split list.split)
next
  case (6 n d s)
  have v: "parse_value (Suc n) d r1 = parse_value n d r1"
    if "skip_ws s = quote # cs" "parse_str cs = Some (k, r)" "skip_ws r = CHR '':'' # r1" for cs k r r1
  proof -
    have "length r1 < length s"
      using skip_ws_Cons [OF that(1)] parse_str_shorter [OF that(2)] skip_ws_Cons [OF that(3)] by simp
    then show ?thesis using "6.IH"(1) [OF that(1) _ that(2) refl that(3)] "6.prems" by simp
  qed
  have m: "parse_members (Suc n) d r3 = parse_members n d r3"
    if "skip_ws s = quote # cs" "parse_str cs = Some (k, r)" "skip_ws r = CHR '':'' # r1"
      "parse_value n d r1 = Some (j, r2)" "skip_ws r2 = CHR '','' # r3" for cs k r r1 j r2 r3
  proof -
    have "length r3 < length s"
      using skip_ws_Cons [OF that(1)] parse_str_shorter [OF that(2)] skip_ws_Cons [OF that(3)]
        parse_shorter(1) [OF that(4)] skip_ws_Cons [OF that(5)] by simp
    then show ?thesis
      using "6.IH"(2) [OF that(1) _ that(2) refl that(3) _ that(4) refl that(5)] "6.prems" by simp
  qed
  show ?case
    unfolding parse_members.simps(2) [of "Suc n" d s] parse_members.simps(2) [of n d s]
    by (auto simp: v m split: option.split list.split)
qed simp_all

text \<open>More fuel than \<open>parse_json\<close> starts with changes nothing.\<close>

lemma fuel_enough: "parse_value (2 * length s + 2 + k) d s = parse_value (2 * length s + 2) d s"
proof (induction k)
  case (Suc k)
  have "parse_value (Suc (2 * length s + 2 + k)) d s = parse_value (2 * length s + 2 + k) d s"
    by (rule fuel_step(1)) simp
  with Suc show ?case by simp
qed simp

section \<open>Values round trip\<close>

fun num_ok :: "json \<Rightarrow> bool" where
  "num_ok (JNum x) = (\<exists>i. x = print_int i)"
| "num_ok (JArr js) = list_all num_ok js"
| "num_ok (JObj kvs) = list_all (\<lambda>(k, j). num_ok j) kvs"
| "num_ok _ = True"

fun jdepth :: "json \<Rightarrow> nat" where
  "jdepth (JArr js) = Suc (Max (set (0 # map jdepth js)))"
| "jdepth (JObj kvs) = Suc (Max (set (0 # map (\<lambda>(k, j). jdepth j) kvs)))"
| "jdepth _ = 0"

text \<open>What arrives of a value: every string with its stray bytes replaced.\<close>

fun clean_json :: "json \<Rightarrow> json" where
  "clean_json (JStr s) = JStr (sanitize s)"
| "clean_json (JArr js) = JArr (map clean_json js)"
| "clean_json (JObj kvs) = JObj (map (\<lambda>(k, j). (sanitize k, clean_json j)) kvs)"
| "clean_json j = j"

lemma print_int_head: "\<exists>c cs. print_int i = c # cs \<and> (is_digit c \<or> c = CHR ''-'')"
proof -
  have "is_digit (hd (print_nat n))" for n
    using print_nat_digits hd_in_set [OF print_nat_nonempty] by blast
  then obtain c cs where "print_nat (nat i) = c # cs" "is_digit c"
    by (metis list.collapse print_nat_nonempty)
  then show ?thesis by (simp add: print_int_def)
qed

lemma digit_not [simp]:
  "\<not> is_digit (CHR 0x20)" "\<not> is_digit (CHR 0x09)" "\<not> is_digit (CHR 0x0A)" "\<not> is_digit (CHR 0x0D)"
  "\<not> is_digit quote" "\<not> is_digit (CHR ''{'')" "\<not> is_digit (CHR ''['')" "\<not> is_digit (CHR '']'')"
  "\<not> is_digit (CHR ''}'')" "\<not> is_digit (CHR ''n'')" "\<not> is_digit (CHR ''t'')" "\<not> is_digit (CHR ''f'')"
  "\<not> is_digit (CHR '','')" "\<not> is_digit (CHR '':'')"
  by (simp_all add: is_digit_def code_def)

lemma num_stop_sep [simp]:
  "num_stop (CHR '','' # s)" "num_stop (CHR '']'' # s)" "num_stop (CHR ''}'' # s)" "num_stop []"
  by (simp_all add: num_stop_def)

lemma skip_ws_other: "\<not> is_ws c \<Longrightarrow> skip_ws (c # s) = c # s"
  by (simp add: skip_ws_def)

lemma skip_ws_marks [simp]:
  "skip_ws (quote # s) = quote # s" "skip_ws (CHR ''{'' # s) = CHR ''{'' # s"
  "skip_ws (CHR ''['' # s) = CHR ''['' # s" "skip_ws (CHR '']'' # s) = CHR '']'' # s"
  "skip_ws (CHR ''}'' # s) = CHR ''}'' # s" "skip_ws (CHR '','' # s) = CHR '','' # s"
  "skip_ws (CHR '':'' # s) = CHR '':'' # s" "skip_ws (CHR ''n'' # s) = CHR ''n'' # s"
  "skip_ws (CHR ''t'' # s) = CHR ''t'' # s" "skip_ws (CHR ''f'' # s) = CHR ''f'' # s"
  by (simp_all add: skip_ws_other is_ws_def)

lemma print_json_head:
  assumes "num_ok j"
  shows "\<exists>c cs. print_json j = c # cs \<and> \<not> is_ws c \<and> c \<noteq> CHR '']'' \<and> c \<noteq> CHR ''}''"
proof (cases j)
  case (JNum x)
  then obtain i where "print_json j = print_int i" using assms by auto
  then obtain c cs where "print_json j = c # cs" "is_digit c \<or> c = CHR ''-''"
    using print_int_head [of i] by auto
  then show ?thesis by (auto simp: is_ws_def)
qed (auto simp: print_str_def is_ws_def)

lemma print_json_pos: "num_ok j \<Longrightarrow> 0 < length (print_json j)"
  using print_json_head by fastforce

lemma sep_by_Cons: "ws \<noteq> [] \<Longrightarrow> sep_by c (w # ws) = w @ c # sep_by c ws"
  by (cases ws) auto

abbreviation reads_back :: "nat \<Rightarrow> json \<Rightarrow> bool" where
  "reads_back d j \<equiv> \<forall>n rest. num_stop rest \<longrightarrow> 2 * length (print_json j @ rest) < n \<longrightarrow>
     parse_value n d (print_json j @ rest) = Some (clean_json j, rest)"

lemma parse_elems_print:
  assumes "js \<noteq> []" "\<forall>j \<in> set js. reads_back d j \<and> num_ok j"
    "2 * length (sep_by (CHR '','') (map print_json js) @ CHR '']'' # rest) + 1 < n"
  shows "parse_elems n d (sep_by (CHR '','') (map print_json js) @ CHR '']'' # rest) =
    Some (map clean_json js, rest)"
  using assms
proof (induction js arbitrary: n)
  case Nil
  then show ?case by simp
next
  case (Cons j js)
  obtain m where n: "n = Suc m" using Cons.prems(3) by (cases n) auto
  let ?tl = "if js = [] then CHR '']'' # rest
             else CHR '','' # sep_by (CHR '','') (map print_json js) @ CHR '']'' # rest"
  have t: "sep_by (CHR '','') (map print_json (j # js)) @ CHR '']'' # rest = print_json j @ ?tl"
    using sep_by_Cons [of "map print_json js"] by simp
  have "2 * length (print_json j @ ?tl) < m" using Cons.prems(3) unfolding t n by simp
  then have v: "parse_value m d (print_json j @ ?tl) = Some (clean_json j, ?tl)"
    using Cons.prems(2) by simp
  show ?case
  proof (cases "js = []")
    case True
    with v show ?thesis unfolding t n parse_elems.simps(2) by simp
  next
    case False
    have "2 * length (sep_by (CHR '','') (map print_json js) @ CHR '']'' # rest) + 1 < m"
      using Cons.prems(3) False unfolding t n by simp
    then have "parse_elems m d (sep_by (CHR '','') (map print_json js) @ CHR '']'' # rest) =
        Some (map clean_json js, rest)"
      using Cons.IH [OF False] Cons.prems(2) by simp
    with v False show ?thesis unfolding t n parse_elems.simps(2) by simp
  qed
qed

abbreviation print_member :: "string \<times> json \<Rightarrow> string" where
  "print_member \<equiv> \<lambda>(k, j). print_str k @ CHR '':'' # print_json j"

lemma parse_members_print:
  assumes "kvs \<noteq> []" "\<forall>(k, j) \<in> set kvs. reads_back d j \<and> num_ok j"
    "2 * length (sep_by (CHR '','') (map print_member kvs) @ CHR ''}'' # rest) + 1 < n"
  shows "parse_members n d (sep_by (CHR '','') (map print_member kvs) @ CHR ''}'' # rest) =
    Some (map (\<lambda>(k, j). (sanitize k, clean_json j)) kvs, rest)"
  using assms
proof (induction kvs arbitrary: n)
  case Nil
  then show ?case by simp
next
  case (Cons kj kvs)
  obtain k j where kj: "kj = (k, j)" by (cases kj)
  obtain m where n: "n = Suc m" using Cons.prems(3) by (cases n) auto
  let ?tl = "if kvs = [] then CHR ''}'' # rest
             else CHR '','' # sep_by (CHR '','') (map print_member kvs) @ CHR ''}'' # rest"
  have t: "sep_by (CHR '','') (map print_member (kj # kvs)) @ CHR ''}'' # rest =
      quote # quote_body k @ quote # CHR '':'' # print_json j @ ?tl"
    using sep_by_Cons [of "map print_member kvs"] by (simp add: kj print_str_def)
  have "2 * length (print_json j @ ?tl) < m" using Cons.prems(3) unfolding t n by simp
  then have v: "parse_value m d (print_json j @ ?tl) = Some (clean_json j, ?tl)"
    using Cons.prems(2) by (simp add: kj)
  show ?case
  proof (cases "kvs = []")
    case True
    with v show ?thesis unfolding t n parse_members.simps(2) by (simp add: parse_quote_body kj)
  next
    case False
    have "2 * length (sep_by (CHR '','') (map print_member kvs) @ CHR ''}'' # rest) + 1 < m"
      using Cons.prems(3) False unfolding t n by simp
    then have "parse_members m d (sep_by (CHR '','') (map print_member kvs) @ CHR ''}'' # rest) =
        Some (map (\<lambda>(k, j). (sanitize k, clean_json j)) kvs, rest)"
      using Cons.IH [OF False] Cons.prems(2) by simp
    with v False show ?thesis
      unfolding t n parse_members.simps(2) by (simp add: parse_quote_body kj)
  qed
qed

lemma Max_le: "finite A \<Longrightarrow> Suc (Max (insert 0 A)) \<le> d \<Longrightarrow> x \<in> A \<Longrightarrow> x \<le> d - 1 \<and> 0 < d"
  for x d :: nat
proof -
  assume "finite A" "Suc (Max (insert 0 A)) \<le> d" "x \<in> A"
  moreover from this have "x \<le> Max (insert 0 A)" by (intro Max_ge) simp_all
  ultimately show ?thesis by linarith
qed

lemma parse_print_value:
  assumes "num_ok j" "jdepth j \<le> d"
  shows "reads_back d j"
  using assms
proof (induction j arbitrary: d rule: print_json.induct)
  case 1
  show ?case
  proof (intro allI impI)
    fix n rest assume "2 * length (print_json JNull @ rest) < n"
    then obtain m where "n = Suc m" by (cases n) auto
    then show "parse_value n d (print_json JNull @ rest) = Some (clean_json JNull, rest)"
      by (simp add: parse_value.simps(2) lit_def)
  qed
next
  case (2 b)
  show ?case
  proof (intro allI impI)
    fix n rest assume "2 * length (print_json (JBool b) @ rest) < n"
    then obtain m where "n = Suc m" by (cases n) auto
    then show "parse_value n d (print_json (JBool b) @ rest) = Some (clean_json (JBool b), rest)"
      by (simp add: parse_value.simps(2) lit_def)
  qed
next
  case (3 x)
  then obtain i where x: "x = print_int i" by auto
  obtain c cs where c: "print_int i = c # cs" "is_digit c \<or> c = CHR ''-''" using print_int_head by blast
  have ws: "skip_ws (c # t) = c # t" for t using c(2) by (intro skip_ws_other) (auto simp: is_ws_def)
  show ?case
  proof (intro allI impI)
    fix n rest assume r: "num_stop rest" and "2 * length (print_json (JNum x) @ rest) < n"
    then obtain m where "n = Suc m" by (cases n) auto
    moreover have "lex_number (c # cs @ rest) = Some (c # cs, rest)"
      using lex_number_print [OF r, of i] unfolding c(1) by simp
    moreover have "c \<noteq> quote" "c \<noteq> CHR ''{''" "c \<noteq> CHR ''[''" "c \<noteq> CHR ''n''" "c \<noteq> CHR ''t''" "c \<noteq> CHR ''f''"
      using c(2) by auto
    ultimately show "parse_value n d (print_json (JNum x) @ rest) = Some (clean_json (JNum x), rest)"
      unfolding x c(1) print_json.simps append_Cons by (simp add: parse_value.simps(2) ws)
  qed
next
  case (4 s)
  show ?case
  proof (intro allI impI)
    fix n rest assume "2 * length (print_json (JStr s) @ rest) < n"
    then obtain m where "n = Suc m" by (cases n) auto
    then show "parse_value n d (print_json (JStr s) @ rest) = Some (clean_json (JStr s), rest)"
      by (simp add: parse_value.simps(2) print_str_def parse_quote_body)
  qed
next
  case (5 js)
  have d: "jdepth j \<le> d - 1" "0 < d" if "j \<in> set js" for j
    using "5.prems"(2) that Max_le [of "jdepth ` set js" d "jdepth j"] by auto
  have el: "\<forall>j \<in> set js. reads_back (d - 1) j \<and> num_ok j"
    using "5.IH" "5.prems"(1) d(1) by (auto simp: list_all_iff)
  show ?case
  proof (intro allI impI)
    fix n rest assume n: "2 * length (print_json (JArr js) @ rest) < n"
    then obtain m where m: "n = Suc m" by (cases n) auto
    show "parse_value n d (print_json (JArr js) @ rest) = Some (clean_json (JArr js), rest)"
    proof (cases js)
      case Nil
      with "5.prems"(2) m show ?thesis by (simp add: parse_value.simps(2))
    next
      case (Cons j0 js0)
      let ?t = "sep_by (CHR '','') (map print_json js) @ CHR '']'' # rest"
      have "parse_elems m (d - 1) ?t = Some (map clean_json js, rest)"
        using el n m Cons by (intro parse_elems_print) auto
      moreover obtain c cs where "?t = c # cs" "\<not> is_ws c" "c \<noteq> CHR '']''"
      proof -
        have "num_ok j0" using "5.prems"(1) Cons by simp
        then obtain c cs where "print_json j0 = c # cs" "\<not> is_ws c" "c \<noteq> CHR '']''"
          using print_json_head by blast
        then show thesis using that Cons by (cases js0) auto
      qed
      ultimately show ?thesis
        using d(2) [of j0] Cons by (simp add: m parse_value.simps(2) skip_ws_other del: sep_by.simps)
    qed
  qed
next
  case (6 kvs)
  have d: "jdepth j \<le> d - 1" "0 < d" if "(k, j) \<in> set kvs" for k j
    using "6.prems"(2) that Max_le [of "(\<lambda>(k, j). jdepth j) ` set kvs" d "jdepth j"] by force+
  have el: "\<forall>(k, j) \<in> set kvs. reads_back (d - 1) j \<and> num_ok j"
    using "6.IH" "6.prems"(1) d(1) by (fastforce simp: list_all_iff)
  show ?case
  proof (intro allI impI)
    fix n rest assume n: "2 * length (print_json (JObj kvs) @ rest) < n"
    then obtain m where m: "n = Suc m" by (cases n) auto
    show "parse_value n d (print_json (JObj kvs) @ rest) = Some (clean_json (JObj kvs), rest)"
    proof (cases kvs)
      case Nil
      with "6.prems"(2) m show ?thesis by (simp add: parse_value.simps(2))
    next
      case (Cons kj kvs0)
      let ?t = "sep_by (CHR '','') (map print_member kvs) @ CHR ''}'' # rest"
      have "parse_members m (d - 1) ?t = Some (map (\<lambda>(k, j). (sanitize k, clean_json j)) kvs, rest)"
        using el n m Cons by (intro parse_members_print) auto
      moreover obtain cs where "?t = quote # cs"
        using Cons by (cases kvs0; cases kj) (auto simp: print_str_def)
      ultimately show ?thesis
        using d(2) [of "fst kj" "snd kj"] Cons by (simp add: m parse_value.simps(2) del: sep_by.simps)
    qed
  qed
qed

lemma parse_print_json:
  assumes "num_ok j" "jdepth j \<le> maxNestingDepth"
  shows "parse_json (print_json j) = Some (clean_json j)"
proof -
  have "parse_value (2 * length (print_json j) + 2) maxNestingDepth (print_json j @ []) = Some (clean_json j, [])"
    using parse_print_value [OF assms] by (metis add_less_cancel_left append_Nil2 num_stop_sep(4)
        less_add_same_cancel1 zero_less_numeral)
  then show ?thesis by (simp add: parse_json_def skip_ws_def)
qed

section \<open>Base64\<close>

definition b64_alphabet :: string where
  "b64_alphabet = ''ABCDEFGHIJKLMNOPQRSTUVWXYZabcdefghijklmnopqrstuvwxyz0123456789+/''"

definition b64_char :: "nat \<Rightarrow> char" where
  "b64_char i = b64_alphabet ! i"

definition b64_val :: "char \<Rightarrow> nat option" where
  "b64_val c = map_of (zip b64_alphabet [0..<64]) c"

definition b64_pad :: char where "b64_pad = CHR ''=''"

fun b64_enc :: "byte list \<Rightarrow> string" where
  "b64_enc [] = []"
| "b64_enc [a] =
     (let n = unat a * 16 in [b64_char (n div 64), b64_char (n mod 64), b64_pad, b64_pad])"
| "b64_enc [a, b] =
     (let n = (unat a * 256 + unat b) * 4
      in [b64_char (n div 4096), b64_char (n div 64 mod 64), b64_char (n mod 64), b64_pad])"
| "b64_enc (a # b # c # rest) =
     (let n = (unat a * 256 + unat b) * 256 + unat c
      in b64_char (n div 262144) # b64_char (n div 4096 mod 64) # b64_char (n div 64 mod 64) #
         b64_char (n mod 64) # b64_enc rest)"

text \<open>\<open>StdEncoding.Decode\<close> after it has skipped line breaks: groups of four, with padding only in the
  last one; the unused bits of a padded group are ignored.\<close>

fun b64_groups :: "string \<Rightarrow> byte list option" where
  "b64_groups [] = Some []"
| "b64_groups (p # q # r # t # rest) =
     (case (b64_val p, b64_val q) of
        (Some w, Some x) \<Rightarrow>
          (case (b64_val r, b64_val t) of
             (Some y, Some z) \<Rightarrow>
               (let n = ((w * 64 + x) * 64 + y) * 64 + z
                in map_option (\<lambda>bs. of_nat (n div 65536) # of_nat (n div 256 mod 256) # of_nat (n mod 256) # bs)
                     (b64_groups rest))
           | (Some y, None) \<Rightarrow>
               if t = b64_pad \<and> rest = []
               then (let n = ((w * 64 + x) * 64 + y) div 4 in Some [of_nat (n div 256), of_nat (n mod 256)])
               else None
           | (None, _) \<Rightarrow>
               if r = b64_pad \<and> t = b64_pad \<and> rest = [] then Some [of_nat ((w * 64 + x) div 16)] else None)
      | _ \<Rightarrow> None)"
| "b64_groups _ = None"

definition b64_dec :: "string \<Rightarrow> byte list option" where
  "b64_dec s = b64_groups (filter (\<lambda>c. c \<noteq> CHR 0x0A \<and> c \<noteq> CHR 0x0D) s)"

lemma alphabet_facts: "distinct b64_alphabet" "length b64_alphabet = 64"
  by (simp_all add: b64_alphabet_def)

lemma b64_val_char: "i < 64 \<Longrightarrow> b64_val (b64_char i) = Some i"
proof -
  assume i: "i < 64"
  note d = alphabet_facts
  have "map_of (zip b64_alphabet [0..<64]) (b64_alphabet ! i) = Some ([0..<64] ! i)"
    using i d by (intro map_of_zip_nth) auto
  with i show ?thesis by (simp add: b64_val_def b64_char_def)
qed

lemma b64_val_pad: "b64_val b64_pad = None"
proof -
  have "b64_pad \<notin> set b64_alphabet" by (simp add: b64_pad_def b64_alphabet_def)
  moreover have "fst ` set (zip b64_alphabet [0..<64]) \<subseteq> set b64_alphabet"
    by (auto dest: set_zip_leftD)
  ultimately have "b64_pad \<notin> fst ` set (zip b64_alphabet [0..<64])" by blast
  then show ?thesis by (simp add: b64_val_def map_of_eq_None_iff)
qed

lemma b64_char_no_break: "i < 64 \<Longrightarrow> b64_char i \<noteq> CHR 0x0A \<and> b64_char i \<noteq> CHR 0x0D"
proof -
  assume "i < 64"
  then have "b64_char i \<in> set b64_alphabet" by (simp add: b64_char_def alphabet_facts nth_mem)
  then show ?thesis by (auto simp: b64_alphabet_def)
qed

lemma unat_byte: "unat (b :: byte) < 256"
  using unsigned_less [of b] by simp

lemma of_nat_byte: "(of_nat (unat (b :: byte)) :: byte) = b"
  by simp

lemma div_mod_256: "y < 256 \<Longrightarrow> (x * 256 + y) div 256 = x \<and> (x * 256 + y) mod 256 = y" for x y :: nat
  by simp

lemma b64_groups_enc: "b64_groups (b64_enc bs) = Some bs"
proof (induction bs rule: b64_enc.induct)
  case (2 a)
  define n where "n = unat a * 16"
  have e: "b64_enc [a] = [b64_char (n div 64), b64_char (n mod 64), b64_pad, b64_pad]"
    by (simp add: n_def Let_def)
  have lt: "n div 64 < 64" "n mod 64 < 64" using unat_byte [of a] by (auto simp: n_def)
  have "n div 16 = unat a" by (simp add: n_def)
  moreover have "n div 64 * 64 + n mod 64 = n" by simp
  ultimately have "(n div 64 * 64 + n mod 64) div 16 = unat a" by (simp only:)
  then show ?case using lt unfolding e by (simp add: b64_val_char b64_val_pad)
next
  case (3 a b)
  define n where "n = (unat a * 256 + unat b) * 4"
  have e: "b64_enc [a, b] = [b64_char (n div 4096), b64_char (n div 64 mod 64), b64_char (n mod 64), b64_pad]"
    by (simp add: n_def Let_def)
  have lt: "n div 4096 < 64" "n div 64 mod 64 < 64" "n mod 64 < 64"
    using unat_byte [of a] unat_byte [of b] by (auto simp: n_def)
  have "n div 4096 * 64 + n div 64 mod 64 = n div 64"
    using div_mult2_eq [of n 64 64] div_mult_mod_eq [of "n div 64" 64] by simp
  then have n: "(n div 4096 * 64 + n div 64 mod 64) * 64 + n mod 64 = n" by simp
  have q: "n div 4 = unat a * 256 + unat b" by (simp add: n_def)
  have "n div 4 div 256 = unat a" "n div 4 mod 256 = unat b" using unat_byte [of b] by (simp_all add: q)
  moreover have "4096 * (n div 4096) + n div 64 mod 64 * 64 + n mod 64 = n" using n by simp
  ultimately show ?case using lt unfolding e by (simp add: Let_def b64_val_char b64_val_pad)
next
  case (4 a b c rest)
  define n where "n = (unat a * 256 + unat b) * 256 + unat c"
  have e: "b64_enc (a # b # c # rest) = b64_char (n div 262144) # b64_char (n div 4096 mod 64) #
      b64_char (n div 64 mod 64) # b64_char (n mod 64) # b64_enc rest"
    by (simp add: n_def Let_def)
  have lt: "n div 262144 < 64" "n div 4096 mod 64 < 64" "n div 64 mod 64 < 64" "n mod 64 < 64"
    using unat_byte [of a] unat_byte [of b] unat_byte [of c] by (auto simp: n_def)
  have "n div 262144 * 64 + n div 4096 mod 64 = n div 4096"
    using div_mult2_eq [of n 4096 64] div_mult_mod_eq [of "n div 4096" 64] by simp
  moreover have "n div 4096 * 64 + n div 64 mod 64 = n div 64"
    using div_mult2_eq [of n 64 64] div_mult_mod_eq [of "n div 64" 64] by simp
  ultimately have n: "((n div 262144 * 64 + n div 4096 mod 64) * 64 + n div 64 mod 64) * 64 + n mod 64 = n"
    by simp
  have q: "n div 256 = unat a * 256 + unat b" "n mod 256 = unat c"
    using div_mod_256 [OF unat_byte [of c], of "unat a * 256 + unat b"] by (simp_all only: n_def)
  then have "n div 256 div 256 = unat a" "n div 256 mod 256 = unat b"
    using div_mod_256 [OF unat_byte [of b], of "unat a"] by (simp_all only: q)
  then have "n div 65536 = unat a" "n div 256 mod 256 = unat b" "n mod 256 = unat c"
    using q(2) by (simp_all add: div_mult2_eq [of n 256 256, simplified])
  moreover have "262144 * (n div 262144) + 4096 * (n div 4096 mod 64) + n div 64 mod 64 * 64 + n mod 64 = n"
    using n by simp
  ultimately show ?case using lt "4.IH" unfolding e by (simp add: Let_def b64_val_char)
qed simp

lemma b64_enc_no_break: "\<forall>c \<in> set (b64_enc bs). c \<noteq> CHR 0x0A \<and> c \<noteq> CHR 0x0D"
proof (induction bs rule: b64_enc.induct)
  case (2 a)
  have "unat a * 16 div 64 < 64" "unat a * 16 mod 64 < 64" using unat_byte [of a] by auto
  then show ?case using b64_char_no_break by (simp add: Let_def b64_pad_def)
next
  case (3 a b)
  let ?n = "(unat a * 256 + unat b) * 4"
  have "?n div 4096 < 64" "?n div 64 mod 64 < 64" "?n mod 64 < 64"
    using unat_byte [of a] unat_byte [of b] by auto
  then show ?case using b64_char_no_break by (simp add: Let_def b64_pad_def)
next
  case (4 a b c rest)
  let ?n = "(unat a * 256 + unat b) * 256 + unat c"
  have "?n div 262144 < 64" "?n div 4096 mod 64 < 64" "?n div 64 mod 64 < 64" "?n mod 64 < 64"
    using unat_byte [of a] unat_byte [of b] unat_byte [of c] by auto
  then show ?case using b64_char_no_break 4 by (simp add: Let_def)
qed simp

lemma b64_round_trip [simp]: "b64_dec (b64_enc bs) = Some bs"
proof -
  have "filter (\<lambda>c. c \<noteq> CHR 0x0A \<and> c \<noteq> CHR 0x0D) (b64_enc bs) = b64_enc bs"
    using b64_enc_no_break [of bs] by (simp add: filter_id_conv)
  then show ?thesis by (simp add: b64_dec_def b64_groups_enc)
qed

section \<open>Decoding into Go values\<close>

text \<open>
  \<open>Unmarshal\<close> stores into a value that is there already: a \<open>null\<close> leaves a string, a number, an array
  or a struct as it is and empties a pointer or a slice; a key no field has is skipped; a value of
  the wrong kind or out of range is an error, here \<open>None\<close>. Keys match fields up to the case folding
  of package json, which also takes the long s and the Kelvin sign for s and k.
\<close>

type_synonym 'a decoder = "json \<Rightarrow> 'a \<Rightarrow> 'a option"

definition lower :: "char \<Rightarrow> char" where
  "lower c = (if 65 \<le> code c \<and> code c \<le> 90 then chr_of (code c + 32) else c)"

fun fold_key :: "string \<Rightarrow> string" where
  "fold_key [] = []"
| "fold_key (a # cs) =
     (case cs of
        b # cs1 \<Rightarrow>
          if a = CHR 0xC5 \<and> b = CHR 0xBF then CHR ''s'' # fold_key cs1
          else (case cs1 of
                  c # cs2 \<Rightarrow>
                    if a = CHR 0xE2 \<and> b = CHR 0x84 \<and> c = CHR 0xAA then CHR ''k'' # fold_key cs2
                    else lower a # fold_key cs
                | [] \<Rightarrow> lower a # fold_key cs)
      | [] \<Rightarrow> [lower a])"

fun dec_string :: "string decoder" where
  "dec_string JNull old = Some old"
| "dec_string (JStr s) old = Some s"
| "dec_string _ old = None"

definition all_digits :: "string \<Rightarrow> bool" where
  "all_digits s \<longleftrightarrow> s \<noteq> [] \<and> list_all is_digit s"

fun dec_uint :: "('w :: len word) decoder" where
  "dec_uint JNull old = Some old"
| "dec_uint (JNum x) old =
     (if all_digits x \<and> parse_nat x < 2 ^ LENGTH('w) then Some (of_nat (parse_nat x)) else None)"
| "dec_uint _ old = None"

fun dec_int64 :: "int decoder" where
  "dec_int64 JNull old = Some old"
| "dec_int64 (JNum x) old =
     (if all_digits x \<and> parse_nat x < 2 ^ 63 then Some (int (parse_nat x))
      else if x \<noteq> [] \<and> hd x = CHR ''-'' \<and> all_digits (tl x) \<and> parse_nat (tl x) \<le> 2 ^ 63
      then Some (- int (parse_nat (tl x)))
      else None)"
| "dec_int64 _ old = None"

fun dec_each :: "'a decoder \<Rightarrow> 'a \<Rightarrow> json list \<Rightarrow> 'a list option" where
  "dec_each d z [] = Some []"
| "dec_each d z (j # js) =
     (case d j z of None \<Rightarrow> None | Some x \<Rightarrow> map_option ((#) x) (dec_each d z js))"

text \<open>A slice that was there is overwritten; the program never decodes into a slice that is not empty.\<close>

fun dec_slice :: "'a decoder \<Rightarrow> 'a \<Rightarrow> 'a list decoder" where
  "dec_slice d z JNull old = Some []"
| "dec_slice d z (JArr js) old = dec_each d z js"
| "dec_slice d z _ old = None"

text \<open>A byte slice is read from base64 text, or element by element from an array of numbers.\<close>

fun dec_bytes :: "byte list decoder" where
  "dec_bytes (JStr s) old = b64_dec s"
| "dec_bytes j old = dec_slice dec_uint 0 j old"

text \<open>A fixed array takes as many elements as it has and is zero beyond them.\<close>

fun dec_fill :: "byte list \<Rightarrow> json list \<Rightarrow> byte list option" where
  "dec_fill [] js = Some []"
| "dec_fill (b # bs) [] = Some (replicate (Suc (length bs)) 0)"
| "dec_fill (b # bs) (j # js) =
     (case dec_uint j b of None \<Rightarrow> None | Some x \<Rightarrow> map_option ((#) x) (dec_fill bs js))"

fun dec_array :: "byte list decoder" where
  "dec_array JNull old = Some old"
| "dec_array (JArr js) old = dec_fill old js"
| "dec_array _ old = None"

fun dec_ptr :: "'a decoder \<Rightarrow> 'a \<Rightarrow> 'a option decoder" where
  "dec_ptr d z JNull old = Some None"
| "dec_ptr d z j old = map_option Some (d j (case old of None \<Rightarrow> z | Some x \<Rightarrow> x))"

text \<open>A struct is a list of fields, each a name and what its value does to the struct.\<close>

type_synonym 'r fields = "(string \<times> (json \<Rightarrow> 'r \<Rightarrow> 'r option)) list"

definition field :: "string \<Rightarrow> 'a decoder \<Rightarrow> ('r \<Rightarrow> 'a) \<Rightarrow> (('a \<Rightarrow> 'a) \<Rightarrow> 'r \<Rightarrow> 'r) \<Rightarrow>
    string \<times> (json \<Rightarrow> 'r \<Rightarrow> 'r option)" where
  "field name d get upd = (fold_key name, \<lambda>j r. map_option (\<lambda>x. upd (\<lambda>_. x) r) (d j (get r)))"

fun dec_members :: "'r fields \<Rightarrow> (string \<times> json) list \<Rightarrow> 'r \<Rightarrow> 'r option" where
  "dec_members fs [] r = Some r"
| "dec_members fs ((k, j) # kvs) r =
     (case map_of fs (fold_key k) of
        None \<Rightarrow> dec_members fs kvs r
      | Some f \<Rightarrow> (case f j r of None \<Rightarrow> None | Some r1 \<Rightarrow> dec_members fs kvs r1))"

fun dec_struct :: "'r fields \<Rightarrow> 'r decoder" where
  "dec_struct fs JNull old = Some old"
| "dec_struct fs (JObj kvs) old = dec_members fs kvs old"
| "dec_struct fs _ old = None"

section \<open>Encoding Go values\<close>

definition enc_uint :: "('w :: len word) \<Rightarrow> json" where
  "enc_uint w = JNum (print_nat (unat w))"

definition enc_int64 :: "int \<Rightarrow> json" where
  "enc_int64 i = JNum (print_int i)"

definition enc_bytes :: "byte list \<Rightarrow> json" where
  "enc_bytes bs = JStr (b64_enc bs)"

definition enc_array :: "byte list \<Rightarrow> json" where
  "enc_array bs = JArr (map enc_uint bs)"

definition enc_ptr :: "('a \<Rightarrow> json) \<Rightarrow> 'a option \<Rightarrow> json" where
  "enc_ptr e x = (case x of None \<Rightarrow> JNull | Some y \<Rightarrow> e y)"

definition enc_slice :: "('a \<Rightarrow> json) \<Rightarrow> 'a list \<Rightarrow> json" where
  "enc_slice e xs = JArr (map e xs)"

text \<open>A field with the option \<open>omitempty\<close>.\<close>

definition opt_field :: "string \<Rightarrow> bool \<Rightarrow> json \<Rightarrow> (string \<times> json) list" where
  "opt_field k present j = (if present then [(k, j)] else [])"

lemma all_digits_print: "all_digits (print_nat n)"
  using print_nat_digits [of n] by (simp add: all_digits_def list_all_iff)

lemma dec_enc_uint [simp]: "dec_uint (enc_uint w) old = Some (w :: 'w :: len word)"
  using unsigned_less [of w] by (simp add: enc_uint_def all_digits_print)

lemma print_nat_no_minus: "all_digits (CHR ''-'' # s) = False"
  by (simp add: all_digits_def is_digit_def code_def)

lemma dec_enc_int64 [simp]:
  assumes "- (2 ^ 63) \<le> i" "i < 2 ^ 63"
  shows "dec_int64 (enc_int64 i) old = Some i"
proof (cases "i < 0")
  case True
  with assms have "nat (- i) \<le> 2 ^ 63" by (simp add: nat_le_iff)
  with True show ?thesis by (simp add: enc_int64_def print_int_def print_nat_no_minus all_digits_print)
next
  case False
  with assms have "nat i < 2 ^ 63" by (simp add: nat_less_iff)
  with False show ?thesis by (simp add: enc_int64_def print_int_def all_digits_print)
qed

lemma dec_enc_bytes [simp]: "dec_bytes (enc_bytes bs) old = Some bs"
  by (simp add: enc_bytes_def)

lemma dec_enc_array [simp]:
  "length bs = length old \<Longrightarrow> dec_array (enc_array bs) old = Some bs"
proof -
  have "length bs = length old \<Longrightarrow> dec_fill old (map enc_uint bs) = Some bs"
  proof (induction bs arbitrary: old)
    case (Cons b bs)
    then show ?case by (cases old) auto
  qed simp
  then show "length bs = length old \<Longrightarrow> dec_array (enc_array bs) old = Some bs" by (simp add: enc_array_def)
qed

lemma dec_enc_slice:
  assumes "\<And>x. x \<in> set xs \<Longrightarrow> d (e x) z = Some x"
  shows "dec_slice d z (enc_slice e xs) old = Some xs"
proof -
  have "dec_each d z (map e xs) = Some xs" using assms by (induction xs) auto
  then show ?thesis by (simp add: enc_slice_def)
qed

lemma dec_enc_ptr:
  assumes "\<And>y. x = Some y \<Longrightarrow> e y \<noteq> JNull \<and> d (e y) z = Some y"
  shows "dec_ptr d z (enc_ptr e x) None = Some x"
proof (cases x)
  case (Some y)
  with assms have "e y \<noteq> JNull" "d (e y) z = Some y" by auto
  with Some show ?thesis by (cases "e y") (auto simp: enc_ptr_def)
qed (simp add: enc_ptr_def)

end
