(* ===== verification/Codec.thy ===== *)
theory Codec
  imports Json Sha256
begin

text \<open>
  \<open>protocol/codec.go\<close> and \<open>protocol/json.go\<close>: messages as length-prefixed frames. A frame is the type
  byte, the payload length in four bytes, most significant first, and the payload as JSON text. The
  struct tags of \<open>protocol/message.go\<close> are the field lists below. A nil slice and an empty one are not
  told apart: the lists of operations and changes, which the program grows from nil, print as
  \<open>null\<close> when they are empty; entries and bytes print as \<open>[]\<close> and as an empty string.
\<close>

section \<open>Payload structs as JSON\<close>

definition enc_FileEntry :: "FileEntry \<Rightarrow> json" where
  "enc_FileEntry e = JObj
     [(''path'', JStr (fe_Path e)), (''entryType'', enc_uint (fe_EntryType e)),
      (''mode'', enc_uint (fe_Mode e)), (''uid'', enc_uint (fe_UID e)), (''gid'', enc_uint (fe_GID e)),
      (''mtime'', enc_int64 (fe_MTime e)), (''atime'', enc_int64 (fe_ATime e)),
      (''size'', enc_uint (fe_Size e)), (''contentHash'', enc_array (fe_ContentHash e)),
      (''seq'', enc_uint (fe_Seq e))]"

definition dec_FileEntry :: "FileEntry decoder" where
  "dec_FileEntry = dec_struct
     [field ''path'' dec_string fe_Path fe_Path_update,
      field ''entryType'' dec_uint fe_EntryType fe_EntryType_update,
      field ''mode'' dec_uint fe_Mode fe_Mode_update,
      field ''uid'' dec_uint fe_UID fe_UID_update,
      field ''gid'' dec_uint fe_GID fe_GID_update,
      field ''mtime'' dec_int64 fe_MTime fe_MTime_update,
      field ''atime'' dec_int64 fe_ATime fe_ATime_update,
      field ''size'' dec_uint fe_Size fe_Size_update,
      field ''contentHash'' dec_array fe_ContentHash fe_ContentHash_update,
      field ''seq'' dec_uint fe_Seq fe_Seq_update]"

abbreviation dec_entry_ptr :: "FileEntry option decoder" where
  "dec_entry_ptr \<equiv> dec_ptr dec_FileEntry blank_entry"

definition enc_FileDataChunk :: "FileDataChunk \<Rightarrow> json" where
  "enc_FileDataChunk c = JObj
     [(''path'', JStr (fd_Path c)), (''flags'', enc_uint (fd_Flags c)),
      (''offset'', enc_uint (fd_Offset c)), (''data'', enc_bytes (fd_Data c))]"

definition dec_FileDataChunk :: "FileDataChunk decoder" where
  "dec_FileDataChunk = dec_struct
     [field ''path'' dec_string fd_Path fd_Path_update,
      field ''flags'' dec_uint fd_Flags fd_Flags_update,
      field ''offset'' dec_uint fd_Offset fd_Offset_update,
      field ''data'' dec_bytes fd_Data fd_Data_update]"

definition enc_ChangeEvent :: "ChangeEvent \<Rightarrow> json" where
  "enc_ChangeEvent c = JObj
     ([(''type'', JStr (ce_Type c))] @
      opt_field ''entry'' (ce_Entry c \<noteq> None) (enc_ptr enc_FileEntry (ce_Entry c)) @
      opt_field ''path'' (ce_Path c \<noteq> []) (JStr (ce_Path c)) @
      opt_field ''oldPath'' (ce_OldPath c \<noteq> []) (JStr (ce_OldPath c)) @
      opt_field ''newPath'' (ce_NewPath c \<noteq> []) (JStr (ce_NewPath c)))"

definition dec_ChangeEvent :: "ChangeEvent decoder" where
  "dec_ChangeEvent = dec_struct
     [field ''type'' dec_string ce_Type ce_Type_update,
      field ''entry'' dec_entry_ptr ce_Entry ce_Entry_update,
      field ''path'' dec_string ce_Path ce_Path_update,
      field ''oldPath'' dec_string ce_OldPath ce_OldPath_update,
      field ''newPath'' dec_string ce_NewPath ce_NewPath_update]"

definition enc_SyncOp :: "SyncOp \<Rightarrow> json" where
  "enc_SyncOp p = JObj
     ([(''type'', JStr (op_Type p))] @
      opt_field ''entry'' (op_Entry p \<noteq> None) (enc_ptr enc_FileEntry (op_Entry p)) @
      opt_field ''path'' (op_Path p \<noteq> []) (JStr (op_Path p)) @
      opt_field ''oldPath'' (op_OldPath p \<noteq> []) (JStr (op_OldPath p)) @
      opt_field ''newPath'' (op_NewPath p \<noteq> []) (JStr (op_NewPath p)) @
      opt_field ''chunk'' (op_Chunk p \<noteq> []) (enc_bytes (op_Chunk p)) @
      opt_field ''chunkOff'' (op_ChunkOff p \<noteq> 0) (enc_uint (op_ChunkOff p)) @
      opt_field ''chunkLen'' (op_ChunkLen p \<noteq> 0) (enc_uint (op_ChunkLen p)) @
      opt_field ''chunkFlags'' (op_ChunkFlags p \<noteq> 0) (enc_uint (op_ChunkFlags p)))"

definition dec_SyncOp :: "SyncOp decoder" where
  "dec_SyncOp = dec_struct
     [field ''type'' dec_string op_Type op_Type_update,
      field ''entry'' dec_entry_ptr op_Entry op_Entry_update,
      field ''path'' dec_string op_Path op_Path_update,
      field ''oldPath'' dec_string op_OldPath op_OldPath_update,
      field ''newPath'' dec_string op_NewPath op_NewPath_update,
      field ''chunk'' dec_bytes op_Chunk op_Chunk_update,
      field ''chunkOff'' dec_uint op_ChunkOff op_ChunkOff_update,
      field ''chunkLen'' dec_uint op_ChunkLen op_ChunkLen_update,
      field ''chunkFlags'' dec_uint op_ChunkFlags op_ChunkFlags_update]"

definition enc_HelloPayload :: "HelloPayload \<Rightarrow> json" where
  "enc_HelloPayload p = JObj
     [(''clientId'', JStr (hp_ClientID p)), (''syncDir'', JStr (hp_SyncDir p)), (''version'', JStr (hp_Version p))]"

definition dec_HelloPayload :: "HelloPayload decoder" where
  "dec_HelloPayload = dec_struct
     [field ''clientId'' dec_string hp_ClientID hp_ClientID_update,
      field ''syncDir'' dec_string hp_SyncDir hp_SyncDir_update,
      field ''version'' dec_string hp_Version hp_Version_update]"

definition enc_HelloAckPayload :: "HelloAckPayload \<Rightarrow> json" where
  "enc_HelloAckPayload p = JObj
     [(''serverId'', JStr (ha_ServerID p)), (''clientId'', enc_uint (ha_ClientID p)), (''status'', enc_uint (ha_Status p))]"

definition dec_HelloAckPayload :: "HelloAckPayload decoder" where
  "dec_HelloAckPayload = dec_struct
     [field ''serverId'' dec_string ha_ServerID ha_ServerID_update,
      field ''clientId'' dec_uint ha_ClientID ha_ClientID_update,
      field ''status'' dec_uint ha_Status ha_Status_update]"

definition enc_AckPayload :: "AckPayload \<Rightarrow> json" where
  "enc_AckPayload p = JObj [(''seq'', enc_uint (ack_Seq p)), (''status'', enc_uint (ack_Status p))]"

definition dec_AckPayload :: "AckPayload decoder" where
  "dec_AckPayload = dec_struct
     [field ''seq'' dec_uint ack_Seq ack_Seq_update, field ''status'' dec_uint ack_Status ack_Status_update]"

definition enc_SyncTree :: "SyncTree \<Rightarrow> json" where
  "enc_SyncTree t = JObj [(''entries'', enc_slice (enc_ptr enc_FileEntry) (st_Entries t))]"

definition dec_SyncTree :: "SyncTree decoder" where
  "dec_SyncTree = dec_struct
     [field ''entries'' (dec_slice dec_entry_ptr None) st_Entries st_Entries_update]"

definition enc_nil_slice :: "('a \<Rightarrow> json) \<Rightarrow> 'a list \<Rightarrow> json" where
  "enc_nil_slice e xs = (if xs = [] then JNull else enc_slice e xs)"

definition enc_SyncDiff :: "SyncDiff \<Rightarrow> json" where
  "enc_SyncDiff t = JObj [(''changes'', enc_nil_slice (enc_ptr enc_ChangeEvent) (sd_Changes t))]"

definition dec_SyncDiff :: "SyncDiff decoder" where
  "dec_SyncDiff = dec_struct
     [field ''changes'' (dec_slice (dec_ptr dec_ChangeEvent blank_event) None) sd_Changes sd_Changes_update]"

definition enc_SyncApply :: "SyncApply \<Rightarrow> json" where
  "enc_SyncApply t = JObj [(''ops'', enc_nil_slice (enc_ptr enc_SyncOp) (sa_Ops t))]"

definition dec_SyncApply :: "SyncApply decoder" where
  "dec_SyncApply = dec_struct
     [field ''ops'' (dec_slice (dec_ptr dec_SyncOp blank_op) None) sa_Ops sa_Ops_update]"

definition enc_ErrorPayload :: "ErrorPayload \<Rightarrow> json" where
  "enc_ErrorPayload p = JObj [(''code'', enc_uint (err_Code p)), (''message'', JStr (err_Message p))]"

definition dec_ErrorPayload :: "ErrorPayload decoder" where
  "dec_ErrorPayload = dec_struct
     [field ''code'' dec_uint err_Code err_Code_update, field ''message'' dec_string err_Message err_Message_update]"

definition enc_FileMoveData :: "FileMoveData \<Rightarrow> json" where
  "enc_FileMoveData p = JObj
     [(''oldPath'', JStr (mv_OldPath p)), (''newPath'', JStr (mv_NewPath p)),
      (''entry'', enc_ptr enc_FileEntry (mv_Entry p))]"

definition dec_FileMoveData :: "FileMoveData decoder" where
  "dec_FileMoveData = dec_struct
     [field ''oldPath'' dec_string mv_OldPath mv_OldPath_update,
      field ''newPath'' dec_string mv_NewPath mv_NewPath_update,
      field ''entry'' dec_entry_ptr mv_Entry mv_Entry_update]"

section \<open>Encoding\<close>

definition HeaderSize :: nat where "HeaderSize = 5"

definition MaxFrameSize :: nat where "MaxFrameSize = 16 * 1024 * 1024"

text \<open>What \<open>payload()\<close> hands to \<open>json.Marshal\<close>: the pointer or string of the message's type, or nil.\<close>

definition payload :: "Message \<Rightarrow> json" where
  "payload m =
     (let t = m_Type m
      in if t = MSG_HELLO then enc_ptr enc_HelloPayload (m_Hello m)
         else if t = MSG_HELLO_ACK then enc_ptr enc_HelloAckPayload (m_HelloAck m)
         else if t = MSG_SYNC_INIT then enc_ptr enc_SyncTree (m_SyncInit m)
         else if t = MSG_SYNC_INIT_ACK then enc_ptr enc_SyncTree (m_SyncInitAck m)
         else if t = MSG_FILE_CREATE then enc_ptr enc_FileEntry (m_FileCreate m)
         else if t = MSG_FILE_DATA then enc_ptr enc_FileDataChunk (m_FileData m)
         else if t = MSG_FILE_MODIFY then enc_ptr enc_FileEntry (m_FileModify m)
         else if t = MSG_FILE_DELETE then JStr (m_FileDelete m)
         else if t = MSG_FILE_MOVE then enc_ptr enc_FileMoveData (m_FileMove m)
         else if t = MSG_ACK then enc_ptr enc_AckPayload (m_Ack m)
         else if t = MSG_SYNC_DIFF then enc_ptr enc_SyncDiff (m_SyncDiff m)
         else if t = MSG_SYNC_APPLY then enc_ptr enc_SyncApply (m_SyncApply m)
         else if t = MSG_ERROR then enc_ptr enc_ErrorPayload (m_Error m)
         else JNull)"

text \<open>Marshalling these types reports no error.\<close>

definition jsonMarshal :: "json \<Rightarrow> byte list res" where
  "jsonMarshal j = Inr (str_bytes (print_json j))"

definition Encode :: "Message \<Rightarrow> byte list res" where
  "Encode msg =
     (if m_Type msg = MSG_PING \<or> m_Type msg = MSG_PONG then Inr (m_Type msg # PutUint32 0)
      else
        (case jsonMarshal (payload msg) of
           Inl err \<Rightarrow> Inl (Wrap ''encode payload'' err)
         | Inr p \<Rightarrow>
             if length p > MaxFrameSize then Inl (Wrap ''frame size'' ErrFrameTooLarge)
             else Inr (m_Type msg # PutUint32 (of_nat (length p)) @ p)))"

section \<open>Decoding\<close>

definition jsonUnmarshal :: "'a decoder \<Rightarrow> byte list \<Rightarrow> 'a \<Rightarrow> 'a res" where
  "jsonUnmarshal d data v =
     (case parse_json (bytes_str data) of
        None \<Rightarrow> Inl (Wrap ''json unmarshal'' (ErrMsg ''invalid JSON''))
      | Some j \<Rightarrow>
          (case d j v of
             None \<Rightarrow> Inl (Wrap ''json unmarshal'' (ErrMsg ''cannot unmarshal value''))
           | Some x \<Rightarrow> Inr x))"

definition map_res :: "('a \<Rightarrow> 'b) \<Rightarrow> 'a res \<Rightarrow> 'b res" where
  "map_res f r = (case r of Inl e \<Rightarrow> Inl e | Inr x \<Rightarrow> Inr (f x))"

text \<open>The zero structs \<open>&HelloPayload{}\<close> and so on that are decoded into.\<close>

definition blank_hello :: HelloPayload where "blank_hello = \<lparr>hp_ClientID = [], hp_SyncDir = [], hp_Version = []\<rparr>"
definition blank_hello_ack :: HelloAckPayload where "blank_hello_ack = \<lparr>ha_ServerID = [], ha_ClientID = 0, ha_Status = 0\<rparr>"
definition blank_ack :: AckPayload where "blank_ack = \<lparr>ack_Seq = 0, ack_Status = 0\<rparr>"
definition blank_chunk :: FileDataChunk where "blank_chunk = \<lparr>fd_Path = [], fd_Flags = 0, fd_Offset = 0, fd_Data = []\<rparr>"
definition blank_move :: FileMoveData where "blank_move = \<lparr>mv_OldPath = [], mv_NewPath = [], mv_Entry = None\<rparr>"
definition blank_error :: ErrorPayload where "blank_error = \<lparr>err_Code = 0, err_Message = []\<rparr>"

definition parseMessage :: "byte \<Rightarrow> byte list \<Rightarrow> Message res" where
  "parseMessage t p =
     (let msg = blank_msg t
      in if t = MSG_HELLO then
           map_res (\<lambda>x. msg\<lparr>m_Hello := Some x\<rparr>) (jsonUnmarshal dec_HelloPayload p blank_hello)
         else if t = MSG_HELLO_ACK then
           map_res (\<lambda>x. msg\<lparr>m_HelloAck := Some x\<rparr>) (jsonUnmarshal dec_HelloAckPayload p blank_hello_ack)
         else if t = MSG_SYNC_INIT then
           map_res (\<lambda>x. msg\<lparr>m_SyncInit := Some x\<rparr>) (jsonUnmarshal dec_SyncTree p \<lparr>st_Entries = []\<rparr>)
         else if t = MSG_SYNC_INIT_ACK then
           map_res (\<lambda>x. msg\<lparr>m_SyncInitAck := Some x\<rparr>) (jsonUnmarshal dec_SyncTree p \<lparr>st_Entries = []\<rparr>)
         else if t = MSG_FILE_CREATE then
           map_res (\<lambda>x. msg\<lparr>m_FileCreate := Some x\<rparr>) (jsonUnmarshal dec_FileEntry p blank_entry)
         else if t = MSG_FILE_DATA then
           map_res (\<lambda>x. msg\<lparr>m_FileData := Some x\<rparr>) (jsonUnmarshal dec_FileDataChunk p blank_chunk)
         else if t = MSG_FILE_MODIFY then
           map_res (\<lambda>x. msg\<lparr>m_FileModify := Some x\<rparr>) (jsonUnmarshal dec_FileEntry p blank_entry)
         else if t = MSG_FILE_DELETE then
           map_res (\<lambda>x. msg\<lparr>m_FileDelete := x\<rparr>) (jsonUnmarshal dec_string p [])
         else if t = MSG_FILE_MOVE then
           map_res (\<lambda>x. msg\<lparr>m_FileMove := Some x\<rparr>) (jsonUnmarshal dec_FileMoveData p blank_move)
         else if t = MSG_ACK then
           map_res (\<lambda>x. msg\<lparr>m_Ack := Some x\<rparr>) (jsonUnmarshal dec_AckPayload p blank_ack)
         else if t = MSG_SYNC_DIFF then
           map_res (\<lambda>x. msg\<lparr>m_SyncDiff := Some x\<rparr>) (jsonUnmarshal dec_SyncDiff p \<lparr>sd_Changes = []\<rparr>)
         else if t = MSG_SYNC_APPLY then
           map_res (\<lambda>x. msg\<lparr>m_SyncApply := Some x\<rparr>) (jsonUnmarshal dec_SyncApply p \<lparr>sa_Ops = []\<rparr>)
         else if t = MSG_ERROR then
           map_res (\<lambda>x. msg\<lparr>m_Error := Some x\<rparr>) (jsonUnmarshal dec_ErrorPayload p blank_error)
         else if t = MSG_PING \<or> t = MSG_PONG then Inr msg
         else Inl (Wrap ''message type'' ErrInvalidType))"

definition DecodeFromBytes :: "byte \<Rightarrow> byte list \<Rightarrow> Message res" where
  "DecodeFromBytes t p =
     (if p = [] \<and> t \<noteq> MSG_PING \<and> t \<noteq> MSG_PONG then Inl (ErrMsg ''empty payload'')
      else if p = [] then Inr (blank_msg t)
      else parseMessage t p)"

text \<open>A reader: the bytes still to come, and the error that ends the stream after them.
  \<open>io.ReadFull\<close> reports a clean end of file only when nothing was read.\<close>

type_synonym reader = "byte list \<times> error"

definition ReadFull :: "nat \<Rightarrow> reader \<Rightarrow> byte list res \<times> reader" where
  "ReadFull n r =
     (case r of (s, e) \<Rightarrow>
        if n \<le> length s then (Inr (take n s), (drop n s, e))
        else (Inl (if s \<noteq> [] \<and> e = IoEOF then IoUnexpectedEOF else e), ([], e)))"

definition DecodeFrame :: "reader \<Rightarrow> Message res \<times> reader" where
  "DecodeFrame =
     and_then (wrap_err ''read header'' (ReadFull HeaderSize))
       (\<lambda>header.
          let msgType = header ! 0; length = Uint32 (drop 1 header)
          in if unat length > MaxFrameSize then (\<lambda>r. (Inl (Wrap ''frame size'' ErrFrameTooLarge), r))
             else if length = 0 \<and> msgType \<noteq> MSG_PING \<and> msgType \<noteq> MSG_PONG
             then (\<lambda>r. (Inl (ErrMsg ''empty payload''), r))
             else if length > 0
             then and_then (wrap_err ''read payload'' (ReadFull (unat length)))
                    (\<lambda>p r. (parseMessage msgType p, r))
             else (\<lambda>r. (Inr (blank_msg msgType), r)))"

section \<open>Structs round trip\<close>

lemma fold_keys [simp]:
  "fold_key ''path'' = ''path''"
  "fold_key ''entryType'' = ''entrytype''"
  "fold_key ''mode'' = ''mode''"
  "fold_key ''uid'' = ''uid''"
  "fold_key ''gid'' = ''gid''"
  "fold_key ''mtime'' = ''mtime''"
  "fold_key ''atime'' = ''atime''"
  "fold_key ''size'' = ''size''"
  "fold_key ''contentHash'' = ''contenthash''"
  "fold_key ''seq'' = ''seq''"
  "fold_key ''flags'' = ''flags''"
  "fold_key ''offset'' = ''offset''"
  "fold_key ''data'' = ''data''"
  "fold_key ''type'' = ''type''"
  "fold_key ''entry'' = ''entry''"
  "fold_key ''oldPath'' = ''oldpath''"
  "fold_key ''newPath'' = ''newpath''"
  "fold_key ''chunk'' = ''chunk''"
  "fold_key ''chunkOff'' = ''chunkoff''"
  "fold_key ''chunkLen'' = ''chunklen''"
  "fold_key ''chunkFlags'' = ''chunkflags''"
  "fold_key ''clientId'' = ''clientid''"
  "fold_key ''syncDir'' = ''syncdir''"
  "fold_key ''version'' = ''version''"
  "fold_key ''serverId'' = ''serverid''"
  "fold_key ''status'' = ''status''"
  "fold_key ''entries'' = ''entries''"
  "fold_key ''changes'' = ''changes''"
  "fold_key ''ops'' = ''ops''"
  "fold_key ''code'' = ''code''"
  "fold_key ''message'' = ''message''"
  by code_simp+

declare fold_key.simps [simp del]

lemma utf8_ascii: "list_all (\<lambda>c. code c < 128) s \<Longrightarrow> utf8_valid s"
proof (induction s)
  case (Cons c s)
  then show ?case by (subst utf8_valid.simps) simp
qed (simp add: utf8_valid.simps)

lemma sanitize_ascii: "list_all (\<lambda>c. code c < 128) s \<Longrightarrow> sanitize s = s"
  by (simp add: sanitize_valid utf8_ascii)

lemma sanitize_keys [simp]:
  "sanitize ''path'' = ''path''"
  "sanitize ''entryType'' = ''entryType''"
  "sanitize ''mode'' = ''mode''"
  "sanitize ''uid'' = ''uid''"
  "sanitize ''gid'' = ''gid''"
  "sanitize ''mtime'' = ''mtime''"
  "sanitize ''atime'' = ''atime''"
  "sanitize ''size'' = ''size''"
  "sanitize ''contentHash'' = ''contentHash''"
  "sanitize ''seq'' = ''seq''"
  "sanitize ''flags'' = ''flags''"
  "sanitize ''offset'' = ''offset''"
  "sanitize ''data'' = ''data''"
  "sanitize ''type'' = ''type''"
  "sanitize ''entry'' = ''entry''"
  "sanitize ''oldPath'' = ''oldPath''"
  "sanitize ''newPath'' = ''newPath''"
  "sanitize ''chunk'' = ''chunk''"
  "sanitize ''chunkOff'' = ''chunkOff''"
  "sanitize ''chunkLen'' = ''chunkLen''"
  "sanitize ''chunkFlags'' = ''chunkFlags''"
  "sanitize ''clientId'' = ''clientId''"
  "sanitize ''syncDir'' = ''syncDir''"
  "sanitize ''version'' = ''version''"
  "sanitize ''serverId'' = ''serverId''"
  "sanitize ''status'' = ''status''"
  "sanitize ''entries'' = ''entries''"
  "sanitize ''changes'' = ''changes''"
  "sanitize ''ops'' = ''ops''"
  "sanitize ''code'' = ''code''"
  "sanitize ''message'' = ''message''"
  by (rule sanitize_ascii, simp add: code_def)+

lemma dec_members_append:
  "dec_members fs (a @ b) r = (case dec_members fs a r of None \<Rightarrow> None | Some r1 \<Rightarrow> dec_members fs b r1)"
  by (induction fs a r rule: dec_members.induct) (auto split: option.split)

lemma dec_opt_field:
  "dec_members fs (opt_field k present j) r = (if present then dec_members fs [(k, j)] r else Some r)"
  by (simp add: opt_field_def)

definition int64_ok :: "int \<Rightarrow> bool" where
  "int64_ok i \<longleftrightarrow> - (2 ^ 63) \<le> i \<and> i < 2 ^ 63"

text \<open>The values the Go types can hold.\<close>

definition entry_rep :: "FileEntry \<Rightarrow> bool" where
  "entry_rep e \<longleftrightarrow> int64_ok (fe_MTime e) \<and> int64_ok (fe_ATime e) \<and> length (fe_ContentHash e) = 32"

lemma dec_enc_FileEntry:
  assumes "entry_rep e" shows "dec_FileEntry (enc_FileEntry e) blank_entry = Some e"
proof -
  have "dec_int64 (enc_int64 (fe_MTime e)) old = Some (fe_MTime e)"
    "dec_int64 (enc_int64 (fe_ATime e)) old = Some (fe_ATime e)" for old
    using assms by (simp_all add: entry_rep_def int64_ok_def)
  moreover have "dec_array (enc_array (fe_ContentHash e)) (replicate 32 0) = Some (fe_ContentHash e)"
    using assms by (simp add: entry_rep_def)
  ultimately show ?thesis
    by (cases e) (simp add: dec_FileEntry_def enc_FileEntry_def field_def blank_entry_def)
qed

lemma enc_FileEntry_not_null [simp]: "enc_FileEntry e \<noteq> JNull"
  by (simp add: enc_FileEntry_def)

lemma dec_enc_entry_ptr:
  "(\<And>e. x = Some e \<Longrightarrow> entry_rep e) \<Longrightarrow> dec_entry_ptr (enc_ptr enc_FileEntry x) None = Some x"
  by (rule dec_enc_ptr) (simp add: dec_enc_FileEntry)

lemma dec_enc_FileDataChunk: "dec_FileDataChunk (enc_FileDataChunk c) blank_chunk = Some c"
  by (cases c) (simp add: dec_FileDataChunk_def enc_FileDataChunk_def field_def blank_chunk_def)

lemma dec_enc_ChangeEvent:
  assumes "\<And>e. ce_Entry c = Some e \<Longrightarrow> entry_rep e"
  shows "dec_ChangeEvent (enc_ChangeEvent c) blank_event = Some c"
  using dec_enc_entry_ptr [of "ce_Entry c"] assms
  by (cases c)
    (auto simp: dec_ChangeEvent_def enc_ChangeEvent_def field_def blank_event_def dec_members_append
      dec_opt_field)

lemma dec_enc_SyncOp:
  assumes "\<And>e. op_Entry p = Some e \<Longrightarrow> entry_rep e"
  shows "dec_SyncOp (enc_SyncOp p) blank_op = Some p"
  using dec_enc_entry_ptr [of "op_Entry p"] assms
  by (cases p)
    (simp add: dec_SyncOp_def enc_SyncOp_def field_def blank_op_def dec_members_append dec_opt_field)

lemma dec_enc_HelloPayload: "dec_HelloPayload (enc_HelloPayload p) blank_hello = Some p"
  by (cases p) (simp add: dec_HelloPayload_def enc_HelloPayload_def field_def blank_hello_def)

lemma dec_enc_HelloAckPayload: "dec_HelloAckPayload (enc_HelloAckPayload p) blank_hello_ack = Some p"
  by (cases p) (simp add: dec_HelloAckPayload_def enc_HelloAckPayload_def field_def blank_hello_ack_def)

lemma dec_enc_AckPayload: "dec_AckPayload (enc_AckPayload p) blank_ack = Some p"
  by (cases p) (simp add: dec_AckPayload_def enc_AckPayload_def field_def blank_ack_def)

lemma dec_enc_ErrorPayload: "dec_ErrorPayload (enc_ErrorPayload p) blank_error = Some p"
  by (cases p) (simp add: dec_ErrorPayload_def enc_ErrorPayload_def field_def blank_error_def)

lemma dec_enc_FileMoveData:
  assumes "\<And>e. mv_Entry p = Some e \<Longrightarrow> entry_rep e"
  shows "dec_FileMoveData (enc_FileMoveData p) blank_move = Some p"
  using dec_enc_entry_ptr [of "mv_Entry p"] assms
  by (cases p) (simp add: dec_FileMoveData_def enc_FileMoveData_def field_def blank_move_def)

lemma dec_enc_SyncTree:
  assumes "\<And>e. Some e \<in> set (st_Entries t) \<Longrightarrow> entry_rep e"
  shows "dec_SyncTree (enc_SyncTree t) \<lparr>st_Entries = []\<rparr> = Some t"
proof -
  have "dec_slice dec_entry_ptr None (enc_slice (enc_ptr enc_FileEntry) (st_Entries t)) [] = Some (st_Entries t)"
    using assms by (intro dec_enc_slice dec_enc_entry_ptr) auto
  then show ?thesis by (cases t) (simp add: dec_SyncTree_def enc_SyncTree_def field_def)
qed

lemma dec_enc_nil_slice:
  assumes "\<And>x. x \<in> set xs \<Longrightarrow> d (e x) z = Some x"
  shows "dec_slice d z (enc_nil_slice e xs) old = Some xs"
  using dec_enc_slice [of xs d e z old] assms by (auto simp: enc_nil_slice_def)

lemma dec_enc_SyncDiff:
  assumes "\<And>c e. Some c \<in> set (sd_Changes t) \<Longrightarrow> ce_Entry c = Some e \<Longrightarrow> entry_rep e"
  shows "dec_SyncDiff (enc_SyncDiff t) \<lparr>sd_Changes = []\<rparr> = Some t"
proof -
  have "dec_slice (dec_ptr dec_ChangeEvent blank_event) None
      (enc_nil_slice (enc_ptr enc_ChangeEvent) (sd_Changes t)) [] = Some (sd_Changes t)"
    using assms by (intro dec_enc_nil_slice dec_enc_ptr conjI dec_enc_ChangeEvent) (auto simp: enc_ChangeEvent_def)
  then show ?thesis by (cases t) (simp add: dec_SyncDiff_def enc_SyncDiff_def field_def)
qed

lemma dec_enc_SyncApply:
  assumes "\<And>p e. Some p \<in> set (sa_Ops t) \<Longrightarrow> op_Entry p = Some e \<Longrightarrow> entry_rep e"
  shows "dec_SyncApply (enc_SyncApply t) \<lparr>sa_Ops = []\<rparr> = Some t"
proof -
  have "dec_slice (dec_ptr dec_SyncOp blank_op) None
      (enc_nil_slice (enc_ptr enc_SyncOp) (sa_Ops t)) [] = Some (sa_Ops t)"
    using assms by (intro dec_enc_nil_slice dec_enc_ptr conjI dec_enc_SyncOp) (auto simp: enc_SyncOp_def)
  then show ?thesis by (cases t) (simp add: dec_SyncApply_def enc_SyncApply_def field_def)
qed

section \<open>Printable payloads\<close>

text \<open>A value that is read back as it was printed, nested at most \<open>n\<close> deep.\<close>

definition fits :: "nat \<Rightarrow> json \<Rightarrow> bool" where
  "fits n j \<longleftrightarrow> num_ok j \<and> clean_json j = j \<and> jdepth j \<le> n"

lemma fits_parse: "fits n j \<Longrightarrow> n \<le> maxNestingDepth \<Longrightarrow> parse_json (print_json j) = Some j"
  using parse_print_json [of j] by (simp add: fits_def)

lemma fits_Null [simp]: "fits n JNull"
  by (simp add: fits_def)

lemma fits_Str: "fits n (JStr s) \<longleftrightarrow> sanitize s = s"
  by (simp add: fits_def)

lemma fits_uint [simp]: "fits n (enc_uint w)"
proof -
  have "print_nat (unat w) = print_int (int (unat w))" by (simp add: print_int_def)
  then show ?thesis unfolding fits_def enc_uint_def by auto
qed

lemma fits_int64 [simp]: "fits n (enc_int64 i)"
  by (auto simp: fits_def enc_int64_def)

lemma b64_enc_ascii: "list_all (\<lambda>c. code c < 128) (b64_enc bs)"
proof -
  have ab: "\<forall>c \<in> set b64_alphabet. code c < 128" by (simp add: b64_alphabet_def code_def)
  have c: "i < 64 \<Longrightarrow> code (b64_char i) < 128" for i
    using ab alphabet_facts(2) by (simp add: b64_char_def nth_mem)
  have p: "code b64_pad < 128" by (simp add: b64_pad_def code_def)
  show ?thesis
  proof (induction bs rule: b64_enc.induct)
    case (2 a)
    have "unat a * 16 div 64 < 64" "unat a * 16 mod 64 < 64" using unat_byte [of a] by auto
    then show ?case by (simp add: Let_def c p)
  next
    case (3 a b)
    let ?n = "(unat a * 256 + unat b) * 4"
    have "?n div 4096 < 64" "?n div 64 mod 64 < 64" "?n mod 64 < 64"
      using unat_byte [of a] unat_byte [of b] by auto
    then show ?case by (simp add: Let_def c p)
  next
    case (4 a b c' rest)
    let ?n = "(unat a * 256 + unat b) * 256 + unat c'"
    have "?n div 262144 < 64" "?n div 4096 mod 64 < 64" "?n div 64 mod 64 < 64" "?n mod 64 < 64"
      using unat_byte [of a] unat_byte [of b] unat_byte [of c'] by auto
    then show ?case using 4 by (simp add: Let_def c)
  qed simp
qed

lemma fits_bytes [simp]: "fits n (enc_bytes bs)"
  by (simp add: enc_bytes_def fits_Str sanitize_ascii b64_enc_ascii)

lemma fits_Arr: "fits (Suc n) (JArr js) \<longleftrightarrow> (\<forall>j \<in> set js. fits n j)"
proof -
  have "map clean_json js = js \<longleftrightarrow> (\<forall>j \<in> set js. clean_json j = j)" by (metis map_idI list.map_ident map_eq_conv)
  then show ?thesis by (auto simp: fits_def list_all_iff)
qed

lemma fits_Obj: "fits (Suc n) (JObj kvs) \<longleftrightarrow> (\<forall>(k, j) \<in> set kvs. sanitize k = k \<and> fits n j)"
proof -
  have "map (\<lambda>(k, j). (sanitize k, clean_json j)) kvs = kvs \<longleftrightarrow>
      (\<forall>(k, j) \<in> set kvs. sanitize k = k \<and> clean_json j = j)"
    by (induction kvs) auto
  then show ?thesis by (fastforce simp: fits_def list_all_iff)
qed

lemma fits_array [simp]: "fits (Suc n) (enc_array bs)"
  by (simp add: enc_array_def fits_Arr)

lemma fits_opt_field:
  "(\<forall>(k', j') \<in> set (opt_field k b j). sanitize k' = k' \<and> fits n j') \<longleftrightarrow> (b \<longrightarrow> sanitize k = k \<and> fits n j)"
  by (simp add: opt_field_def)

lemma fits_ptr: "(\<And>y. x = Some y \<Longrightarrow> fits n (e y)) \<Longrightarrow> fits n (enc_ptr e x)"
  by (cases x) (simp_all add: enc_ptr_def)

lemma fits_slice:
  "(\<And>x. x \<in> set xs \<Longrightarrow> fits n (e x)) \<Longrightarrow> fits (Suc n) (enc_slice e xs)"
  "(\<And>x. x \<in> set xs \<Longrightarrow> fits n (e x)) \<Longrightarrow> fits (Suc n) (enc_nil_slice e xs)"
  by (auto simp: enc_slice_def enc_nil_slice_def fits_Arr)

text \<open>What the program's values have to satisfy to survive the trip: text that is UTF-8, and the ranges
  of the Go types.\<close>

definition entry_ok :: "FileEntry \<Rightarrow> bool" where
  "entry_ok e \<longleftrightarrow> entry_rep e \<and> utf8_valid (fe_Path e)"

definition change_ok :: "ChangeEvent \<Rightarrow> bool" where
  "change_ok c \<longleftrightarrow> (\<forall>e. ce_Entry c = Some e \<longrightarrow> entry_ok e) \<and>
     utf8_valid (ce_Type c) \<and> utf8_valid (ce_Path c) \<and> utf8_valid (ce_OldPath c) \<and> utf8_valid (ce_NewPath c)"

definition op_ok :: "SyncOp \<Rightarrow> bool" where
  "op_ok p \<longleftrightarrow> (\<forall>e. op_Entry p = Some e \<longrightarrow> entry_ok e) \<and>
     utf8_valid (op_Type p) \<and> utf8_valid (op_Path p) \<and> utf8_valid (op_OldPath p) \<and> utf8_valid (op_NewPath p)"

lemma fits_FileEntry: "entry_ok e \<Longrightarrow> fits (Suc (Suc n)) (enc_FileEntry e)"
  by (simp add: enc_FileEntry_def fits_Obj fits_Str entry_ok_def sanitize_valid)

lemma fits_entry_ptr: "(\<And>e. x = Some e \<Longrightarrow> entry_ok e) \<Longrightarrow> fits (Suc (Suc n)) (enc_ptr enc_FileEntry x)"
  by (intro fits_ptr fits_FileEntry) simp

lemma fits_ChangeEvent: "change_ok c \<Longrightarrow> fits (Suc (Suc (Suc n))) (enc_ChangeEvent c)"
  unfolding enc_ChangeEvent_def fits_Obj set_append ball_Un fits_opt_field
  by (simp add: change_ok_def fits_Str sanitize_valid fits_entry_ptr)

lemma fits_SyncOp: "op_ok p \<Longrightarrow> fits (Suc (Suc (Suc n))) (enc_SyncOp p)"
  unfolding enc_SyncOp_def fits_Obj set_append ball_Un fits_opt_field
  by (simp add: op_ok_def fits_Str sanitize_valid fits_entry_ptr)

section \<open>Messages round trip\<close>

text \<open>The messages the program builds: one payload, in the field of the type.\<close>

inductive msg_ok :: "Message \<Rightarrow> bool" where
  hello: "utf8_valid (hp_ClientID p) \<Longrightarrow> utf8_valid (hp_SyncDir p) \<Longrightarrow> utf8_valid (hp_Version p) \<Longrightarrow>
    msg_ok ((blank_msg MSG_HELLO)\<lparr>m_Hello := Some p\<rparr>)"
| hello_ack: "utf8_valid (ha_ServerID a) \<Longrightarrow> msg_ok ((blank_msg MSG_HELLO_ACK)\<lparr>m_HelloAck := Some a\<rparr>)"
| sync_init: "(\<And>e. Some e \<in> set (st_Entries t) \<Longrightarrow> entry_ok e) \<Longrightarrow>
    msg_ok ((blank_msg MSG_SYNC_INIT)\<lparr>m_SyncInit := Some t\<rparr>)"
| sync_init_ack: "(\<And>e. Some e \<in> set (st_Entries t) \<Longrightarrow> entry_ok e) \<Longrightarrow>
    msg_ok ((blank_msg MSG_SYNC_INIT_ACK)\<lparr>m_SyncInitAck := Some t\<rparr>)"
| file_create: "entry_ok e \<Longrightarrow> msg_ok ((blank_msg MSG_FILE_CREATE)\<lparr>m_FileCreate := Some e\<rparr>)"
| file_data: "utf8_valid (fd_Path c) \<Longrightarrow> msg_ok ((blank_msg MSG_FILE_DATA)\<lparr>m_FileData := Some c\<rparr>)"
| file_modify: "entry_ok e \<Longrightarrow> msg_ok ((blank_msg MSG_FILE_MODIFY)\<lparr>m_FileModify := Some e\<rparr>)"
| file_delete: "utf8_valid s \<Longrightarrow> msg_ok ((blank_msg MSG_FILE_DELETE)\<lparr>m_FileDelete := s\<rparr>)"
| file_move: "utf8_valid (mv_OldPath v) \<Longrightarrow> utf8_valid (mv_NewPath v) \<Longrightarrow>
    (\<And>e. mv_Entry v = Some e \<Longrightarrow> entry_ok e) \<Longrightarrow> msg_ok ((blank_msg MSG_FILE_MOVE)\<lparr>m_FileMove := Some v\<rparr>)"
| ack: "msg_ok ((blank_msg MSG_ACK)\<lparr>m_Ack := Some k\<rparr>)"
| sync_diff: "(\<And>c. Some c \<in> set (sd_Changes d) \<Longrightarrow> change_ok c) \<Longrightarrow>
    msg_ok ((blank_msg MSG_SYNC_DIFF)\<lparr>m_SyncDiff := Some d\<rparr>)"
| sync_apply: "(\<And>p. Some p \<in> set (sa_Ops y) \<Longrightarrow> op_ok p) \<Longrightarrow>
    msg_ok ((blank_msg MSG_SYNC_APPLY)\<lparr>m_SyncApply := Some y\<rparr>)"
| error: "utf8_valid (err_Message r) \<Longrightarrow> msg_ok ((blank_msg MSG_ERROR)\<lparr>m_Error := Some r\<rparr>)"
| ping: "msg_ok (blank_msg MSG_PING)"
| pong: "msg_ok (blank_msg MSG_PONG)"

inductive_cases msg_okE: "msg_ok m"

lemma jsonUnmarshal_print:
  assumes "fits 10 j" "d j z = Some x"
  shows "jsonUnmarshal d (str_bytes (print_json j)) z = Inr x"
  using fits_parse [OF assms(1)] assms(2) by (simp add: jsonUnmarshal_def maxNestingDepth_def)

lemma fits_10:
  "entry_ok e \<Longrightarrow> fits 10 (enc_FileEntry e)"
  "change_ok c \<Longrightarrow> fits 8 (enc_ChangeEvent c)" "op_ok p \<Longrightarrow> fits 8 (enc_SyncOp p)"
  "(\<And>e. x = Some e \<Longrightarrow> entry_ok e) \<Longrightarrow> fits 8 (enc_ptr enc_FileEntry x)"
  "(\<And>e. x = Some e \<Longrightarrow> entry_ok e) \<Longrightarrow> fits 9 (enc_ptr enc_FileEntry x)"
  using fits_FileEntry [of e 8] fits_ChangeEvent [of c 5] fits_SyncOp [of p 5] fits_entry_ptr [of x 6]
    fits_entry_ptr [of x 7]
  by (simp_all add: numeral_eq_Suc)

lemma fits_Obj_10: "fits 10 (JObj kvs) \<longleftrightarrow> (\<forall>(k, j) \<in> set kvs. sanitize k = k \<and> fits 9 j)"
  using fits_Obj [of 9 kvs] by (simp add: numeral_eq_Suc)

lemma fits_slice_9:
  "(\<And>x. x \<in> set xs \<Longrightarrow> fits 8 (e x)) \<Longrightarrow> fits 9 (enc_slice e xs)"
  "(\<And>x. x \<in> set xs \<Longrightarrow> fits 8 (e x)) \<Longrightarrow> fits 9 (enc_nil_slice e xs)"
  using fits_slice [of xs 8 e] by (simp_all add: numeral_eq_Suc)

lemma fits_lists:
  "(\<And>e. Some e \<in> set es \<Longrightarrow> entry_ok e) \<Longrightarrow> fits 9 (enc_slice (enc_ptr enc_FileEntry) es)"
  "(\<And>c. Some c \<in> set cs \<Longrightarrow> change_ok c) \<Longrightarrow> fits 9 (enc_nil_slice (enc_ptr enc_ChangeEvent) cs)"
  "(\<And>p. Some p \<in> set ps \<Longrightarrow> op_ok p) \<Longrightarrow> fits 9 (enc_nil_slice (enc_ptr enc_SyncOp) ps)"
  by (intro fits_slice_9 fits_10(4); blast) (intro fits_slice_9 fits_ptr fits_10; blast)+

lemma fits_payloads:
  "utf8_valid (hp_ClientID p) \<Longrightarrow> utf8_valid (hp_SyncDir p) \<Longrightarrow> utf8_valid (hp_Version p) \<Longrightarrow>
     fits 10 (enc_HelloPayload p)"
  "utf8_valid (ha_ServerID a) \<Longrightarrow> fits 10 (enc_HelloAckPayload a)"
  "utf8_valid (fd_Path c) \<Longrightarrow> fits 10 (enc_FileDataChunk c)"
  "fits 10 (enc_AckPayload k)"
  "utf8_valid (err_Message r) \<Longrightarrow> fits 10 (enc_ErrorPayload r)"
  "utf8_valid (mv_OldPath v) \<Longrightarrow> utf8_valid (mv_NewPath v) \<Longrightarrow>
     (\<And>e. mv_Entry v = Some e \<Longrightarrow> entry_ok e) \<Longrightarrow> fits 10 (enc_FileMoveData v)"
  "(\<And>e. Some e \<in> set (st_Entries t) \<Longrightarrow> entry_ok e) \<Longrightarrow> fits 10 (enc_SyncTree t)"
  "(\<And>c. Some c \<in> set (sd_Changes d) \<Longrightarrow> change_ok c) \<Longrightarrow> fits 10 (enc_SyncDiff d)"
  "(\<And>p. Some p \<in> set (sa_Ops y) \<Longrightarrow> op_ok p) \<Longrightarrow> fits 10 (enc_SyncApply y)"
  by (simp_all add: enc_HelloPayload_def enc_HelloAckPayload_def enc_FileDataChunk_def enc_AckPayload_def
      enc_ErrorPayload_def enc_FileMoveData_def enc_SyncTree_def enc_SyncDiff_def enc_SyncApply_def
      fits_Obj_10 fits_Str sanitize_valid fits_10 fits_lists)

lemma entry_ok_rep: "entry_ok e \<Longrightarrow> entry_rep e"
  by (simp add: entry_ok_def)

lemmas unmarshal_struct =
  jsonUnmarshal_print [where d = dec_HelloPayload, OF fits_payloads(1) dec_enc_HelloPayload]
  jsonUnmarshal_print [where d = dec_HelloAckPayload, OF fits_payloads(2) dec_enc_HelloAckPayload]
  jsonUnmarshal_print [where d = dec_FileDataChunk, OF fits_payloads(3) dec_enc_FileDataChunk]
  jsonUnmarshal_print [where d = dec_AckPayload, OF fits_payloads(4) dec_enc_AckPayload]
  jsonUnmarshal_print [where d = dec_ErrorPayload, OF fits_payloads(5) dec_enc_ErrorPayload]
  jsonUnmarshal_print [where d = dec_FileMoveData, OF fits_payloads(6) dec_enc_FileMoveData]
  jsonUnmarshal_print [where d = dec_SyncTree, OF fits_payloads(7) dec_enc_SyncTree]
  jsonUnmarshal_print [where d = dec_SyncDiff, OF fits_payloads(8) dec_enc_SyncDiff]
  jsonUnmarshal_print [where d = dec_SyncApply, OF fits_payloads(9) dec_enc_SyncApply]
  jsonUnmarshal_print [where d = dec_FileEntry, OF fits_10(1) dec_enc_FileEntry]

lemma parse_payload:
  assumes "msg_ok m" "m_Type m \<noteq> MSG_PING" "m_Type m \<noteq> MSG_PONG"
  shows "parseMessage (m_Type m) (str_bytes (print_json (payload m))) = Inr m"
  using assms
proof cases
  case (file_delete s)
  have "jsonUnmarshal dec_string (str_bytes (print_json (JStr s))) [] = Inr s"
    using file_delete by (intro jsonUnmarshal_print) (simp_all add: fits_Str sanitize_valid)
  then show ?thesis
    using file_delete by (simp add: parseMessage_def payload_def msg_type_defs map_res_def)
next
  case (sync_diff d)
  have "jsonUnmarshal dec_SyncDiff (str_bytes (print_json (enc_SyncDiff d))) \<lparr>sd_Changes = []\<rparr> = Inr d"
    using sync_diff by (intro unmarshal_struct) (auto simp: change_ok_def entry_ok_def)
  then show ?thesis
    using sync_diff by (simp add: parseMessage_def payload_def msg_type_defs map_res_def enc_ptr_def)
next
  case (sync_apply y)
  have "jsonUnmarshal dec_SyncApply (str_bytes (print_json (enc_SyncApply y))) \<lparr>sa_Ops = []\<rparr> = Inr y"
    using sync_apply by (intro unmarshal_struct) (auto simp: op_ok_def entry_ok_def)
  then show ?thesis
    using sync_apply by (simp add: parseMessage_def payload_def msg_type_defs map_res_def enc_ptr_def)
qed (use assms in \<open>simp_all add: parseMessage_def payload_def msg_type_defs map_res_def enc_ptr_def
      unmarshal_struct entry_ok_rep\<close>)

section \<open>Frames on a stream\<close>

text \<open>
  The contract of a framing: a frame is read back as the message it was made from, and the reader is
  left exactly behind it. A sequence of messages is then read back in order, whatever follows.
\<close>

fun enc_all :: "('m \<Rightarrow> byte list res) \<Rightarrow> 'm list \<Rightarrow> byte list res" where
  "enc_all enc [] = Inr []"
| "enc_all enc (m # ms) =
     (case enc m of
        Inl e \<Rightarrow> Inl e
      | Inr bs \<Rightarrow> (case enc_all enc ms of Inl e \<Rightarrow> Inl e | Inr cs \<Rightarrow> Inr (bs @ cs)))"

fun dec_n :: "(reader \<Rightarrow> 'm res \<times> reader) \<Rightarrow> nat \<Rightarrow> reader \<Rightarrow> 'm list res \<times> reader" where
  "dec_n dec 0 r = (Inr [], r)"
| "dec_n dec (Suc n) r =
     (case dec r of
        (Inl e, r1) \<Rightarrow> (Inl e, r1)
      | (Inr m, r1) \<Rightarrow>
          (case dec_n dec n r1 of (Inl e, r2) \<Rightarrow> (Inl e, r2) | (Inr ms, r2) \<Rightarrow> (Inr (m # ms), r2)))"

locale framed_stream =
  fixes enc :: "'m \<Rightarrow> byte list res"
    and dec :: "reader \<Rightarrow> 'm res \<times> reader"
    and ok :: "'m \<Rightarrow> bool"
  assumes dec_enc: "ok m \<Longrightarrow> enc m = Inr bs \<Longrightarrow> dec (bs @ rest, e) = (Inr m, (rest, e))"
begin

lemma dec_all:
  "\<forall>m \<in> set ms. ok m \<Longrightarrow> enc_all enc ms = Inr bs \<Longrightarrow>
     dec_n dec (length ms) (bs @ rest, e) = (Inr ms, (rest, e))"
proof (induction ms arbitrary: bs)
  case (Cons m ms)
  then obtain b c where "enc m = Inr b" "enc_all enc ms = Inr c" "bs = b @ c"
    by (auto split: sum.splits)
  with Cons dec_enc [of m b "c @ rest"] show ?case by simp
qed simp

text \<open>A frame is never the beginning of a different one.\<close>

lemma enc_prefix_free:
  assumes "ok a" "ok b" "enc a = Inr x" "enc b = Inr y" "prefix x y"
  shows "a = b"
proof -
  obtain z where y: "y = x @ z" using assms(5) by (auto elim: prefixE)
  have "dec (y, IoEOF) = (Inr a, (z, IoEOF))" using dec_enc [OF assms(1,3), of z IoEOF] y by simp
  moreover have "dec (y, IoEOF) = (Inr b, ([], IoEOF))" using dec_enc [OF assms(2,4), of "[]" IoEOF] by simp
  ultimately show ?thesis by simp
qed

end

lemma print_json_nonempty: "num_ok j \<Longrightarrow> print_json j \<noteq> []"
  using print_json_pos by fastforce

lemma payload_num_ok: "num_ok (payload m)"
proof -
  have u: "num_ok (enc_uint w)" for w :: "'w :: len word" using fits_uint [of 0 w] by (simp add: fits_def)
  have i: "num_ok (enc_int64 x)" for x using fits_int64 [of 0 x] by (simp add: fits_def)
  have e: "num_ok (enc_FileEntry x)" for x
    by (simp add: enc_FileEntry_def u i enc_array_def list_all_iff)
  have p: "(\<And>y. num_ok (f y)) \<Longrightarrow> num_ok (enc_ptr f x)" for f and x :: "'x option"
    by (cases x) (simp_all add: enc_ptr_def)
  have c: "num_ok (enc_ChangeEvent x)" "num_ok (enc_SyncOp y)" for x y
    by (simp_all add: enc_ChangeEvent_def enc_SyncOp_def opt_field_def p e u enc_bytes_def)
  show ?thesis
    by (simp add: payload_def Let_def p u e c enc_HelloPayload_def enc_HelloAckPayload_def enc_SyncTree_def
        enc_FileDataChunk_def enc_FileMoveData_def enc_AckPayload_def enc_SyncDiff_def enc_SyncApply_def
        enc_ErrorPayload_def enc_slice_def enc_nil_slice_def enc_bytes_def list_all_iff)
qed

lemma ReadFull_enough: "length a = n \<Longrightarrow> ReadFull n (a @ b, e) = (Inr a, (b, e))"
  by (simp add: ReadFull_def)

lemma DecodeFrame_frame:
  assumes "length p \<le> MaxFrameSize" "p \<noteq> []"
  shows "DecodeFrame ((t # PutUint32 (of_nat (length p)) @ p) @ rest, e) = (parseMessage t p, (rest, e))"
proof -
  have u: "unat (of_nat (length p) :: u32) = length p"
    using assms(1) by (simp add: unat_of_nat MaxFrameSize_def)
  have nz: "(of_nat (length p) :: u32) \<noteq> 0" using u assms(2) by (metis length_0_conv unat_0)
  let ?h = "t # PutUint32 (of_nat (length p))"
  have "ReadFull HeaderSize ((t # PutUint32 (of_nat (length p)) @ p) @ rest, e) = (Inr ?h, (p @ rest, e))"
    using ReadFull_enough [of ?h HeaderSize "p @ rest" e] by (simp add: HeaderSize_def)
  then show ?thesis
    using u nz assms(1) ReadFull_enough [of p "length p" rest e]
    by (simp add: DecodeFrame_def and_then_def wrap_err_def word_neq_0_conv [symmetric] Let_def)
qed

lemma DecodeFrame_empty:
  assumes "t = MSG_PING \<or> t = MSG_PONG"
  shows "DecodeFrame ((t # PutUint32 0) @ rest, e) = (Inr (blank_msg t), (rest, e))"
proof -
  have "ReadFull HeaderSize ((t # PutUint32 0) @ rest, e) = (Inr (t # PutUint32 0), (rest, e))"
    by (rule ReadFull_enough) (simp add: HeaderSize_def)
  with assms show ?thesis by (simp add: DecodeFrame_def and_then_def wrap_err_def Let_def)
qed

lemma msg_ok_empty: "msg_ok m \<Longrightarrow> m_Type m = MSG_PING \<or> m_Type m = MSG_PONG \<Longrightarrow> m = blank_msg (m_Type m)"
  by (erule msg_okE) (simp_all add: msg_type_defs)

lemma DecodeFrame_Encode:
  assumes "msg_ok m" "Encode m = Inr bs"
  shows "DecodeFrame (bs @ rest, e) = (Inr m, (rest, e))"
proof (cases "m_Type m = MSG_PING \<or> m_Type m = MSG_PONG")
  case True
  then have "bs = m_Type m # PutUint32 0" using assms(2) by (auto simp: Encode_def)
  with DecodeFrame_empty [OF True, of rest e] msg_ok_empty [OF assms(1) True] show ?thesis by simp
next
  case False
  let ?p = "str_bytes (print_json (payload m))"
  have le: "length ?p \<le> MaxFrameSize" and bs: "bs = m_Type m # PutUint32 (of_nat (length ?p)) @ ?p"
    using assms(2) False by (auto simp: Encode_def jsonMarshal_def split: if_splits)
  have "?p \<noteq> []" using print_json_nonempty [OF payload_num_ok] by simp
  from DecodeFrame_frame [OF le this, of "m_Type m" rest e] show ?thesis
    using parse_payload [OF assms(1)] False by (simp add: bs)
qed

interpretation frames: framed_stream Encode DecodeFrame msg_ok
  by unfold_locales (rule DecodeFrame_Encode)

lemma parseMessage_invalid:
  assumes "t \<notin> {MSG_HELLO, MSG_HELLO_ACK, MSG_SYNC_INIT, MSG_SYNC_INIT_ACK, MSG_FILE_CREATE, MSG_FILE_DATA,
    MSG_FILE_MODIFY, MSG_FILE_DELETE, MSG_FILE_MOVE, MSG_ACK, MSG_SYNC_DIFF, MSG_SYNC_APPLY, MSG_PING,
    MSG_PONG, MSG_ERROR}"
  shows "parseMessage t p = Inl (Wrap ''message type'' ErrInvalidType)"
  using assms unfolding parseMessage_def by (simp del: One_nat_def)

text \<open>A decoded message carries the payload its type promises.\<close>

definition payload_present :: "Message \<Rightarrow> bool" where
  "payload_present m \<longleftrightarrow>
     (m_Type m = MSG_HELLO \<longrightarrow> m_Hello m \<noteq> None) \<and> (m_Type m = MSG_HELLO_ACK \<longrightarrow> m_HelloAck m \<noteq> None) \<and>
     (m_Type m = MSG_SYNC_INIT \<longrightarrow> m_SyncInit m \<noteq> None) \<and>
     (m_Type m = MSG_SYNC_INIT_ACK \<longrightarrow> m_SyncInitAck m \<noteq> None) \<and>
     (m_Type m = MSG_FILE_CREATE \<longrightarrow> m_FileCreate m \<noteq> None) \<and> (m_Type m = MSG_FILE_DATA \<longrightarrow> m_FileData m \<noteq> None) \<and>
     (m_Type m = MSG_FILE_MODIFY \<longrightarrow> m_FileModify m \<noteq> None) \<and> (m_Type m = MSG_FILE_MOVE \<longrightarrow> m_FileMove m \<noteq> None) \<and>
     (m_Type m = MSG_ACK \<longrightarrow> m_Ack m \<noteq> None) \<and> (m_Type m = MSG_SYNC_DIFF \<longrightarrow> m_SyncDiff m \<noteq> None) \<and>
     (m_Type m = MSG_SYNC_APPLY \<longrightarrow> m_SyncApply m \<noteq> None) \<and> (m_Type m = MSG_ERROR \<longrightarrow> m_Error m \<noteq> None)"

lemma map_res_Inr: "map_res f r = Inr y \<Longrightarrow> \<exists>x. y = f x"
  by (auto simp: map_res_def split: sum.splits)

lemma parseMessage_present: "parseMessage t p = Inr m \<Longrightarrow> m_Type m = t \<and> payload_present m"
  unfolding parseMessage_def Let_def
  by (auto simp: payload_present_def msg_type_defs split: if_splits dest!: map_res_Inr)

lemma DecodeFrame_okE:
  assumes "DecodeFrame r = (Inr m, r')"
  obtains t p where "parseMessage t p = Inr m" | t where "m = blank_msg t" "t = MSG_PING \<or> t = MSG_PONG"
  using assms unfolding DecodeFrame_def Let_def
  by (auto elim!: and_then_okE simp: word_neq_0_conv split: if_splits)

text \<open>A peer that announces a frame of more than 16 MB is refused after the five header bytes; no
  byte of the payload is read.\<close>

lemma DecodeFrame_refuses_large:
  assumes "16777216 < unat v"
  shows "DecodeFrame ((t # PutUint32 v) @ rest, e) = (Inl (Wrap ''frame size'' ErrFrameTooLarge), (rest, e))"
proof -
  have "ReadFull HeaderSize ((t # PutUint32 v) @ rest, e) = (Inr (t # PutUint32 v), (rest, e))"
    by (rule ReadFull_enough) (simp add: HeaderSize_def)
  with assms show ?thesis
    by (simp add: DecodeFrame_def and_then_def wrap_err_def Let_def MaxFrameSize_def)
qed

text \<open>A path that is not UTF-8 does not survive: the receiver of a deletion is told another path, in
  which every stray byte has become the replacement character.\<close>

lemma delete_path_mangled:
  assumes "Encode ((blank_msg MSG_FILE_DELETE)\<lparr>m_FileDelete := s\<rparr>) = Inr bs"
  shows "DecodeFrame (bs @ rest, e) = (Inr ((blank_msg MSG_FILE_DELETE)\<lparr>m_FileDelete := sanitize s\<rparr>), (rest, e))"
proof -
  let ?p = "str_bytes (print_json (JStr s))"
  have le: "length ?p \<le> MaxFrameSize" and bs: "bs = MSG_FILE_DELETE # PutUint32 (of_nat (length ?p)) @ ?p"
    using assms by (auto simp: Encode_def jsonMarshal_def payload_def msg_type_defs split: if_splits)
  have "parse_json (print_json (JStr s)) = Some (JStr (sanitize s))"
    using parse_print_json [of "JStr s"] by simp
  then have "parseMessage MSG_FILE_DELETE ?p = Inr ((blank_msg MSG_FILE_DELETE)\<lparr>m_FileDelete := sanitize s\<rparr>)"
    by (simp add: parseMessage_def msg_type_defs map_res_def jsonUnmarshal_def)
  then show ?thesis using DecodeFrame_frame [OF le, of MSG_FILE_DELETE rest e] by (simp add: bs print_str_def)
qed

section \<open>Properties\<close>

definition demo_msg :: Message where
  "demo_msg = (blank_msg MSG_FILE_DELETE)\<lparr>m_FileDelete := ''a/b''\<rparr>"

lemma demo_msg_ok: "msg_ok demo_msg"
  unfolding demo_msg_def by (rule msg_ok.file_delete) (simp add: utf8_ascii code_def)

lemma demo_msg_Encode: "Encode demo_msg = Inr ([8, 0, 0, 0, 5] @ str_bytes (print_json (JStr ''a/b'')))"
proof -
  have "quote_body ''a/b'' = ''a/b''" by code_simp
  then have "length (print_json (JStr ''a/b'')) = 5" by (simp add: print_str_def)
  then show ?thesis
    by (simp add: Encode_def demo_msg_def jsonMarshal_def payload_def msg_type_defs MaxFrameSize_def PutUint32_def)
qed

text \<open>C5: every message the program builds, as long as its text is UTF-8, survives the wire: the frame
  \<open>Encode\<close> makes is read back by \<open>DecodeFrame\<close> as the same message, and the reader is left exactly at
  the first byte behind the frame.\<close>

theorem codec_round_trip:
  assumes "msg_ok m" "Encode m = Inr bs"
  shows "DecodeFrame (bs @ rest, e) = (Inr m, (rest, e))"
  using assms by (rule frames.dec_enc)

theorem codec_round_trip_witness:
  "DecodeFrame (([8, 0, 0, 0, 5] @ str_bytes (print_json (JStr ''a/b''))) @ [7], IoEOF) = (Inr demo_msg, ([7], IoEOF))"
  by (rule codec_round_trip [OF demo_msg_ok demo_msg_Encode])

text \<open>C17: messages written one after the other to a connection are read back in the order they were
  written, with nothing lost, merged or split.\<close>

theorem codec_stream_order:
  assumes "\<forall>m \<in> set ms. msg_ok m" "enc_all Encode ms = Inr bs"
  shows "dec_n DecodeFrame (length ms) (bs @ rest, e) = (Inr ms, (rest, e))"
  using assms by (rule frames.dec_all)

theorem codec_stream_order_witness:
  "\<exists>bs. dec_n DecodeFrame 2 (bs, IoEOF) = (Inr [demo_msg, demo_msg], ([], IoEOF))"
proof -
  obtain bs where "enc_all Encode [demo_msg, demo_msg] = Inr bs" by (simp add: demo_msg_Encode)
  from codec_stream_order [OF _ this, of "[]" IoEOF] demo_msg_ok
  have "dec_n DecodeFrame (length [demo_msg, demo_msg]) (bs, IoEOF) = (Inr [demo_msg, demo_msg], ([], IoEOF))"
    by simp
  moreover have "length [demo_msg, demo_msg] = 2" by simp
  ultimately show ?thesis by metis
qed


text \<open>C29: a connection that ends inside a frame yields an error, never a message.\<close>

theorem DecodeFrame_truncated:
  assumes "Encode m = Inr (pre @ suf)" "suf \<noteq> []"
  shows "\<not> is_ok (fst (DecodeFrame (pre, e)))"
proof (cases "length pre < 5")
  case True
  then show ?thesis by (simp add: DecodeFrame_def and_then_def wrap_err_def ReadFull_def HeaderSize_def)
next
  case False
  let ?p = "str_bytes (print_json (payload m))"
  have "m_Type m \<noteq> MSG_PING \<and> m_Type m \<noteq> MSG_PONG"
  proof (rule ccontr)
    assume "\<not> ?thesis"
    then have "pre @ suf = m_Type m # PutUint32 0" using assms(1) by (auto simp: Encode_def)
    from arg_cong [OF this, of length] have "length pre + length suf = 5" by simp
    with False assms(2) show False by (cases suf) auto
  qed
  then have f: "pre @ suf = m_Type m # PutUint32 (of_nat (length ?p)) @ ?p" "length ?p \<le> MaxFrameSize"
    using assms(1) by (auto simp: Encode_def jsonMarshal_def split: if_splits)
  have "take 5 (pre @ suf) = m_Type m # PutUint32 (of_nat (length ?p))"
    unfolding f(1) by (simp add: take_Cons')
  then have hd: "take 5 pre = m_Type m # PutUint32 (of_nat (length ?p))" using False by simp
  have u: "unat (of_nat (length ?p) :: u32) = length ?p"
    using f(2) by (simp add: unat_of_nat MaxFrameSize_def)
  have "length pre + length suf = 5 + length ?p" using arg_cong [OF f(1), of length] by simp
  then have short: "length (drop 5 pre) < length ?p" using False assms(2) by (cases suf) auto
  then have "unat (of_nat (length ?p) :: u32) \<noteq> 0" unfolding u by linarith
  then have pos: "0 < (of_nat (length ?p) :: u32)" by (simp add: word_less_nat_alt)
  show ?thesis
    using False hd u f(2) short pos
    by (auto simp: DecodeFrame_def and_then_def wrap_err_def ReadFull_def HeaderSize_def Let_def)
qed

theorem DecodeFrame_truncated_witness:
  "\<not> is_ok (fst (DecodeFrame ([8, 0, 0, 0, 5], IoEOF)))"
  by (rule DecodeFrame_truncated [OF demo_msg_Encode]) (simp add: print_str_def)

text \<open>C30: a message that is decoded without error has one of the fifteen known types, and the payload
  pointer that its type calls for is set, so the handlers may dereference it.\<close>

theorem decoded_payload_present:
  assumes "DecodeFrame r = (Inr m, r')"
  shows "payload_present m \<and>
    m_Type m \<in> {MSG_HELLO, MSG_HELLO_ACK, MSG_SYNC_INIT, MSG_SYNC_INIT_ACK, MSG_FILE_CREATE, MSG_FILE_DATA,
      MSG_FILE_MODIFY, MSG_FILE_DELETE, MSG_FILE_MOVE, MSG_ACK, MSG_SYNC_DIFF, MSG_SYNC_APPLY, MSG_PING,
      MSG_PONG, MSG_ERROR}"
  using assms
proof (cases rule: DecodeFrame_okE)
  case (1 t p)
  then have "m_Type m = t" "payload_present m" using parseMessage_present by blast+
  moreover have "t \<in> {MSG_HELLO, MSG_HELLO_ACK, MSG_SYNC_INIT, MSG_SYNC_INIT_ACK, MSG_FILE_CREATE, MSG_FILE_DATA,
      MSG_FILE_MODIFY, MSG_FILE_DELETE, MSG_FILE_MOVE, MSG_ACK, MSG_SYNC_DIFF, MSG_SYNC_APPLY, MSG_PING,
      MSG_PONG, MSG_ERROR}"
    using parseMessage_invalid [of t p] 1 by fastforce
  ultimately show ?thesis by simp
next
  case (2 t)
  then show ?thesis by (auto simp: payload_present_def msg_type_defs)
qed

theorem decoded_payload_present_witness:
  "payload_present demo_msg"
  using decoded_payload_present [OF DecodeFrame_Encode [OF demo_msg_ok demo_msg_Encode, of "[]" IoEOF]] by blast

end
