(* ===== verification/Wire.thy ===== *)
theory Wire
  imports Codec FsUtil
begin

text \<open>
  \<open>netlayer/stream.go\<close>: a connection that carries messages. The socket below it is the operating
  system's: \<open>cn_in\<close> holds the bytes that are still to be read and the error that comes after them
  (the end of the stream, a reset, a timeout when a deadline is set), \<open>cn_out\<close> every byte written so
  far, and \<open>cn_room\<close> how many more bytes the socket takes before writes fail (\<open>None\<close>: no limit).
  \<open>cn_buffered\<close> counts the bytes of \<open>cn_in\<close> that the \<open>bufio.Reader\<close> has fetched already, which stay
  readable after the socket is closed.

  The write mutex makes a write of a frame one step, so that frames of concurrent writers do not mix.
\<close>

section \<open>Connections\<close>

record Conn =
  cn_in :: reader
  cn_buffered :: nat
  cn_out :: "byte list"
  cn_room :: "nat option"
  cn_closed :: bool
  cn_readDeadline :: "int option"
  cn_writeDeadline :: "int option"

definition NewConn :: "reader \<Rightarrow> nat option \<Rightarrow> Conn" where
  "NewConn input room =
     \<lparr>cn_in = input, cn_buffered = 0, cn_out = [], cn_room = room, cn_closed = False,
      cn_readDeadline = None, cn_writeDeadline = None\<rparr>"

definition read_message :: "reader \<Rightarrow> Message res \<times> reader" where
  "read_message =
     and_then (wrap_err ''read header'' (ReadFull HeaderSize))
       (\<lambda>header.
          let msgType = header ! 0; length = Uint32 (drop 1 header)
          in if unat length > MaxFrameSize then (\<lambda>r. (Inl (Wrap ''frame size'' ErrFrameTooLarge), r))
             else if length = 0 \<and> msgType \<noteq> MSG_PING \<and> msgType \<noteq> MSG_PONG
             then (\<lambda>r. (Inl (ErrMsg ''empty payload''), r))
             else if length > 0
             then and_then (wrap_err ''read payload'' (ReadFull (unat length)))
                    (\<lambda>p r. (DecodeFromBytes msgType p, r))
             else (\<lambda>r. (Inr (blank_msg msgType), r)))"

definition ReadMessage :: "Conn \<Rightarrow> Message res \<times> Conn" where
  "ReadMessage c =
     (case read_message (cn_in c) of
        (r, input) \<Rightarrow>
          (r, c\<lparr>cn_in := input,
                cn_buffered := cn_buffered c - (length (fst (cn_in c)) - length (fst input))\<rparr>))"

text \<open>The \<open>Write\<close> of the socket: all of the data, or as much as there is room for and an error.\<close>

definition conn_Write :: "byte list \<Rightarrow> Conn \<Rightarrow> unit res \<times> Conn" where
  "conn_Write data c =
     (if cn_closed c then (Inl NetClosed, c)
      else
        (case cn_room c of
           None \<Rightarrow> (Inr (), c\<lparr>cn_out := cn_out c @ data\<rparr>)
         | Some n \<Rightarrow>
             if length data \<le> n
             then (Inr (), c\<lparr>cn_out := cn_out c @ data, cn_room := Some (n - length data)\<rparr>)
             else (Inl NetError, c\<lparr>cn_out := cn_out c @ take n data, cn_room := Some 0\<rparr>)))"

definition WriteMessage :: "Message \<Rightarrow> Conn \<Rightarrow> unit res \<times> Conn" where
  "WriteMessage msg c =
     (case Encode msg of
        Inl err \<Rightarrow> (Inl (Wrap ''encode message'' err), c)
      | Inr data \<Rightarrow> conn_Write data c)"

text \<open>A closed socket delivers nothing more; what is buffered can still be read.\<close>

definition conn_Close :: "Conn \<Rightarrow> unit res \<times> Conn" where
  "conn_Close c =
     (if cn_closed c then (Inl NetClosed, c)
      else (Inr (), c\<lparr>cn_in := (take (cn_buffered c) (fst (cn_in c)), NetClosed), cn_closed := True\<rparr>))"

definition SetReadDeadline :: "int \<Rightarrow> Conn \<Rightarrow> unit res \<times> Conn" where
  "SetReadDeadline t c =
     (if cn_closed c then (Inl NetClosed, c) else (Inr (), c\<lparr>cn_readDeadline := Some t\<rparr>))"

definition SetWriteDeadline :: "int \<Rightarrow> Conn \<Rightarrow> unit res \<times> Conn" where
  "SetWriteDeadline t c =
     (if cn_closed c then (Inl NetClosed, c) else (Inr (), c\<lparr>cn_writeDeadline := Some t\<rparr>))"

text \<open>The chunk that the callbacks of the program build from the arguments of \<open>ReadFileChunked\<close>.\<close>

definition data_chunk :: "string \<Rightarrow> u64 \<Rightarrow> byte list \<Rightarrow> bool \<Rightarrow> FileDataChunk" where
  "data_chunk relPath offset data isFinal =
     \<lparr>fd_Path = relPath, fd_Flags = (if isFinal then 0 OR FlagFinalChunk else 0), fd_Offset = offset, fd_Data = data\<rparr>"

definition chunk_msg :: "string \<Rightarrow> chunk \<Rightarrow> Message" where
  "chunk_msg rel = (\<lambda>(off, data, fin). (blank_msg MSG_FILE_DATA)\<lparr>m_FileData := Some (data_chunk rel off data fin)\<rparr>)"

section \<open>Reading is decoding\<close>

lemma ReadFull_length: "ReadFull n r = (Inr p, r') \<Longrightarrow> length p = n"
  by (auto simp: ReadFull_def split: prod.splits if_splits)

text \<open>\<open>ReadMessage\<close> has its own copy of the framing code; it is \<open>DecodeFrame\<close>.\<close>

lemma read_payload_eq:
  assumes "0 < l"
  shows "and_then (wrap_err ctx (ReadFull (unat l))) (\<lambda>p r. (DecodeFromBytes t p, r)) =
    and_then (wrap_err ctx (ReadFull (unat l))) (\<lambda>p r. (parseMessage t p, r))"
proof
  fix r
  obtain x r' where "ReadFull (unat l) r = (x, r')" by (rule prod.exhaust)
  then show "and_then (wrap_err ctx (ReadFull (unat l))) (\<lambda>p r. (DecodeFromBytes t p, r)) r =
    and_then (wrap_err ctx (ReadFull (unat l))) (\<lambda>p r. (parseMessage t p, r)) r"
    using ReadFull_length [of "unat l" r _ r'] assms
    by (cases x) (auto simp: and_then_def wrap_err_def DecodeFromBytes_def word_less_nat_alt)
qed

lemma read_message_eq: "read_message = DecodeFrame"
  by (simp add: read_message_def DecodeFrame_def Let_def read_payload_eq cong: if_cong)

interpretation conn_frames: framed_stream Encode read_message msg_ok
  by unfold_locales (simp add: read_message_eq DecodeFrame_Encode)

text \<open>A message costs at least its header, so a loop that reads messages from a finite stream ends.\<close>

lemma ReadFull_consumes: "ReadFull n r = (Inr p, r') \<Longrightarrow> length (fst r) = n + length (fst r')"
  by (auto simp: ReadFull_def split: prod.splits if_splits)

lemma DecodeFrame_consumes:
  assumes "DecodeFrame r = (Inr m, r')"
  shows "length (fst r') + 5 \<le> length (fst r)"
proof -
  from assms obtain h r1 where h: "ReadFull HeaderSize r = (Inr h, r1)"
    and k: "r' = r1 \<or> (\<exists>n p. ReadFull n r1 = (Inr p, r'))"
    unfolding DecodeFrame_def Let_def
    by (fastforce elim!: and_then_okE dest!: wrap_err_okD split: if_splits)
  then show ?thesis using ReadFull_consumes [OF h] by (auto simp: HeaderSize_def dest: ReadFull_consumes)
qed

lemma ReadMessage_consumes:
  "ReadMessage c = (Inr m, c') \<Longrightarrow> length (fst (cn_in c')) + 5 \<le> length (fst (cn_in c))"
  by (auto simp: ReadMessage_def read_message_eq dest: DecodeFrame_consumes split: prod.splits)

lemma ReadMessage_sel [simp]:
  "cn_out (snd (ReadMessage c)) = cn_out c" "cn_room (snd (ReadMessage c)) = cn_room c"
  "cn_closed (snd (ReadMessage c)) = cn_closed c"
  by (simp_all add: ReadMessage_def split: prod.split)

lemma WriteMessage_sel [simp]:
  "cn_in (snd (WriteMessage m c)) = cn_in c" "cn_closed (snd (WriteMessage m c)) = cn_closed c"
  by (simp_all add: WriteMessage_def conn_Write_def split: sum.split option.split)

text \<open>A write appends the frame or, after a failure, a part of it that ends the stream.\<close>

lemma WriteMessage_cases:
  obtains (ok) data where "Encode m = Inr data" "WriteMessage m c = (Inr (), snd (WriteMessage m c))"
      "cn_out (snd (WriteMessage m c)) = cn_out c @ data"
  | (fails) e part where "fst (WriteMessage m c) = Inl e" "cn_out (snd (WriteMessage m c)) = cn_out c @ part"
      "\<And>data. Encode m = Inr data \<Longrightarrow> prefix part data"
proof (cases "Encode m")
  case (Inl e)
  then show ?thesis using that(2) [of "Wrap ''encode message'' e" "[]"] by (simp add: WriteMessage_def)
next
  case (Inr data)
  show ?thesis
  proof (cases "fst (WriteMessage m c)")
    case (Inl e)
    with Inr have "\<exists>n. cn_out (snd (WriteMessage m c)) = cn_out c @ take n data"
      by (auto simp: WriteMessage_def conn_Write_def intro: exI [of _ 0] split: if_splits option.splits)
    then obtain n where "cn_out (snd (WriteMessage m c)) = cn_out c @ take n data" ..
    with Inl Inr show ?thesis using that(2) [of e "take n data"] by (simp add: take_is_prefix)
  next
    case Inr': (Inr u)
    with Inr have "cn_out (snd (WriteMessage m c)) = cn_out c @ data"
      by (auto simp: WriteMessage_def conn_Write_def split: if_splits option.splits)
    with Inr Inr' show ?thesis using that(1) [of data] by (cases "WriteMessage m c") simp
  qed
qed

text \<open>A connection that takes everything.\<close>

definition conn_open :: "Conn \<Rightarrow> bool" where
  "conn_open c \<longleftrightarrow> \<not> cn_closed c \<and> cn_room c = None"

lemma WriteMessage_open:
  assumes "conn_open c" "Encode m = Inr data"
  shows "WriteMessage m c = (Inr (), c\<lparr>cn_out := cn_out c @ data\<rparr>)"
  using assms by (simp add: conn_open_def WriteMessage_def conn_Write_def)

lemma conn_open_write [simp]: "conn_open c \<Longrightarrow> conn_open (snd (WriteMessage m c))"
  by (simp add: conn_open_def WriteMessage_def conn_Write_def split: sum.split)

lemma conn_open_read [simp]: "conn_open c \<Longrightarrow> conn_open (snd (ReadMessage c))"
  by (simp add: conn_open_def)

lemma conn_open_New [simp]: "conn_open (NewConn input None)"
  by (simp add: conn_open_def NewConn_def)

section \<open>File chunks always fit\<close>

text \<open>The JSON of a chunk message is at most a small multiple of its content, far below the frame limit.\<close>

lemma length_esc: "length (esc c) \<le> 6"
  by (simp add: esc_def)

lemma length_esc_seq: "length (esc_seq w) \<le> 6 * length w"
  by (simp add: esc_seq_def)

lemma length_quote_body: "length (quote_body s) \<le> 6 * length s"
proof (induction s rule: quote_body.induct)
  case (1 s)
  show ?case
  proof (cases s)
    case Nil
    then show ?thesis by (simp add: quote_body.simps)
  next
    case (Cons c cs)
    let ?k = "utf8_at s"
    have le: "?k \<le> length s" by (rule utf8_at_le)
    consider "code c < 128" | "\<not> code c < 128" "?k = 0" | "\<not> code c < 128" "?k \<noteq> 0" by blast
    then show ?thesis
    proof cases
      case 1
      with "1.IH"(1) [OF Cons] length_esc [of c] show ?thesis
        by (simp add: Cons quote_body.simps [of "c # cs"])
    next
      case 2
      with "1.IH"(2) [OF Cons] show ?thesis
        by (simp add: Cons quote_body.simps [of "c # cs"] u_ffd_def)
    next
      case 3
      have "length (quote_body s) = length (esc_seq (take ?k s)) + length (quote_body (drop ?k s))"
        using 3 by (simp add: Cons quote_body.simps [of "c # cs"])
      moreover have "length (quote_body (drop ?k s)) \<le> 6 * (length s - ?k)"
        using "1.IH"(3) [OF Cons] 3 by simp
      moreover have "length (esc_seq (take ?k s)) \<le> 6 * ?k"
        using length_esc_seq [of "take ?k s"] le by simp
      ultimately show ?thesis using le by linarith
    qed
  qed
qed

lemma length_print_nat: "n < 10 ^ Suc k \<Longrightarrow> length (print_nat n) \<le> Suc k"
proof (induction k arbitrary: n)
  case 0
  then show ?case by (simp add: print_nat.simps [of n])
next
  case (Suc k)
  then have "n div 10 < 10 ^ Suc k" by (simp add: div_less_iff_less_mult)
  with Suc.IH show ?case by (simp add: print_nat.simps [of n])
qed

lemma length_print_uint:
  "length (print_nat (unat (w :: u64))) \<le> 20" "length (print_nat (unat (b :: byte))) \<le> 3"
proof -
  have "unat w < 10 ^ Suc 19" using unsigned_less [of w, where ?'a = nat] by simp
  then show "length (print_nat (unat w)) \<le> 20" using length_print_nat [of "unat w" 19] by simp
  have "unat b < 10 ^ Suc 2" using unsigned_less [of b, where ?'a = nat] by simp
  then show "length (print_nat (unat b)) \<le> 3" using length_print_nat [of "unat b" 2] by simp
qed

lemma length_b64_enc: "length (b64_enc bs) \<le> 2 * length bs + 2"
  by (induction bs rule: b64_enc.induct) (simp_all add: Let_def)

lemma length_print_str: "length (print_str s) \<le> 6 * length s + 2"
  using length_quote_body [of s] by (simp add: print_str_def)

lemma length_chunk_json:
  "length (print_json (enc_FileDataChunk c)) \<le> 6 * length (fd_Path c) + 12 * length (fd_Data c) + 1000"
proof -
  have k: "length (print_str ''path'') \<le> 100" "length (print_str ''flags'') \<le> 100"
    "length (print_str ''offset'') \<le> 100" "length (print_str ''data'') \<le> 100"
    using length_print_str [of "''path''"] length_print_str [of "''flags''"]
      length_print_str [of "''offset''"] length_print_str [of "''data''"] by simp_all
  have d: "length (print_str (b64_enc (fd_Data c))) \<le> 12 * length (fd_Data c) + 14"
    using length_print_str [of "b64_enc (fd_Data c)"] length_b64_enc [of "fd_Data c"] by linarith
  show ?thesis
    using k d length_print_str [of "fd_Path c"] length_print_uint(1) [of "fd_Offset c"] length_print_uint(2) [of "fd_Flags c"]
    by (simp add: enc_FileDataChunk_def enc_uint_def enc_bytes_def)
qed

lemma Encode_chunk:
  assumes "length (fd_Path c) \<le> 1000000" "length (fd_Data c) \<le> 65536"
  shows "\<exists>bs. Encode ((blank_msg MSG_FILE_DATA)\<lparr>m_FileData := Some c\<rparr>) = Inr bs"
proof -
  have "length (print_json (enc_FileDataChunk c)) \<le> MaxFrameSize"
    using length_chunk_json [of c] assms by (simp add: MaxFrameSize_def)
  then show ?thesis by (simp add: Encode_def jsonMarshal_def payload_def msg_type_defs enc_ptr_def)
qed

lemma length_sep_by: "length (sep_by c ws) \<le> sum_list (map length ws) + length ws"
  by (induction c ws rule: sep_by.induct) auto

lemma length_print_int:
  assumes "int64_ok i" shows "length (print_int i) \<le> 21"
proof -
  have "nat (- i) < 10 ^ Suc 19" "nat i < 10 ^ Suc 19" using assms by (auto simp: int64_ok_def)
  from this [THEN length_print_nat] show ?thesis by (simp add: print_int_def)
qed

lemma length_hash_json: "length (print_json (enc_array bs)) \<le> 4 * length bs + 2"
proof -
  have "sum_list (map (length \<circ> print_json \<circ> enc_uint) bs) \<le> 3 * length bs"
    by (induction bs) (auto simp: enc_uint_def intro: order_trans [OF add_mono [OF length_print_uint(2)]])
  then show ?thesis
    using length_sep_by [of "CHR '',''" "map (print_json \<circ> enc_uint) bs"] by (simp add: enc_array_def comp_assoc)
qed

lemma length_entry_json:
  assumes "entry_ok x"
  shows "length (print_json (enc_FileEntry x)) \<le> 6 * length (fe_Path x) + 2000"
proof -
  have rep: "int64_ok (fe_MTime x)" "int64_ok (fe_ATime x)" "length (fe_ContentHash x) = 32"
    using assms by (auto simp: entry_ok_def entry_rep_def)
  have k: "length (print_str k) \<le> 100" if "length k \<le> 12" for k using length_print_str [of k] that by linarith
  have u32: "length (print_nat (unat (w :: u32))) \<le> 10" for w
  proof -
    have "unat w < 10 ^ Suc 9" using unsigned_less [of w, where ?'a = nat] by simp
    then show ?thesis using length_print_nat [of "unat w" 9] by simp
  qed
  show ?thesis
    using k [of "''path''"] k [of "''entryType''"] k [of "''mode''"] k [of "''uid''"] k [of "''gid''"] k [of "''mtime''"]
      k [of "''atime''"] k [of "''size''"] k [of "''contentHash''"] k [of "''seq''"]
      length_print_str [of "fe_Path x"] length_print_uint(1) [of "fe_Size x"] length_print_uint(1) [of "fe_Seq x"]
      length_print_uint(2) [of "fe_EntryType x"] u32 [of "fe_Mode x"] u32 [of "fe_UID x"] u32 [of "fe_GID x"]
      length_print_int [OF rep(1)] length_print_int [OF rep(2)] length_hash_json [of "fe_ContentHash x"] rep(3)
    by (simp add: enc_FileEntry_def enc_uint_def enc_int64_def)
qed

lemma Encode_entry:
  assumes "entry_ok x" "length (fe_Path x) \<le> 1000000"
  shows "\<exists>bs. Encode ((blank_msg MSG_FILE_CREATE)\<lparr>m_FileCreate := Some x\<rparr>) = Inr bs"
    "\<exists>bs. Encode ((blank_msg MSG_FILE_MODIFY)\<lparr>m_FileModify := Some x\<rparr>) = Inr bs"
proof -
  have "length (print_json (enc_FileEntry x)) \<le> MaxFrameSize"
    using length_entry_json [OF assms(1)] assms(2) by (simp add: MaxFrameSize_def)
  then show "\<exists>bs. Encode ((blank_msg MSG_FILE_CREATE)\<lparr>m_FileCreate := Some x\<rparr>) = Inr bs"
    "\<exists>bs. Encode ((blank_msg MSG_FILE_MODIFY)\<lparr>m_FileModify := Some x\<rparr>) = Inr bs"
    by (simp_all add: Encode_def jsonMarshal_def payload_def msg_type_defs enc_ptr_def)
qed

lemma enc_all_ok: "(\<And>m. m \<in> set ms \<Longrightarrow> \<exists>b. enc m = Inr b) \<Longrightarrow> \<exists>bs. enc_all enc ms = Inr bs"
proof (induction ms)
  case (Cons m ms)
  then obtain b bs where "enc m = Inr b" "enc_all enc ms = Inr bs" by fastforce
  then show ?case by simp
qed simp

lemma chunk_sizes: "(off, d, fin) \<in> set (file_chunks data) \<Longrightarrow> length d \<le> 65536"
  using cut_shape [of off d fin "ChunkSize - 1" 0 data]
  by (auto simp: file_chunks_def ChunkSize_def split: if_splits)

lemma chunk_msgs_fit:
  assumes "length rel \<le> 1000000"
  shows "\<exists>bs. enc_all Encode (map (chunk_msg rel) (file_chunks data)) = Inr bs"
proof (rule enc_all_ok)
  fix m assume "m \<in> set (map (chunk_msg rel) (file_chunks data))"
  then obtain off d fin where "(off, d, fin) \<in> set (file_chunks data)" "m = chunk_msg rel (off, d, fin)" by auto
  then show "\<exists>b. Encode m = Inr b"
    using Encode_chunk [of "data_chunk rel off d fin"] assms chunk_sizes
    by (simp add: chunk_msg_def data_chunk_def)
qed

section \<open>Properties\<close>

text \<open>C27: \<open>ReadMessage\<close>, which repeats the framing code of the protocol package over a buffered connection,
  is \<open>DecodeFrame\<close> on the bytes of the connection, and leaves everything the connection has written
  alone.\<close>

theorem ReadMessage_is_DecodeFrame:
  "fst (ReadMessage c) = fst (DecodeFrame (cn_in c)) \<and> cn_in (snd (ReadMessage c)) = snd (DecodeFrame (cn_in c)) \<and>
   cn_out (snd (ReadMessage c)) = cn_out c"
  by (simp add: ReadMessage_def read_message_eq split: prod.split)

end
