(* ===== verification/TcpServer.thy ===== *)
theory TcpServer
  imports Wire
begin

text \<open>
  \<open>netlayer/server.go\<close>: the server's table of client sessions. A session is a Go object that the table
  and the goroutine of its handler share through a pointer, so the model keeps every session ever
  accepted in a list, \<open>sv_sessions\<close>, and a pointer is a position in that list. The table maps client
  numbers to pointers.

  Accepting is the operating system's: \<open>serve\<close>, the loop of \<open>ListenAndServe\<close>, runs on the list of what
  \<open>Accept\<close> returns.
\<close>

section \<open>State\<close>

record ClientSession =
  cs_ID :: u32
  cs_Conn :: Conn
  cs_SyncDir :: string

type_synonym session = nat

record Server =
  sv_addr :: string
  sv_clients :: "(u32, session) gomap"
  sv_nextID :: u32
  sv_listener :: "bool option"
  sv_sessions :: "ClientSession list"

definition NewServer :: "string \<Rightarrow> Server" where
  "NewServer addr =
     \<lparr>sv_addr = addr, sv_clients = gm_make, sv_nextID = 1, sv_listener = None, sv_sessions = []\<rparr>"

abbreviation session_at :: "Server \<Rightarrow> session \<Rightarrow> ClientSession" where
  "session_at s a \<equiv> sv_sessions s ! a"

abbreviation conn_at :: "Server \<Rightarrow> session \<Rightarrow> Conn" where
  "conn_at s a \<equiv> cs_Conn (sv_sessions s ! a)"

definition set_session :: "session \<Rightarrow> ClientSession \<Rightarrow> Server \<Rightarrow> Server" where
  "set_session a x s = s\<lparr>sv_sessions := (sv_sessions s)[a := x]\<rparr>"

section \<open>Accepting\<close>

definition accept :: "reader \<Rightarrow> nat option \<Rightarrow> Server \<Rightarrow> session \<times> Server" where
  "accept input room s =
     (let cid = sv_nextID s; a = length (sv_sessions s)
      in (a, s\<lparr>sv_nextID := sv_nextID s + 1,
               sv_sessions := sv_sessions s @ [\<lparr>cs_ID = cid, cs_Conn = NewConn input room, cs_SyncDir = []\<rparr>],
               sv_clients := gm_set (sv_clients s) cid a\<rparr>))"

text \<open>The deferred function of the handler's goroutine.\<close>

definition disconnect :: "session \<Rightarrow> Server \<Rightarrow> Server" where
  "disconnect a s =
     (let x = session_at s a;
          s1 = set_session a (x\<lparr>cs_Conn := snd (conn_Close (cs_Conn x))\<rparr>) s
      in s1\<lparr>sv_clients := gm_delete (sv_clients s1) (cs_ID x)\<rparr>)"

text \<open>An error of \<open>Accept\<close> ends the loop when it is, or wraps, or mentions a closed listener.\<close>

fun listener_closed :: "error \<Rightarrow> bool" where
  "listener_closed NetClosed = True"
| "listener_closed (Wrap ctx e) = (sublist ''use of closed network connection'' ctx \<or> listener_closed e)"
| "listener_closed (ErrMsg msg) = sublist ''use of closed network connection'' msg"
| "listener_closed _ = False"

datatype accept_result = Accepted reader "nat option" | AcceptError error

fun serve :: "accept_result list \<Rightarrow> Server \<Rightarrow> error option \<times> Server" where
  "serve [] s = (None, s)"
| "serve (Accepted input room # as) s = serve as (snd (accept input room s))"
| "serve (AcceptError e # as) s =
     (if listener_closed e then (Some (Wrap ''accept'' e), s\<lparr>sv_listener := Some False\<rparr>) else serve as s)"

definition ListenAndServe :: "error option \<Rightarrow> accept_result list \<Rightarrow> Server \<Rightarrow> error option \<times> Server" where
  "ListenAndServe listen as s =
     (case listen of
        Some e \<Rightarrow> (Some (Wrap ''listen'' e), s)
      | None \<Rightarrow> serve as (s\<lparr>sv_listener := Some True\<rparr>))"

definition server_Close :: "Server \<Rightarrow> unit res \<times> Server" where
  "server_Close s =
     (case sv_listener s of
        None \<Rightarrow> (Inr (), s)
      | Some True \<Rightarrow> (Inr (), s\<lparr>sv_listener := Some False\<rparr>)
      | Some False \<Rightarrow> (Inl NetClosed, s))"

section \<open>Clients\<close>

definition GetClients :: "Server \<Rightarrow> session list" where
  "GetClients s = map snd (sv_clients s)"

definition GetClient :: "u32 \<Rightarrow> Server \<Rightarrow> session option" where
  "GetClient cid s = gm_get (sv_clients s) cid"

text \<open>\<open>c.Conn.WriteMessage(msg)\<close> and \<open>c.Conn.ReadMessage()\<close> for a session pointer.\<close>

definition session_write :: "Message \<Rightarrow> session \<Rightarrow> Server \<Rightarrow> unit res \<times> Server" where
  "session_write msg a s =
     (case WriteMessage msg (conn_at s a) of
        (r, c) \<Rightarrow> (r, set_session a ((session_at s a)\<lparr>cs_Conn := c\<rparr>) s))"

definition session_read :: "session \<Rightarrow> Server \<Rightarrow> Message res \<times> Server" where
  "session_read a s =
     (case ReadMessage (conn_at s a) of
        (r, c) \<Rightarrow> (r, set_session a ((session_at s a)\<lparr>cs_Conn := c\<rparr>) s))"

definition Broadcast :: "u32 \<Rightarrow> Message \<Rightarrow> Server \<Rightarrow> Server" where
  "Broadcast senderID msg s =
     (let clients = filter (\<lambda>a. cs_ID (session_at s a) \<noteq> senderID) (map snd (sv_clients s))
      in fold (\<lambda>a s. snd (session_write msg a s)) clients s)"

section \<open>Invariant\<close>

text \<open>The table holds live pointers under the number of the session they point to.\<close>

definition srv_ok :: "Server \<Rightarrow> bool" where
  "srv_ok s \<longleftrightarrow> gm_ok (sv_clients s) \<and>
     (\<forall>(k, a) \<in> set (sv_clients s). a < length (sv_sessions s) \<and> cs_ID (session_at s a) = k)"

lemma srv_okD:
  assumes "srv_ok s" "(k, a) \<in> set (sv_clients s)"
  shows "a < length (sv_sessions s)" "cs_ID (session_at s a) = k"
  using assms by (auto simp: srv_ok_def)

lemma srv_ok_New [simp]: "srv_ok (NewServer addr)"
  by (simp add: srv_ok_def NewServer_def gm_ok_make)

lemma in_gm_set: "gm_ok m \<Longrightarrow> (k', v') \<in> set (gm_set m k v) \<longleftrightarrow> (if k' = k then v' = v else (k', v') \<in> set m)"
  by (auto simp: gm_get_Some_iff [symmetric] gm_ok_set)

lemma in_gm_delete: "gm_ok m \<Longrightarrow> (k', v') \<in> set (gm_delete m k) \<longleftrightarrow> k' \<noteq> k \<and> (k', v') \<in> set m"
  by (auto simp: gm_get_Some_iff [symmetric] gm_ok_delete)

lemma set_session_sel [simp]:
  "sv_clients (set_session a x s) = sv_clients s" "sv_nextID (set_session a x s) = sv_nextID s"
  "sv_listener (set_session a x s) = sv_listener s" "sv_addr (set_session a x s) = sv_addr s"
  "length (sv_sessions (set_session a x s)) = length (sv_sessions s)"
  "session_at (set_session a x s) b = (if a = b \<and> a < length (sv_sessions s) then x else session_at s b)"
  by (simp_all add: set_session_def, cases "a = b", simp_all add: list_update_beyond)

lemma session_write_sel [simp]:
  "sv_clients (snd (session_write m a s)) = sv_clients s" "sv_nextID (snd (session_write m a s)) = sv_nextID s"
  "length (sv_sessions (snd (session_write m a s))) = length (sv_sessions s)"
  "cs_ID (session_at (snd (session_write m a s)) b) = cs_ID (session_at s b)"
  "cs_SyncDir (session_at (snd (session_write m a s)) b) = cs_SyncDir (session_at s b)"
  "conn_at (snd (session_write m a s)) b =
     (if a = b \<and> a < length (sv_sessions s) then snd (WriteMessage m (conn_at s b)) else conn_at s b)"
  by (auto simp: session_write_def split: prod.split)

lemma session_read_sel [simp]:
  "sv_clients (snd (session_read a s)) = sv_clients s" "sv_nextID (snd (session_read a s)) = sv_nextID s"
  "length (sv_sessions (snd (session_read a s))) = length (sv_sessions s)"
  "cs_ID (session_at (snd (session_read a s)) b) = cs_ID (session_at s b)"
  "conn_at (snd (session_read a s)) b =
     (if a = b \<and> a < length (sv_sessions s) then snd (ReadMessage (conn_at s b)) else conn_at s b)"
  by (auto simp: session_read_def split: prod.split)

lemma srv_ok_accept: "srv_ok s \<Longrightarrow> srv_ok (snd (accept input room s))"
  by (auto simp: srv_ok_def accept_def Let_def gm_ok_set in_gm_set nth_append split: if_splits)

lemma srv_ok_same:
  assumes "srv_ok s" "sv_clients t = sv_clients s" "length (sv_sessions t) = length (sv_sessions s)"
    "\<And>b. cs_ID (session_at t b) = cs_ID (session_at s b)"
  shows "srv_ok t"
  using assms by (simp add: srv_ok_def)

lemma srv_ok_write: "srv_ok s \<Longrightarrow> srv_ok (snd (session_write m a s))"
  by (erule srv_ok_same) simp_all

lemma srv_ok_read: "srv_ok s \<Longrightarrow> srv_ok (snd (session_read a s))"
  by (erule srv_ok_same) simp_all

lemma srv_ok_disconnect: "srv_ok s \<Longrightarrow> srv_ok (disconnect a s)"
  by (auto simp: srv_ok_def disconnect_def Let_def gm_ok_delete in_gm_delete)

section \<open>Broadcast\<close>

text \<open>A loop that writes one message to each of a list of distinct sessions.\<close>

lemma fold_write:
  assumes "distinct as" "\<forall>a \<in> set as. a < length (sv_sessions s)"
  shows "let t = fold (\<lambda>a s. snd (session_write m a s)) as s
    in sv_clients t = sv_clients s \<and> length (sv_sessions t) = length (sv_sessions s) \<and>
       sv_nextID t = sv_nextID s \<and>
       (\<forall>b. cs_ID (session_at t b) = cs_ID (session_at s b) \<and>
          conn_at t b = (if b \<in> set as then snd (WriteMessage m (conn_at s b)) else conn_at s b))"
  using assms
proof (induction as arbitrary: s)
  case Nil
  then show ?case by simp
next
  case (Cons a as)
  then show ?case using Cons.IH [of "snd (session_write m a s)"] by (auto simp: Let_def)
qed

lemma distinct_clients:
  assumes "srv_ok s" shows "distinct (map snd (sv_clients s))"
proof -
  have "inj_on snd (set (sv_clients s))"
  proof (rule inj_onI)
    fix x y assume "x \<in> set (sv_clients s)" "y \<in> set (sv_clients s)" "snd x = snd y"
    then show "x = y" using srv_okD(2) [OF assms] by (metis prod.collapse)
  qed
  moreover have "distinct (sv_clients s)"
    using assms by (auto simp: srv_ok_def gm_ok_def distinct_map)
  ultimately show ?thesis by (simp add: distinct_map)
qed

lemma Broadcast_sel:
  assumes "srv_ok s"
  shows "sv_clients (Broadcast sid m s) = sv_clients s"
    and "length (sv_sessions (Broadcast sid m s)) = length (sv_sessions s)"
    and "sv_nextID (Broadcast sid m s) = sv_nextID s"
    and "cs_ID (session_at (Broadcast sid m s) b) = cs_ID (session_at s b)"
    and "conn_at (Broadcast sid m s) b =
      (if (\<exists>k. (k, b) \<in> set (sv_clients s) \<and> k \<noteq> sid) then snd (WriteMessage m (conn_at s b)) else conn_at s b)"
proof -
  let ?as = "filter (\<lambda>a. cs_ID (session_at s a) \<noteq> sid) (map snd (sv_clients s))"
  have d: "distinct ?as" using distinct_clients [OF assms] by simp
  have l: "\<forall>a \<in> set ?as. a < length (sv_sessions s)" using srv_okD(1) [OF assms] by auto
  have m: "b \<in> set ?as \<longleftrightarrow> (\<exists>k. (k, b) \<in> set (sv_clients s) \<and> k \<noteq> sid)"
    using srv_okD(2) [OF assms] by (force simp: image_iff)
  show "sv_clients (Broadcast sid m s) = sv_clients s"
    "length (sv_sessions (Broadcast sid m s)) = length (sv_sessions s)"
    "sv_nextID (Broadcast sid m s) = sv_nextID s"
    "cs_ID (session_at (Broadcast sid m s) b) = cs_ID (session_at s b)"
    "conn_at (Broadcast sid m s) b =
      (if (\<exists>k. (k, b) \<in> set (sv_clients s) \<and> k \<noteq> sid) then snd (WriteMessage m (conn_at s b)) else conn_at s b)"
    using fold_write [OF d l, of m] m by (simp_all add: Broadcast_def Let_def)
qed

lemma srv_ok_Broadcast: "srv_ok s \<Longrightarrow> srv_ok (Broadcast sid m s)"
  by (rule srv_ok_same [of s]) (simp_all add: Broadcast_sel)

section \<open>Every interleaving of the connections\<close>

text \<open>What the goroutines of the server do to the table and the sessions, one critical section or one
  message at a time.\<close>

inductive srv_step :: "Server \<Rightarrow> Server \<Rightarrow> bool" where
  connects: "srv_step s (snd (accept input room s))"
| reads: "srv_step s (snd (session_read a s))"
| writes: "srv_step s (snd (session_write m a s))"
| broadcasts: "srv_step s (Broadcast sid m s)"
| leaves: "a < length (sv_sessions s) \<Longrightarrow> srv_step s (disconnect a s)"
| shuts: "srv_step s (snd (server_Close s))"

text \<open>Numbers are handed out from 1; until they wrap around, the \<open>a\<close>-th session has number \<open>a + 1\<close> and
  is in the table exactly as long as its connection is open.\<close>

definition srv_inv :: "Server \<Rightarrow> bool" where
  "srv_inv s \<longleftrightarrow> srv_ok s \<and>
     (length (sv_sessions s) < 2 ^ 32 - 1 \<longrightarrow>
        sv_nextID s = of_nat (Suc (length (sv_sessions s))) \<and>
        (\<forall>a < length (sv_sessions s). cs_ID (session_at s a) = of_nat (Suc a) \<and>
           gm_get (sv_clients s) (of_nat (Suc a)) = (if cn_closed (conn_at s a) then None else Some a)))"

lemma unat_number:
  assumes "n < 2 ^ 32 - 1" shows "unat (of_nat (Suc n) :: u32) = Suc n"
proof -
  have "Suc n < 2 ^ 32" using assms by linarith
  then show ?thesis by (simp add: unat_of_nat del: of_nat_Suc)
qed

lemma number_inject:
  assumes "a < 2 ^ 32 - 1" "b < 2 ^ 32 - 1"
  shows "(of_nat (Suc a) :: u32) = of_nat (Suc b) \<longleftrightarrow> a = b"
  using unat_number [OF assms(1)] unat_number [OF assms(2)] by (metis Suc_inject)

lemma srv_inv_same:
  assumes "srv_inv s" "srv_ok t" "sv_clients t = sv_clients s" "length (sv_sessions t) = length (sv_sessions s)"
    "sv_nextID t = sv_nextID s"
    "\<And>b. cs_ID (session_at t b) = cs_ID (session_at s b)"
    "\<And>b. cn_closed (conn_at t b) = cn_closed (conn_at s b)"
  shows "srv_inv t"
  using assms by (simp add: srv_inv_def)

lemma srv_inv_accept:
  assumes "srv_inv s" shows "srv_inv (snd (accept input room s))"
proof -
  let ?n = "length (sv_sessions s)" and ?t = "snd (accept input room s)"
  have ok: "srv_ok ?t" using assms by (simp add: srv_inv_def srv_ok_accept)
  have "sv_nextID ?t = of_nat (Suc (Suc ?n)) \<and>
      (\<forall>a < Suc ?n. cs_ID (session_at ?t a) = of_nat (Suc a) \<and>
         gm_get (sv_clients ?t) (of_nat (Suc a)) = (if cn_closed (conn_at ?t a) then None else Some a))"
    if "Suc ?n < 2 ^ 32 - 1"
  proof -
    from that assms have i: "sv_nextID s = of_nat (Suc ?n)"
      "\<And>a. a < ?n \<Longrightarrow> cs_ID (session_at s a) = of_nat (Suc a)"
      "\<And>a. a < ?n \<Longrightarrow> gm_get (sv_clients s) (of_nat (Suc a)) = (if cn_closed (conn_at s a) then None else Some a)"
      by (auto simp: srv_inv_def)
    have "(of_nat (Suc a) :: u32) = of_nat (Suc ?n) \<longleftrightarrow> a = ?n" if "a < Suc ?n" for a
      using number_inject [of a ?n] that \<open>Suc ?n < 2 ^ 32 - 1\<close> by linarith
    then show ?thesis
      using i by (auto simp del: of_nat_Suc simp: accept_def Let_def nth_append NewConn_def less_Suc_eq) simp
  qed
  with ok show ?thesis by (simp add: srv_inv_def accept_def Let_def del: of_nat_Suc)
qed

lemma srv_inv_disconnect:
  assumes "srv_inv s" "a < length (sv_sessions s)" shows "srv_inv (disconnect a s)"
proof -
  let ?t = "disconnect a s" and ?n = "length (sv_sessions s)"
  have ok: "srv_ok ?t" using assms by (simp add: srv_inv_def srv_ok_disconnect)
  have "cs_ID (session_at ?t b) = of_nat (Suc b) \<and>
      gm_get (sv_clients ?t) (of_nat (Suc b)) = (if cn_closed (conn_at ?t b) then None else Some b)"
    if "?n < 2 ^ 32 - 1" "b < ?n" for b
  proof -
    from that assms have i: "cs_ID (session_at s c) = of_nat (Suc c) \<and>
        gm_get (sv_clients s) (of_nat (Suc c)) = (if cn_closed (conn_at s c) then None else Some c)" if "c < ?n" for c
      using that by (simp add: srv_inv_def)
    have "(of_nat (Suc b) :: u32) = of_nat (Suc a) \<longleftrightarrow> b = a"
      using number_inject [of b a] that assms(2) by linarith
    then show ?thesis
      using i [of a] i [of b] that assms(2) by (auto simp del: of_nat_Suc simp: disconnect_def Let_def conn_Close_def)
  qed
  with ok assms show ?thesis
    by (simp add: srv_inv_def disconnect_def Let_def del: of_nat_Suc)
qed

interpretation server: inv_steps srv_step srv_inv
proof unfold_locales
  fix s t assume inv: "srv_inv s" and st: "srv_step s t"
  have ok: "srv_ok s" using inv by (simp add: srv_inv_def)
  from st show "srv_inv t"
  proof cases
    case (reads a)
    then show ?thesis by (intro srv_inv_same [OF inv]) (simp_all add: srv_ok_read ok)
  next
    case (writes m a)
    then show ?thesis by (intro srv_inv_same [OF inv]) (simp_all add: srv_ok_write ok)
  next
    case (broadcasts sid m)
    then show ?thesis by (intro srv_inv_same [OF inv]) (simp_all add: srv_ok_Broadcast Broadcast_sel ok)
  next
    case shuts
    then show ?thesis using inv by (auto simp: server_Close_def srv_inv_def srv_ok_def split: option.split bool.split)
  qed (simp_all add: srv_inv_accept srv_inv_disconnect inv)
qed

lemma srv_inv_New: "srv_inv (NewServer addr)"
  using srv_ok_New by (simp add: srv_inv_def) (simp add: NewServer_def)

section \<open>Properties\<close>

text \<open>C13: a broadcast writes the message's frame, whole, to every open connection in the table except the
  sender's, and touches nothing else: the sender's connection, the table and the sessions that are no
  longer in it stay as they were. Whether the write to one client fails makes no difference to another.\<close>

theorem Broadcast_exact:
  assumes "srv_ok s" "Encode m = Inr data"
  shows "sv_clients (Broadcast sid m s) = sv_clients s \<and>
    (\<forall>k b. GetClient k s = Some b \<and> k \<noteq> sid \<and> conn_open (conn_at s b) \<longrightarrow>
       conn_at (Broadcast sid m s) b = (conn_at s b)\<lparr>cn_out := cn_out (conn_at s b) @ data\<rparr>) \<and>
    (\<forall>b. b \<notin> set (GetClients s) \<or> cs_ID (session_at s b) = sid \<longrightarrow>
       conn_at (Broadcast sid m s) b = conn_at s b)"
proof -
  have t: "(k, b) \<in> set (sv_clients s) \<longleftrightarrow> GetClient k s = Some b" for k b
    using assms(1) by (simp add: GetClient_def srv_ok_def gm_get_Some_iff)
  show ?thesis
    using srv_okD(2) [OF assms(1)] t WriteMessage_open [OF _ assms(2)]
    by (force simp: Broadcast_sel [OF assms(1)] GetClients_def image_iff)
qed

definition demo_server :: Server where
  "demo_server = snd (accept ([], IoEOF) None (snd (accept ([], IoEOF) None (NewServer ''s''))))"

theorem Broadcast_exact_witness:
  "\<exists>data. Encode demo_msg = Inr data \<and> cn_out (conn_at (Broadcast 1 demo_msg demo_server) 1) = data \<and>
    cn_out (conn_at (Broadcast 1 demo_msg demo_server) 0) = []"
proof -
  have ok: "srv_ok demo_server" by (simp add: demo_server_def srv_ok_accept)
  have "GetClient 2 demo_server = Some 1" "conn_at demo_server 1 = NewConn ([], IoEOF) None"
    "cs_ID (session_at demo_server 0) = 1" "conn_at demo_server 0 = NewConn ([], IoEOF) None"
    by (simp_all add: demo_server_def accept_def Let_def NewServer_def GetClient_def)
  moreover note Broadcast_exact [OF ok demo_msg_Encode, of 1]
  ultimately have "conn_at (Broadcast 1 demo_msg demo_server) 1 = (NewConn ([], IoEOF) None)
      \<lparr>cn_out := [8, 0, 0, 0, 5] @ str_bytes (print_json (JStr ''a/b''))\<rparr>"
    "conn_at (Broadcast 1 demo_msg demo_server) 0 = NewConn ([], IoEOF) None"
    by (force simp: NewConn_def conn_open_def)+
  then show ?thesis by (simp add: demo_msg_Encode NewConn_def)
qed



end
