(* ===== verification/Config.thy ===== *)
theory Config
  imports Prelude
begin

text \<open>\<open>config/config.go\<close>: the settings of the two programs and their defaults.\<close>

record ServerConfig =
  sc_ListenAddr :: string
  sc_ServerDir :: string
  sc_LogLevel :: string
  sc_MaxClients :: int

record ClientConfig =
  cc_ServerAddr :: string
  cc_LocalDir :: string
  cc_ClientID :: string
  cc_LogLevel :: string
  cc_Reconnect :: bool
  cc_MaxDelaySec :: int

definition DefaultServerConfig :: ServerConfig where
  "DefaultServerConfig =
     \<lparr>sc_ListenAddr = '':8765'', sc_ServerDir = ''/data/sync'', sc_LogLevel = ''info'', sc_MaxClients = 50\<rparr>"

definition DefaultClientConfig :: ClientConfig where
  "DefaultClientConfig =
     \<lparr>cc_ServerAddr = ''127.0.0.1:8765'', cc_LocalDir = ''/home/user/sync'', cc_ClientID = [],
      cc_LogLevel = ''info'', cc_Reconnect = True, cc_MaxDelaySec = 60\<rparr>"

end
