(* ===== verification/ServerMain.thy ===== *)
theory ServerMain
  imports Monitor TcpServer Config
begin

text \<open>
  \<open>cmd/server/main.go\<close>: the server program. Its goroutines share the sync engine, the disk, the table
  of sessions and the directory monitor; \<open>SrvState\<close> puts them together. A handler that returns early
  after logging an error is a function whose result is that error; a panic is \<open>Inl GoPanic\<close>.
  Log output is not modelled.
\<close>

section \<open>State\<close>

record SrvState =
  ss_engine :: Engine
  ss_fs :: fs
  ss_srv :: Server
  ss_mon :: Monitor

definition on_fs :: "(fs \<Rightarrow> 'a res \<times> fs) \<Rightarrow> SrvState \<Rightarrow> 'a res \<times> SrvState" where
  "on_fs f s = (case f (ss_fs s) of (r, fs) \<Rightarrow> (r, s\<lparr>ss_fs := fs\<rparr>))"

definition on_srv :: "(Server \<Rightarrow> 'a res \<times> Server) \<Rightarrow> SrvState \<Rightarrow> 'a res \<times> SrvState" where
  "on_srv f s = (case f (ss_srv s) of (r, srv) \<Rightarrow> (r, s\<lparr>ss_srv := srv\<rparr>))"

abbreviation srv_base :: "SrvState \<Rightarrow> string" where
  "srv_base s \<equiv> e_baseDir (ss_engine s)"

text \<open>\<open>engine.ScanLocal()\<close> with its error ignored, and \<open>monitor.Ignore\<close>.\<close>

definition rescan :: "SrvState \<Rightarrow> SrvState" where
  "rescan s = s\<lparr>ss_engine := snd (ScanLocal (ss_engine s) (ss_fs s))\<rparr>"

definition ignore_path :: "string \<Rightarrow> int \<Rightarrow> SrvState \<Rightarrow> SrvState" where
  "ignore_path path duration s = s\<lparr>ss_mon := Ignore path duration (ss_mon s)\<rparr>"

abbreviation Millisecond :: int where "Millisecond \<equiv> 1000000"

section \<open>Applying a client's changes\<close>

definition applyFileCreate :: "string \<Rightarrow> FileEntry \<Rightarrow> fs \<Rightarrow> unit res \<times> fs" where
  "applyFileCreate baseDir entry =
     (let path = Join baseDir (fe_Path entry)
      in if fe_EntryType entry = FileTypeDirectory then MkdirAll path (fe_Mode entry)
         else and_then (EnsureDir path) (\<lambda>_. and_then (Create path) (\<lambda>_. ApplyAttrs path entry)))"

definition applyFileModify :: "string \<Rightarrow> FileEntry \<Rightarrow> fs \<Rightarrow> unit res \<times> fs" where
  "applyFileModify baseDir entry = ApplyAttrs (Join baseDir (fe_Path entry)) entry"

definition handle_create :: "FileEntry \<Rightarrow> SrvState \<Rightarrow> unit res \<times> SrvState" where
  "handle_create entry s =
     and_then (wrap_err ''create file'' (on_fs (applyFileCreate (srv_base s) entry)))
       (\<lambda>_ s.
          let e = ClearTombstone (ss_engine s) (fe_Path entry);
              e' = e\<lparr>e_remoteTree := Set_tree (e_remoteTree e) entry\<rparr>
          in (Inr (), rescan (s\<lparr>ss_engine := e'\<rparr>)))
       (ignore_path (fe_Path entry) (2000 * Millisecond) s)"

definition handle_modify :: "FileEntry \<Rightarrow> SrvState \<Rightarrow> unit res \<times> SrvState" where
  "handle_modify entry s =
     and_then (wrap_err ''modify file'' (on_fs (applyFileModify (srv_base s) entry)))
       (\<lambda>_ s.
          let e = ss_engine s
          in (Inr (), rescan (s\<lparr>ss_engine := e\<lparr>e_remoteTree := Set_tree (e_remoteTree e) entry\<rparr>\<rparr>)))
       (ignore_path (fe_Path entry) (2000 * Millisecond) s)"

definition handle_delete :: "session \<Rightarrow> Message \<Rightarrow> SrvState \<Rightarrow> unit res \<times> SrvState" where
  "handle_delete a msg s =
     (let rel = m_FileDelete msg
      in and_then (wrap_err ''delete file'' (on_fs (DeleteEntry (Join (srv_base s) rel))))
           (\<lambda>_ s.
              let e = ss_engine s;
                  e1 = e\<lparr>e_remoteTree := Remove (e_remoteTree e) rel\<rparr>;
                  e2 = e1\<lparr>e_localTree := Remove (e_localTree e1) rel\<rparr>;
                  s1 = rescan (s\<lparr>ss_engine := AddTombstone e2 rel\<rparr>)
              in (Inr (), s1\<lparr>ss_srv := Broadcast (cs_ID (session_at (ss_srv s1) a)) msg (ss_srv s1)\<rparr>))
           (ignore_path rel (2000 * Millisecond) s))"

definition handle_data :: "session \<Rightarrow> Message \<Rightarrow> FileDataChunk \<Rightarrow> SrvState \<Rightarrow> unit res \<times> SrvState" where
  "handle_data a msg chunk s =
     (let fullPath = Join (srv_base s) (fd_Path chunk)
      in and_then
           (wrap_err ''write chunk'' (on_fs (WriteChunkAt fullPath (fd_Data chunk) (sint (fd_Offset chunk)))))
           (\<lambda>_ s. (Inr (), s\<lparr>ss_srv := Broadcast (cs_ID (session_at (ss_srv s) a)) msg (ss_srv s)\<rparr>))
           (snd (on_fs (EnsureDir fullPath) s)))"

definition handleMessage :: "session \<Rightarrow> Message \<Rightarrow> SrvState \<Rightarrow> unit res \<times> SrvState" where
  "handleMessage a msg s =
     (let t = m_Type msg
      in if t = MSG_FILE_CREATE then
           (case m_FileCreate msg of None \<Rightarrow> (Inl GoPanic, s) | Some entry \<Rightarrow> handle_create entry s)
         else if t = MSG_FILE_MODIFY then
           (case m_FileModify msg of None \<Rightarrow> (Inl GoPanic, s) | Some entry \<Rightarrow> handle_modify entry s)
         else if t = MSG_FILE_DELETE then handle_delete a msg s
         else if t = MSG_FILE_DATA then
           (case m_FileData msg of None \<Rightarrow> (Inl GoPanic, s) | Some chunk \<Rightarrow> handle_data a msg chunk s)
         else if t = MSG_PING then on_srv (session_write (blank_msg MSG_PONG) a) s
         else (Inr (), s))"

section \<open>Serving a client\<close>

text \<open>The handshake: read HELLO, answer with the client's number and the server's tree.\<close>

definition hello_ack :: "u32 \<Rightarrow> Message" where
  "hello_ack cid = (blank_msg MSG_HELLO_ACK)\<lparr>m_HelloAck :=
     Some \<lparr>ha_ServerID = ''file-sync-server-1.0'', ha_ClientID = cid, ha_Status = 0\<rparr>\<rparr>"

definition set_SyncDir :: "session \<Rightarrow> string \<Rightarrow> Server \<Rightarrow> Server" where
  "set_SyncDir a dir srv = set_session a ((session_at srv a)\<lparr>cs_SyncDir := dir\<rparr>) srv"

definition hc_hello :: "session \<Rightarrow> SrvState \<Rightarrow> unit res \<times> SrvState" where
  "hc_hello a =
     and_then (wrap_err ''read hello'' (on_srv (session_read a)))
       (\<lambda>msg s.
          if m_Type msg \<noteq> MSG_HELLO then (Inl (ErrMsg ''expected HELLO''), s)
          else
            (case m_Hello msg of
               None \<Rightarrow> (Inl GoPanic, s)
             | Some hello \<Rightarrow>
                 and_then
                   (wrap_err ''send hello ack''
                     (\<lambda>s. on_srv (session_write (hello_ack (cs_ID (session_at (ss_srv s) a))) a) s))
                   (\<lambda>_. wrap_err ''send sync init''
                     (\<lambda>s. on_srv (session_write
                        ((blank_msg MSG_SYNC_INIT)\<lparr>m_SyncInit := Some (BuildSyncTree (ss_engine s))\<rparr>) a) s))
                   (s\<lparr>ss_srv := set_SyncDir a (hp_SyncDir hello) (ss_srv s)\<rparr>)))"

text \<open>The changes the client needs: what \<open>DiffInitial\<close> finds, and a deletion for every entry of the
  client's that the server does not have but has a tombstone for.\<close>

definition tree_entries :: "SyncTree \<Rightarrow> FileEntry list" where
  "tree_entries tree = List.map_filter (\<lambda>x. x) (st_Entries tree)"

definition tombstone_deletes :: "Engine \<Rightarrow> FileEntry list \<Rightarrow> ChangeEvent list" where
  "tombstone_deletes e entries =
     (let tombstones = Tombstones e; localPaths = Paths (e_localTree e)
      in map (\<lambda>entry. blank_event\<lparr>ce_Type := ''delete'', ce_Path := fe_Path entry\<rparr>)
           (filter (\<lambda>entry. \<not> gm_flag localPaths (fe_Path entry) \<and> gm_flag tombstones (fe_Path entry)) entries))"

definition sync_changes :: "Engine \<Rightarrow> FileEntry list \<Rightarrow> ChangeEvent list" where
  "sync_changes e entries = DiffInitial (e_localTree e) (e_remoteTree e) @ tombstone_deletes e entries"

text \<open>Streaming a file to one session; errors only end the stream.\<close>

definition stream_file :: "session \<Rightarrow> string \<Rightarrow> SrvState \<Rightarrow> SrvState" where
  "stream_file a rel s =
     snd (on_srv (ReadFileChunked (Join (srv_base s) rel) (ss_fs s)
       (\<lambda>offset data isFinal. session_write (chunk_msg rel (offset, data, isFinal)) a)) s)"

definition stream_change :: "session \<Rightarrow> ChangeEvent \<Rightarrow> SrvState \<Rightarrow> SrvState" where
  "stream_change a c s =
     (case ce_Entry c of
        None \<Rightarrow> s
      | Some entry \<Rightarrow>
          if (ce_Type c = ''create'' \<or> ce_Type c = ''modify'') \<and> fe_EntryType entry = FileTypeRegularFile
          then stream_file a (fe_Path entry) s else s)"

definition sync_apply_msg :: "ChangeEvent list \<Rightarrow> Message" where
  "sync_apply_msg changes =
     (blank_msg MSG_SYNC_APPLY)\<lparr>m_SyncApply := Some \<lparr>sa_Ops = map Some (buildSyncOps changes)\<rparr>\<rparr>"

definition hc_exchange :: "session \<Rightarrow> SyncTree \<Rightarrow> SrvState \<Rightarrow> unit res \<times> SrvState" where
  "hc_exchange a tree s =
     (case SetRemoteTree (ss_engine s) tree of
        Inl err \<Rightarrow> (Inl err, s)
      | Inr e1 \<Rightarrow>
          (let entries = tree_entries tree;
               e2 = AddToPreviousPaths e1 (map fe_Path entries);
               changes = sync_changes e2 entries
           in and_then (wrap_err ''send sync apply'' (on_srv (session_write (sync_apply_msg changes) a)))
                (\<lambda>_ s. and_then
                   (wrap_err ''send sync complete ack''
                     (on_srv (session_write ((blank_msg MSG_ACK)\<lparr>m_Ack := Some \<lparr>ack_Seq = 0, ack_Status = 0\<rparr>\<rparr>) a)))
                   (\<lambda>_ s. case ClearTombstones (ss_engine s) (ss_fs s) of
                      (e, fs) \<Rightarrow> (Inr (), s\<lparr>ss_engine := e, ss_fs := fs\<rparr>))
                   (fold (stream_change a) changes s))
                (s\<lparr>ss_engine := e2\<rparr>)))"

definition hc_sync :: "session \<Rightarrow> SrvState \<Rightarrow> unit res \<times> SrvState" where
  "hc_sync a =
     and_then (wrap_err ''read sync init'' (on_srv (session_read a)))
       (\<lambda>resp s.
          if m_Type resp \<noteq> MSG_SYNC_INIT then (Inr (), s)
          else (case m_SyncInit resp of None \<Rightarrow> (Inl GoPanic, s) | Some tree \<Rightarrow> hc_exchange a tree s))"

text \<open>One round of the message loop. An error of \<open>handleMessage\<close> is logged and forgotten; a panic is not.\<close>

definition hc_next :: "session \<Rightarrow> SrvState \<Rightarrow> unit res \<times> SrvState" where
  "hc_next a =
     and_then (wrap_err ''read'' (on_srv (session_read a)))
       (\<lambda>msg s. case handleMessage a msg s of
          (Inl err, s1) \<Rightarrow> (if err = GoPanic then Inl GoPanic else Inr (), s1)
        | (Inr _, s1) \<Rightarrow> (Inr (), s1))"

text \<open>The loop; the list says for each round whether the context is done. \<open>None\<close>: still running when
  the list ends.\<close>

fun hc_loop :: "bool list \<Rightarrow> session \<Rightarrow> SrvState \<Rightarrow> unit res option \<times> SrvState" where
  "hc_loop [] a s = (None, s)"
| "hc_loop (done # ds) a s =
     (if done then (Some (Inr ()), s)
      else (case hc_next a s of
              (Inl err, s1) \<Rightarrow> (Some (Inl err), s1)
            | (Inr _, s1) \<Rightarrow> hc_loop ds a s1))"

definition handleClient :: "bool list \<Rightarrow> session \<Rightarrow> SrvState \<Rightarrow> unit res option \<times> SrvState" where
  "handleClient ds a s =
     (case and_then (hc_hello a) (\<lambda>_. hc_sync a) (rescan s) of
        (Inl err, s1) \<Rightarrow> (Some (Inl err), s1)
      | (Inr _, s1) \<Rightarrow> hc_loop ds a s1)"

section \<open>Changes on the server's side\<close>

text \<open>One tick of the per-client ticker.\<close>

definition monitorClientChanges :: "session \<Rightarrow> SrvState \<Rightarrow> unit res \<times> SrvState" where
  "monitorClientChanges a s0 =
     (let s = rescan s0;
          changes = Diff (e_localTree (ss_engine s)) (e_remoteTree (ss_engine s))
      in if changes = [] then (Inr (), s) else on_srv (session_write (sync_apply_msg changes) a) s)"

text \<open>An event of the directory monitor. Storing the entry gives it a sequence number, which the
  message then carries.\<close>

definition push_entry :: "FileEntry \<Rightarrow> session \<Rightarrow> SrvState \<Rightarrow> SrvState" where
  "push_entry entry a s =
     (case on_srv (session_write ((blank_msg MSG_FILE_MODIFY)\<lparr>m_FileModify := Some entry\<rparr>) a) s of
        (Inl err, s1) \<Rightarrow> s1
      | (Inr _, s1) \<Rightarrow>
          if fe_EntryType entry = FileTypeRegularFile then stream_file a (fe_Path entry) s1 else s1)"

definition push_delete :: "string \<Rightarrow> session \<Rightarrow> SrvState \<Rightarrow> SrvState" where
  "push_delete path a s =
     snd (on_srv (session_write ((blank_msg MSG_FILE_DELETE)\<lparr>m_FileDelete := path\<rparr>) a) s)"

definition handleMonitorEvent :: "ChangeEvent \<Rightarrow> SrvState \<Rightarrow> SrvState" where
  "handleMonitorEvent event s0 =
     (if ce_Path event = TombstoneFile then s0
      else if ce_Type event = ''create'' \<or> ce_Type event = ''modify'' then
        (let s = rescan s0
         in case ce_Entry event of
              None \<Rightarrow> s
            | Some entry \<Rightarrow>
                (let (entry', tree) = Set_entry (e_remoteTree (ss_engine s)) entry;
                     s1 = ignore_path (ce_Path event) (500 * Millisecond)
                            (s\<lparr>ss_engine := (ss_engine s)\<lparr>e_remoteTree := tree\<rparr>\<rparr>)
                 in fold (push_entry entry') (GetClients (ss_srv s1)) s1))
      else if ce_Type event = ''delete'' then
        (let s = rescan s0
         in if ce_Path event = [] then s
            else
              (let s1 = s\<lparr>ss_engine := (ss_engine s)\<lparr>e_remoteTree := Remove (e_remoteTree (ss_engine s)) (ce_Path event)\<rparr>\<rparr>;
                   clients = GetClients (ss_srv s1)
               in if clients = [] then snd (on_fs (SaveTombstones (ss_engine s1)) s1)
                  else fold (push_delete (ce_Path event)) clients s1))
      else s0)"

section \<open>Start and shutdown\<close>

definition server_start ::
    "error option \<Rightarrow> (string \<Rightarrow> error option) \<Rightarrow> ServerConfig \<Rightarrow> int \<Rightarrow> fs \<Rightarrow> SrvState res \<times> fs" where
  "server_start newWatcher add cfg now fs =
     and_then (wrap_err ''create sync dir'' (MkdirAll (sc_ServerDir cfg) 493))
       (\<lambda>_ fs.
          case ScanLocal (NewEngine (sc_ServerDir cfg) fs) fs of
            (Inl err, _) \<Rightarrow> (Inl (add_ctx ''initial scan'' err), fs)
          | (Inr _, engine) \<Rightarrow>
              (case NewMonitor newWatcher add (sc_ServerDir cfg) now fs of
                 Inl err \<Rightarrow> (Inl (add_ctx ''create monitor'' err), fs)
               | Inr monitor \<Rightarrow>
                   (Inr \<lparr>ss_engine = engine, ss_fs = fs, ss_srv = NewServer (sc_ListenAddr cfg), ss_mon = Start monitor\<rparr>, fs)))
       fs"

definition server_shutdown :: "SrvState \<Rightarrow> SrvState" where
  "server_shutdown s =
     (let s1 = snd (on_fs (SaveTombstones (ss_engine s)) s)
      in s1\<lparr>ss_mon := Stop (ss_mon s1), ss_srv := snd (server_Close (ss_srv s1))\<rparr>)"

section \<open>The invariant of the server\<close>

definition main_inv :: "SrvState \<Rightarrow> bool" where
  "main_inv s \<longleftrightarrow> engine_ok (ss_engine s) \<and> wf_fs (ss_fs s) \<and> srv_ok (ss_srv s) \<and> mon_inv (ss_mon s)"

lemma on_fs_sel [simp]:
  "fst (on_fs f s) = fst (f (ss_fs s))" "snd (on_fs f s) = s\<lparr>ss_fs := snd (f (ss_fs s))\<rparr>"
  by (simp_all add: on_fs_def split: prod.split)

lemma on_srv_sel [simp]:
  "fst (on_srv f s) = fst (f (ss_srv s))" "snd (on_srv f s) = s\<lparr>ss_srv := snd (f (ss_srv s))\<rparr>"
  by (simp_all add: on_srv_def split: prod.split)

lemma engine_ok_calls:
  assumes "engine_ok e"
  shows "engine_ok (ClearTombstone e p)" "engine_ok (AddTombstone e p)" "engine_ok (AddToPreviousPaths e ps)"
    "engine_ok (e\<lparr>e_remoteTree := Set_tree (e_remoteTree e) x\<rparr>)"
    "engine_ok (e\<lparr>e_remoteTree := Remove (e_remoteTree e) p\<rparr>)"
    "engine_ok (e\<lparr>e_localTree := Remove (e_localTree e) p\<rparr>)"
    "engine_ok (e\<lparr>e_remoteTree := Remove (e_remoteTree e) p, e_localTree := Remove (e_localTree e) p\<rparr>)"
    "engine_ok (fst (ClearTombstones e fs))"
proof -
  let ?fs = "demo_fs"
  have s': "engine_ok (fst (engine_step c (e, ?fs)))" if "engine_ok e" for c e
    using engine_runs.step_inv [of "(e, ?fs)" c] that by (simp add: state_ok_def)
  note s = s' [OF assms]
  show "engine_ok (ClearTombstone e p)" "engine_ok (AddTombstone e p)" "engine_ok (AddToPreviousPaths e ps)"
    "engine_ok (e\<lparr>e_remoteTree := Set_tree (e_remoteTree e) x\<rparr>)"
    "engine_ok (e\<lparr>e_remoteTree := Remove (e_remoteTree e) p\<rparr>)"
    "engine_ok (e\<lparr>e_localTree := Remove (e_localTree e) p\<rparr>)"
    using s [of "CClear p"] s [of "CAdd p"] s [of "CKnown ps"] s [of "CRemoteSet x"] s [of "CRemoteRemove p"]
      s [of "CLocalRemove p"] by simp_all
  show "engine_ok (e\<lparr>e_remoteTree := Remove (e_remoteTree e) p, e_localTree := Remove (e_localTree e) p\<rparr>)"
    using s' [OF s [of "CRemoteRemove p"], of "CLocalRemove p"] by simp
  show "engine_ok (fst (ClearTombstones e fs))"
    using s [of CClearAll] by (simp add: ClearTombstones_def Let_def split: prod.splits)
qed

lemma wf_ClearTombstones: "wf_fs fs \<Longrightarrow> wf_fs (snd (ClearTombstones e fs))"
  by (simp add: ClearTombstones_def Let_def Remove_path.wf)

lemma main_inv_rescan: "main_inv s \<Longrightarrow> main_inv (rescan s)"
  by (simp add: main_inv_def rescan_def engine_ok_ScanLocal)

lemma main_inv_ignore: "main_inv s \<Longrightarrow> main_inv (ignore_path p d s)"
  by (simp add: main_inv_def ignore_path_def Ignore_def mon_inv_def)

lemma main_inv_on_fs: "fs_action f \<Longrightarrow> main_inv s \<Longrightarrow> main_inv (s\<lparr>ss_fs := snd (f (ss_fs s))\<rparr>)"
  using fs_action.wf [of f "ss_fs s"] by (simp add: main_inv_def)

lemma main_inv_on_srv:
  "(\<And>srv. srv_ok srv \<Longrightarrow> srv_ok (snd (f srv))) \<Longrightarrow> main_inv s \<Longrightarrow> main_inv (s\<lparr>ss_srv := snd (f (ss_srv s))\<rparr>)"
  by (simp add: main_inv_def)

lemma main_inv_engine: "main_inv s \<Longrightarrow> engine_ok e \<Longrightarrow> main_inv (s\<lparr>ss_engine := e\<rparr>)"
  by (simp add: main_inv_def)

lemma main_inv_Broadcast: "main_inv s \<Longrightarrow> main_inv (s\<lparr>ss_srv := Broadcast k m (ss_srv s)\<rparr>)"
  by (simp add: main_inv_def srv_ok_Broadcast)

lemma fs_action_applyFileCreate: "fs_action (applyFileCreate base entry)"
  unfolding applyFileCreate_def Let_def
  by (auto intro!: fs_action_if fs_action_and_then MkdirAll.fs_action_axioms EnsureDir.fs_action_axioms
      Create.fs_action_axioms ApplyAttrs.fs_action_axioms)

lemmas main_inv_intros =
  main_inv_rescan main_inv_ignore main_inv_on_fs main_inv_on_srv main_inv_engine main_inv_Broadcast
  and_then_inv [where P = main_inv]

lemma handleMessage_inv:
  assumes "main_inv s" shows "main_inv (snd (handleMessage a msg s))"
proof -
  have e: "engine_ok (ss_engine s)" if "main_inv s" for s using that by (simp add: main_inv_def)
  have c: "main_inv (snd (handle_create x s))" for x
    unfolding handle_create_def Let_def
    by (auto intro!: main_inv_intros fs_action_applyFileCreate engine_ok_calls assms e)
  have m: "main_inv (snd (handle_modify x s))" for x
    unfolding handle_modify_def Let_def applyFileModify_def
    by (auto intro!: main_inv_intros ApplyAttrs.fs_action_axioms engine_ok_calls assms e)
  have d: "main_inv (snd (handle_delete a msg s))"
    unfolding handle_delete_def Let_def
    by (auto intro!: main_inv_intros DeleteEntry.fs_action_axioms engine_ok_calls assms e)
  have f: "main_inv (snd (handle_data a msg x s))" for x
    unfolding handle_data_def Let_def
    by (auto intro!: main_inv_intros EnsureDir.fs_action_axioms WriteChunkAt.fs_action_axioms assms)
  show ?thesis
    using c m d f assms
    by (auto simp: handleMessage_def Let_def intro!: main_inv_on_srv srv_ok_write split: option.split)
qed

lemma srv_ok_set_SyncDir: "srv_ok srv \<Longrightarrow> srv_ok (set_SyncDir a d srv)"
  unfolding set_SyncDir_def by (rule srv_ok_same [of srv]) auto

lemma main_inv_write: "main_inv s \<Longrightarrow> main_inv (s\<lparr>ss_srv := snd (session_write m a (ss_srv s))\<rparr>)"
  by (rule main_inv_on_srv) (rule srv_ok_write)

lemma main_inv_read: "main_inv s \<Longrightarrow> main_inv (s\<lparr>ss_srv := snd (session_read a (ss_srv s))\<rparr>)"
  by (rule main_inv_on_srv) (rule srv_ok_read)

lemma hc_hello_inv:
  assumes "main_inv s" shows "main_inv (snd (hc_hello a s))"
  unfolding hc_hello_def
  by (rule and_then_inv)
    (auto intro!: assms main_inv_read main_inv_write main_inv_on_srv [where f = "\<lambda>srv. ((), set_SyncDir a d srv)" for d, simplified]
      srv_ok_set_SyncDir and_then_inv [where P = main_inv] split: option.split)

text \<open>A chunked read hands the chunks to its callback; what every callback keeps, the read keeps.\<close>

lemma chunk_loop_inv:
  assumes "\<And>off data fin s. P s \<Longrightarrow> P (snd (fn off data fin s))" "P s"
  shows "P (snd (chunk_loop n rest off fn s))"
  unfolding chunk_loop_feed
proof -
  have "P (snd (feed fn cs s))" if "P s" for cs s
    using that
  proof (induction cs arbitrary: s)
    case (Cons c cs)
    obtain o' d f where c: "c = (o', d, f)" by (rule prod_cases3)
    show ?case using Cons.IH assms(1) [OF Cons.prems, of o' d f] by (auto simp: c split: prod.split sum.split)
  qed simp
  from this [OF assms(2), of "cut n off rest"]
  show "P (snd (case feed fn (cut n off rest) s of (Inl e, s1) \<Rightarrow> (Inl e, s1)
      | (Inr _, s1) \<Rightarrow> (Inr (off + of_nat (length rest)), s1)))"
    by (auto split: prod.split sum.split)
qed

lemma ReadFileChunked_inv:
  assumes step: "\<And>off data fin s. P s \<Longrightarrow> P (snd (fn off data fin s))" and "P s"
  shows "P (snd (ReadFileChunked path fs fn s))"
proof (cases "OpenRead path fs")
  case (Inr f)
  show ?thesis
  proof (cases "ReadFrom f fs")
    case Inr': (Inr data)
    let ?l = "chunk_loop (ChunkSize - 1) data 0 fn s"
    have "P (snd ?l)" by (rule chunk_loop_inv [OF step assms(2)])
    with step [OF this, of 0 "[]" True] show ?thesis
      by (auto simp: ReadFileChunked_def Inr Inr' split: prod.splits sum.splits)
  qed (simp add: ReadFileChunked_def Inr assms(2))
qed (simp add: ReadFileChunked_def assms(2))

lemma srv_ok_stream:
  "srv_ok srv \<Longrightarrow> srv_ok (snd (ReadFileChunked p fs (\<lambda>off data fin. session_write (chunk_msg rel (off, data, fin)) a) srv))"
  by (rule ReadFileChunked_inv) (rule srv_ok_write)

lemma stream_file_inv: "main_inv s \<Longrightarrow> main_inv (stream_file a rel s)"
  unfolding stream_file_def on_srv_sel by (rule main_inv_on_srv) (rule srv_ok_stream)

lemma fold_inv: "(\<And>x s. P s \<Longrightarrow> P (f x s)) \<Longrightarrow> P s \<Longrightarrow> P (fold f xs s)"
  by (induction xs arbitrary: s) auto

lemma stream_changes_inv: "main_inv s \<Longrightarrow> main_inv (fold (stream_change a) cs s)"
  by (rule fold_inv) (auto simp: stream_change_def stream_file_inv split: option.split)

lemma hc_exchange_inv:
  assumes "main_inv s" shows "main_inv (snd (hc_exchange a tree s))"
proof (cases "SetRemoteTree (ss_engine s) tree")
  case (Inl e)
  then show ?thesis using assms by (simp add: hc_exchange_def)
next
  case (Inr e1)
  have "engine_ok (AddToPreviousPaths e1 ps)" for ps
    using engine_ok_SetRemoteTree [OF _ Inr] assms by (simp add: main_inv_def engine_ok_calls)
  moreover have "main_inv (s\<lparr>ss_engine := e, ss_fs := fs\<rparr>)"
    if "main_inv s" "ClearTombstones (ss_engine s) (ss_fs s) = (e, fs)" for s e fs
    using that engine_ok_calls(8) [of "ss_engine s" "ss_fs s"] wf_ClearTombstones [of "ss_fs s" "ss_engine s"]
    by (simp add: main_inv_def)
  ultimately show ?thesis
    using assms unfolding hc_exchange_def Inr sum.case Let_def
    by (auto intro!: and_then_inv [where P = main_inv] main_inv_engine main_inv_write stream_changes_inv
        split: prod.split)
qed

lemma hc_sync_inv: "main_inv s \<Longrightarrow> main_inv (snd (hc_sync a s))"
  unfolding hc_sync_def
  by (rule and_then_inv) (auto intro!: main_inv_read hc_exchange_inv split: option.split)

lemma hc_next_inv: "main_inv s \<Longrightarrow> main_inv (snd (hc_next a s))"
  unfolding hc_next_def
proof (rule and_then_inv, assumption)
  fix msg s assume "main_inv s"
  then have "main_inv (snd (handleMessage a msg s))" by (rule handleMessage_inv)
  then show "main_inv (snd (case handleMessage a msg s of
      (Inl err, s1) \<Rightarrow> (if err = GoPanic then Inl GoPanic else Inr (), s1) | (Inr _, s1) \<Rightarrow> (Inr (), s1)))"
    by (auto split: prod.split sum.split)
qed (auto intro: main_inv_read)

lemma monitorClientChanges_inv: "main_inv s \<Longrightarrow> main_inv (snd (monitorClientChanges a s))"
  by (auto simp: monitorClientChanges_def Let_def intro!: main_inv_write main_inv_rescan)

lemma push_inv: "main_inv s \<Longrightarrow> main_inv (push_entry x a s)" "main_inv s \<Longrightarrow> main_inv (push_delete p a s)"
proof -
  assume i: "main_inv s"
  let ?m = "(blank_msg MSG_FILE_MODIFY)\<lparr>m_FileModify := Some x\<rparr>"
  have "main_inv (snd (on_srv (session_write ?m a) s))" using i by (simp add: main_inv_write)
  then show "main_inv (push_entry x a s)" unfolding push_entry_def
    by (auto simp: stream_file_inv simp del: on_srv_sel split: prod.split sum.split)
  show "main_inv (push_delete p a s)" using i by (simp add: push_delete_def main_inv_write)
qed

lemma handleMonitorEvent_inv:
  assumes "main_inv s" shows "main_inv (handleMonitorEvent ev s)"
proof -
  have e: "engine_ok (ss_engine (rescan s))" using main_inv_rescan [OF assms] by (simp add: main_inv_def)
  have w: "wf_fs (ss_fs (rescan s))" using main_inv_rescan [OF assms] by (simp add: main_inv_def)
  have f: "main_inv (t\<lparr>ss_fs := fs\<rparr>)" if "main_inv t" "wf_fs fs" for t fs using that by (simp add: main_inv_def)
  show ?thesis
    using assms e w engine_ok_calls(4) [OF e]
    by (auto simp: handleMonitorEvent_def Let_def split_beta
        intro!: fold_inv [where P = main_inv] push_inv f wf_SaveTombstones main_inv_engine main_inv_rescan
          main_inv_ignore engine_ok_calls
        split: option.split)
qed

lemma server_shutdown_inv: "main_inv s \<Longrightarrow> main_inv (server_shutdown s)"
  using wf_SaveTombstones
  by (auto simp: server_shutdown_def Let_def main_inv_def Stop_def mon_inv_def server_Close_def srv_ok_def
      split: option.split bool.split)

lemma disconnect_inv: "main_inv s \<Longrightarrow> main_inv (s\<lparr>ss_srv := disconnect a (ss_srv s)\<rparr>)"
  by (simp add: main_inv_def srv_ok_disconnect)

section \<open>Every interleaving of the server\<close>

text \<open>A step of the program: a client connects, is greeted, synchronised, served one message or
  disconnected; its ticker fires; an event of the monitor is handled; the monitor moves; somebody
  changes the disk; the program is told to stop.\<close>

inductive main_step :: "(string \<Rightarrow> error option) \<Rightarrow> SrvState \<Rightarrow> SrvState \<Rightarrow> bool"
  for add :: "string \<Rightarrow> error option" where
  connects: "main_step add s (s\<lparr>ss_srv := snd (accept input room (ss_srv s))\<rparr>)"
| greets: "main_step add s (snd (hc_hello a (rescan s)))"
| syncs: "main_step add s (snd (hc_sync a s))"
| serves: "main_step add s (snd (hc_next a s))"
| leaves: "main_step add s (s\<lparr>ss_srv := disconnect a (ss_srv s)\<rparr>)"
| ticks: "main_step add s (snd (monitorClientChanges a s))"
| notices: "mo_ch (ss_mon s) = ev # evs \<Longrightarrow>
    main_step add s (handleMonitorEvent ev (s\<lparr>ss_mon := recv_event (ss_mon s)\<rparr>))"
| watches: "mon_step add (ss_mon s) m \<Longrightarrow> main_step add s (s\<lparr>ss_mon := m\<rparr>)"
| disk: "wf_fs fs \<Longrightarrow> main_step add s (s\<lparr>ss_fs := fs\<rparr>)"
| shuts: "main_step add s (server_shutdown s)"

interpretation server_main: inv_steps "main_step add" main_inv
proof unfold_locales
  fix s t assume inv: "main_inv s" and st: "main_step add s t"
  from st show "main_inv t"
  proof cases
    case (connects input room)
    then show ?thesis using inv by (simp add: main_inv_def srv_ok_accept)
  next
    case (notices ev evs)
    have "main_inv (s\<lparr>ss_mon := recv_event (ss_mon s)\<rparr>)"
      using inv notices by (auto simp: main_inv_def mon_inv_def recv_event_def)
    then show ?thesis using notices by (simp add: handleMonitorEvent_inv)
  next
    case (watches m)
    then show ?thesis using inv monitor.step_keeps [of "ss_mon s" add m] by (simp add: main_inv_def)
  next
    case (disk fs)
    then show ?thesis using inv by (simp add: main_inv_def)
  qed (simp_all add: inv hc_hello_inv main_inv_rescan hc_sync_inv hc_next_inv disconnect_inv
      monitorClientChanges_inv server_shutdown_inv)
qed

lemma server_start_inv:
  assumes "wf_fs fs" "server_start newWatcher add cfg now fs = (Inr s, fs')"
  shows "main_inv s"
proof -
  obtain fs1 e m where fs1: "MkdirAll (sc_ServerDir cfg) 493 fs = (Inr (), fs1)"
    and e: "ScanLocal (NewEngine (sc_ServerDir cfg) fs1) fs1 = (Inr (), e)"
    and m: "NewMonitor newWatcher add (sc_ServerDir cfg) now fs1 = Inr m"
    and s: "s = \<lparr>ss_engine = e, ss_fs = fs1, ss_srv = NewServer (sc_ListenAddr cfg), ss_mon = Start m\<rparr>"
    using assms(2) unfolding server_start_def
    by (auto elim!: and_then_okE dest!: wrap_err_okD split: prod.splits sum.splits)
  have "wf_fs fs1" using MkdirAll.wf [OF assms(1), of "sc_ServerDir cfg" 493] fs1 by simp
  moreover have "engine_ok e" using engine_ok_ScanLocal [OF engine_ok_NewEngine, of "sc_ServerDir cfg" fs1 fs1] e by simp
  moreover have "mon_inv (Start m)" using m
    by (auto simp: NewMonitor_def Let_def mon_inv_def Start_def gm_ok_make gm_keys_def split: option.splits sum.splits)
  ultimately show ?thesis by (simp add: main_inv_def s)
qed

section \<open>What a message does to the connections\<close>

lemma rescan_sel [simp]:
  "ss_fs (rescan s) = ss_fs s" "ss_srv (rescan s) = ss_srv s" "ss_mon (rescan s) = ss_mon s"
  "srv_base (rescan s) = srv_base s"
  by (simp_all add: rescan_def)

lemma ignore_path_sel [simp]:
  "ss_fs (ignore_path p d s) = ss_fs s" "ss_srv (ignore_path p d s) = ss_srv s"
  "ss_engine (ignore_path p d s) = ss_engine s"
  by (simp_all add: ignore_path_def)

lemma handle_create_srv [simp]: "ss_srv (snd (handle_create x s)) = ss_srv s"
  by (auto simp: handle_create_def snd_and_then Let_def split: sum.split)

lemma handle_modify_srv [simp]: "ss_srv (snd (handle_modify x s)) = ss_srv s"
  by (auto simp: handle_modify_def snd_and_then Let_def split: sum.split)

lemma fst_wrap_err: "fst (wrap_err ctx m s) = (case fst (m s) of Inl e \<Rightarrow> Inl (add_ctx ctx e) | Inr x \<Rightarrow> Inr x)"
  by (simp add: wrap_err_def split: prod.split sum.split)

lemma handle_delete_srv:
  "ss_srv (snd (handle_delete a msg s)) =
     (if is_ok (fst (DeleteEntry (Join (srv_base s) (m_FileDelete msg)) (ss_fs s)))
      then Broadcast (cs_ID (session_at (ss_srv s) a)) msg (ss_srv s) else ss_srv s)"
  by (cases "fst (DeleteEntry (Join (srv_base s) (m_FileDelete msg)) (ss_fs s))")
    (simp_all add: handle_delete_def snd_and_then Let_def fst_wrap_err)

text \<open>Handlers read one connection and write to others: nobody's input is touched and no session
  appears or disappears.\<close>

definition same_inputs :: "Server \<Rightarrow> Server \<Rightarrow> bool" where
  "same_inputs s t \<longleftrightarrow> length (sv_sessions t) = length (sv_sessions s) \<and>
     (\<forall>b. cn_in (conn_at t b) = cn_in (conn_at s b) \<and> cs_ID (session_at t b) = cs_ID (session_at s b))"

lemma same_inputs_refl [simp]: "same_inputs s s"
  by (simp add: same_inputs_def)

lemma same_inputs_write: "same_inputs s (snd (session_write m a s))"
  by (simp add: same_inputs_def)

lemma same_inputs_Broadcast: "srv_ok s \<Longrightarrow> same_inputs s (Broadcast k m s)"
  by (simp add: same_inputs_def Broadcast_sel)

lemma handleMessage_srv:
  "ss_srv (snd (handleMessage a msg s)) \<in>
     {ss_srv s, Broadcast (cs_ID (session_at (ss_srv s) a)) msg (ss_srv s),
      snd (session_write (blank_msg MSG_PONG) a (ss_srv s))}"
proof -
  have "ss_srv (snd (handle_data a msg x s)) \<in>
      {ss_srv s, Broadcast (cs_ID (session_at (ss_srv s) a)) msg (ss_srv s)}" for x
    by (auto simp: handle_data_def snd_and_then Let_def split: sum.split)
  then show ?thesis
    by (auto simp: handleMessage_def Let_def handle_delete_srv split: option.split)
qed

lemma handleMessage_inputs: "srv_ok (ss_srv s) \<Longrightarrow> same_inputs (ss_srv s) (ss_srv (snd (handleMessage a msg s)))"
  using handleMessage_srv [of a msg s] same_inputs_Broadcast same_inputs_write by auto

lemma hc_next_okE:
  assumes "hc_next a s = (Inr u, s')"
  obtains msg srv where "session_read a (ss_srv s) = (Inr msg, srv)"
    "s' = snd (handleMessage a msg (s\<lparr>ss_srv := srv\<rparr>))"
proof -
  from assms obtain msg s1 where r: "on_srv (session_read a) s = (Inr msg, s1)"
    and h: "(case handleMessage a msg s1 of (Inl err, s1) \<Rightarrow> (if err = GoPanic then Inl GoPanic else Inr (), s1)
        | (Inr _, s1) \<Rightarrow> (Inr (), s1)) = (Inr u, s')"
    unfolding hc_next_def by (auto elim!: and_then_okE dest!: wrap_err_okD)
  from h have "s' = snd (handleMessage a msg s1)" by (auto split: prod.splits sum.splits if_splits)
  with r that show ?thesis by (auto simp: on_srv_def split: prod.splits)
qed

lemma session_read_input:
  assumes "session_read a srv = (r, srv')" "a < length (sv_sessions srv)"
  shows "read_message (cn_in (conn_at srv a)) = (r, cn_in (conn_at srv' a))"
    and "\<And>b. b \<noteq> a \<Longrightarrow> conn_at srv' b = conn_at srv b"
  using assms by (auto simp: session_read_def ReadMessage_def split: prod.splits)

section \<open>The loop ends with its connection\<close>

lemma hc_loop_returns:
  assumes "main_inv s" "a < length (sv_sessions (ss_srv s))"
    "length (fst (cn_in (conn_at (ss_srv s) a))) < 5 * length ds"
  shows "\<exists>r s'. hc_loop ds a s = (Some r, s')"
  using assms
proof (induction ds arbitrary: s)
  case Nil
  then show ?case by simp
next
  case (Cons d ds)
  show ?case
  proof (cases "d \<or> (\<exists>e s1. hc_next a s = (Inl e, s1))")
    case True
    then show ?thesis by auto
  next
    case False
    then obtain u s1 where n: "hc_next a s = (Inr u, s1)" "\<not> d" by (metis old.sum.exhaust surj_pair)
    from n(1) obtain msg srv where rd: "session_read a (ss_srv s) = (Inr msg, srv)"
      and s1: "s1 = snd (handleMessage a msg (s\<lparr>ss_srv := srv\<rparr>))" by (rule hc_next_okE)
    have inv: "main_inv s1" using hc_next_inv [OF Cons.prems(1), of a] n by simp
    have "srv_ok srv" using srv_ok_read [of "ss_srv s" a] Cons.prems(1) rd by (simp add: main_inv_def)
    then have si: "same_inputs srv (ss_srv s1)" using handleMessage_inputs [of "s\<lparr>ss_srv := srv\<rparr>" a msg] s1 by simp
    have "length (sv_sessions srv) = length (sv_sessions (ss_srv s))" using session_read_sel(3) [of a "ss_srv s"] rd by simp
    moreover have "length (fst (cn_in (conn_at srv a))) + 5 \<le> length (fst (cn_in (conn_at (ss_srv s) a)))"
      using session_read_input(1) [OF rd Cons.prems(2)] by (auto simp: read_message_eq dest: DecodeFrame_consumes)
    ultimately have "\<exists>r s'. hc_loop ds a s1 = (Some r, s')"
      using si Cons.prems by (intro Cons.IH inv) (auto simp: same_inputs_def)
    then show ?thesis using n by simp
  qed
qed

section \<open>Paths of a client stay inside the directory\<close>

definition msg_local :: "Message \<Rightarrow> bool" where
  "msg_local m \<longleftrightarrow> local_path (m_FileDelete m) \<and>
     (\<forall>x. m_FileCreate m = Some x \<or> m_FileModify m = Some x \<longrightarrow> local_path (fe_Path x)) \<and>
     (\<forall>c. m_FileData m = Some c \<longrightarrow> local_path (fd_Path c))"

lemma handleMessage_keeps:
  assumes "fenced b (ss_fs s)" "srv_base s = render True b" "msg_local msg"
  shows "keeps_fence b (ss_fs s) (ss_fs (snd (handleMessage a msg s)))"
proof -
  have j: "inside b (Join (render True b) rel)" if "local_path rel" for rel
    using Join_inside [OF fenced_names [OF assms(1)] that] .
  have c: "keeps_fence b (ss_fs s) (ss_fs (snd (handle_create x s)))" if "local_path (fe_Path x)" for x
  proof -
    have "ss_fs (snd (handle_create x s)) = snd (applyFileCreate (render True b) x (ss_fs s))"
      by (simp add: handle_create_def snd_and_then Let_def assms(2) split: sum.split)
    moreover have "keeps_fence b (ss_fs s) (snd (applyFileCreate (render True b) x (ss_fs s)))"
      using assms(1) j [OF that]
      by (auto simp: applyFileCreate_def Let_def Create_def keeps_rules keeps_utils
          intro!: keeps_and_then dest: open_create_handle)
    ultimately show ?thesis by simp
  qed
  have m: "keeps_fence b (ss_fs s) (ss_fs (snd (handle_modify x s)))" if "local_path (fe_Path x)" for x
    using assms(1) j [OF that]
    by (simp add: handle_modify_def snd_and_then Let_def assms(2) applyFileModify_def keeps_utils split: sum.split)
  have d: "keeps_fence b (ss_fs s) (ss_fs (snd (handle_delete a msg s)))"
    using assms(1,3) j
    by (simp add: handle_delete_def snd_and_then Let_def assms(2) msg_local_def keeps_utils split: sum.split)
  have f: "keeps_fence b (ss_fs s) (ss_fs (snd (handle_data a msg x s)))" if "local_path (fd_Path x)" for x
  proof -
    let ?p = "Join (render True b) (fd_Path x)"
    have "ss_fs (snd (handle_data a msg x s)) =
        snd (WriteChunkAt ?p (fd_Data x) (sint (fd_Offset x)) (snd (EnsureDir ?p (ss_fs s))))"
      by (simp add: handle_data_def snd_and_then Let_def assms(2) split: sum.split)
    moreover have "keeps_fence b (ss_fs s) (snd (EnsureDir ?p (ss_fs s)))"
      using assms(1) j [OF that] by (simp add: keeps_utils)
    ultimately show ?thesis using j [OF that] keeps_utils(4) [of b ?p] by (auto simp: keeps_fence_def same_outside_def)
  qed
  show ?thesis
    using c m d f assms(1,3) by (auto simp: handleMessage_def Let_def msg_local_def keeps_refl split: option.split)
qed

lemma handlers_base [simp]: "srv_base (snd (handleMessage a msg s)) = srv_base s"
proof -
  have "srv_base (snd (handle_create x s)) = srv_base s" "srv_base (snd (handle_modify x s)) = srv_base s"
    "srv_base (snd (handle_delete a msg s)) = srv_base s" "srv_base (snd (handle_data a msg c s)) = srv_base s" for x c
    by (auto simp: handle_create_def handle_modify_def handle_delete_def handle_data_def snd_and_then Let_def
        ClearTombstone_def AddTombstone_def split: sum.split)
  then show ?thesis by (auto simp: handleMessage_def Let_def split: option.split)
qed

lemma snd_hc_next:
  "snd (hc_next a s) =
     (case session_read a (ss_srv s) of
        (Inl e, srv) \<Rightarrow> s\<lparr>ss_srv := srv\<rparr>
      | (Inr msg, srv) \<Rightarrow> snd (handleMessage a msg (s\<lparr>ss_srv := srv\<rparr>)))"
  by (auto simp: hc_next_def and_then_def wrap_err_def on_srv_def split: prod.split sum.split)

text \<open>What a connection delivers, message by message.\<close>

definition delivers_local :: "reader \<Rightarrow> bool" where
  "delivers_local r \<longleftrightarrow> (\<forall>n ms r'. dec_n DecodeFrame n r = (Inr ms, r') \<longrightarrow> (\<forall>m \<in> set ms. msg_local m))"

lemma delivers_local_next:
  assumes "delivers_local r" "DecodeFrame r = (Inr m, r1)"
  shows "msg_local m" "delivers_local r1"
proof -
  have "dec_n DecodeFrame (Suc 0) r = (Inr [m], r1)" using assms(2) by simp
  then show "msg_local m" using assms(1) unfolding delivers_local_def by fastforce
  show "delivers_local r1" unfolding delivers_local_def
  proof (intro allI impI ballI)
    fix n ms r' x assume "dec_n DecodeFrame n r1 = (Inr ms, r')" "x \<in> set ms"
    then have "dec_n DecodeFrame (Suc n) r = (Inr (m # ms), r')" using assms(2) by simp
    with assms(1) \<open>x \<in> set ms\<close> show "msg_local x" unfolding delivers_local_def by (metis list.set_intros(2))
  qed
qed

lemma hc_loop_keeps:
  assumes "main_inv s" "a < length (sv_sessions (ss_srv s))" "fenced b (ss_fs s)" "srv_base s = render True b"
    "delivers_local (cn_in (conn_at (ss_srv s) a))"
  shows "keeps_fence b (ss_fs s) (ss_fs (snd (hc_loop ds a s)))"
  using assms
proof (induction ds arbitrary: s)
  case Nil
  then show ?case by (simp add: keeps_refl)
next
  case (Cons d ds)
  obtain r srv where rd: "session_read a (ss_srv s) = (r, srv)" by fastforce
  note in' = session_read_input(1) [OF rd Cons.prems(2), unfolded read_message_eq]
  have inv: "main_inv (snd (hc_next a s))" using Cons.prems(1) by (rule hc_next_inv)
  show ?case
  proof (cases r)
    case (Inl e)
    then have "ss_fs (snd (hc_next a s)) = ss_fs s" "\<exists>e. fst (hc_next a s) = Inl e"
      using rd by (simp_all add: snd_hc_next) (simp add: hc_next_def and_then_def wrap_err_def on_srv_def)
    then show ?thesis using Cons.prems(3) by (auto simp: keeps_refl split: prod.split sum.split)
  next
    case (Inr msg)
    let ?s = "s\<lparr>ss_srv := srv\<rparr>" and ?t = "snd (hc_next a s)"
    have t: "?t = snd (handleMessage a msg ?s)" using rd Inr by (simp add: snd_hc_next)
    note loc = delivers_local_next [OF Cons.prems(5) in' [unfolded Inr]]
    have k: "keeps_fence b (ss_fs s) (ss_fs ?t)"
      using handleMessage_keeps [of b ?s msg a] Cons.prems(3,4) loc(1) by (simp add: t)
    have "srv_ok srv" using srv_ok_read [of "ss_srv s" a] Cons.prems(1) rd by (simp add: main_inv_def)
    then have si: "same_inputs srv (ss_srv ?t)" using handleMessage_inputs [of ?s a msg] by (simp add: t)
    have "length (sv_sessions srv) = length (sv_sessions (ss_srv s))"
      using session_read_sel(3) [of a "ss_srv s"] rd by simp
    with si have "a < length (sv_sessions (ss_srv ?t))" "delivers_local (cn_in (conn_at (ss_srv ?t) a))"
      using Cons.prems(2) loc(2) by (auto simp: same_inputs_def)
    moreover have "fenced b (ss_fs ?t)" using k by (simp add: keeps_fence_def)
    moreover have "srv_base ?t = render True b" using Cons.prems(4) by (simp add: t)
    ultimately have "keeps_fence b (ss_fs ?t) (ss_fs (snd (hc_loop ds a ?t)))" by (intro Cons.IH inv)
    with k have "keeps_fence b (ss_fs s) (ss_fs (snd (hc_loop ds a ?t)))" by (rule keeps_trans)
    with k Cons.prems(3) show ?thesis by (auto simp: keeps_refl split: prod.split sum.split)
  qed
qed

section \<open>Receiving a file\<close>

text \<open>A chunk for a file that is there is written in place.\<close>

lemma handle_data_existing:
  assumes "wf_fs (ss_fs s)" "calm (ss_fs s)" "look (ss_fs s) p = Some nd" "n_kind nd = KFile d"
    "Join (srv_base s) rel = render True p" "unat off < 2 ^ 63"
  shows "handle_data a msg (data_chunk rel off data fin) s =
    (Inr (), s\<lparr>ss_fs := snd (chunk_writer (render True p) off data fin (ss_fs s)),
               ss_srv := Broadcast (cs_ID (session_at (ss_srv s) a)) msg (ss_srv s)\<rparr>)"
    and "fst (chunk_writer (render True p) off data fin (ss_fs s)) = Inr ()"
    and "\<exists>nd' d'. look (snd (chunk_writer (render True p) off data fin (ss_fs s))) p = Some nd' \<and> n_kind nd' = KFile d'"
proof -
  have off: "0 \<le> sint off" using sint_small [OF assms(6)] by simp
  note w = WriteChunkAt_existing [OF assms(1-4) off, of data]
  have "p \<noteq> []" using assms(1,3,4) by (auto simp: wf_fs_def is_dir_def)
  then have dir: "is_dir (ss_fs s) (butlast p)" "name_ok (last p)"
    using wf_placed [OF assms(1), of p] assms(3) by (auto simp: placed_def kind_at_def)
  have "Dir (render True p) = render True (butlast p)"
    using Dir_render [of "butlast p" "last p"] dir_names [OF assms(1) dir(1)] dir(2) \<open>p \<noteq> []\<close> by simp
  then have "EnsureDir (render True p) (ss_fs s) = (Inr (), ss_fs s)"
    using MkdirAll_existing [OF assms(1,2) dir(1)] by (simp add: EnsureDir_def)
  then show "handle_data a msg (data_chunk rel off data fin) s =
    (Inr (), s\<lparr>ss_fs := snd (chunk_writer (render True p) off data fin (ss_fs s)),
               ss_srv := Broadcast (cs_ID (session_at (ss_srv s) a)) msg (ss_srv s)\<rparr>)"
    using w by (simp add: handle_data_def Let_def assms(5) data_chunk_def chunk_writer_def and_then_def wrap_err_def on_fs_def)
  show "fst (chunk_writer (render True p) off data fin (ss_fs s)) = Inr ()"
    using w by (simp add: chunk_writer_def)
  show "\<exists>nd' d'. look (snd (chunk_writer (render True p) off data fin (ss_fs s))) p = Some nd' \<and> n_kind nd' = KFile d'"
    using w assms(3,4) by (simp add: chunk_writer_def)
qed

text \<open>One round of the loop with a message that can be decoded.\<close>

lemma hc_loop_message:
  assumes "a < length (sv_sessions (ss_srv s))" "cn_in (conn_at (ss_srv s) a) = (bs @ rest, e)"
    "msg_ok m" "Encode m = Inr bs" "srv_ok (ss_srv s)"
  obtains srv where "srv_ok srv" "length (sv_sessions srv) = length (sv_sessions (ss_srv s))"
    "cn_in (conn_at srv a) = (rest, e)" "cs_ID (session_at srv a) = cs_ID (session_at (ss_srv s) a)"
    "fst (handleMessage a m (s\<lparr>ss_srv := srv\<rparr>)) \<noteq> Inl GoPanic \<Longrightarrow>
      hc_loop (False # ds) a s = hc_loop ds a (snd (handleMessage a m (s\<lparr>ss_srv := srv\<rparr>)))"
proof -
  obtain r srv where rd: "session_read a (ss_srv s) = (r, srv)" by fastforce
  have in': "read_message (bs @ rest, e) = (r, cn_in (conn_at srv a))"
    using session_read_input(1) [OF rd assms(1)] assms(2) by simp
  moreover have "read_message (bs @ rest, e) = (Inr m, (rest, e))" by (rule conn_frames.dec_enc [OF assms(3,4)])
  ultimately have r: "r = Inr m" "cn_in (conn_at srv a) = (rest, e)" by auto
  have sel: "srv_ok srv" "length (sv_sessions srv) = length (sv_sessions (ss_srv s))"
    "cs_ID (session_at srv a) = cs_ID (session_at (ss_srv s) a)"
    using srv_ok_read [OF assms(5), of a] session_read_sel(3,4) [of a "ss_srv s"] rd by auto
  have "hc_loop (False # ds) a s = hc_loop ds a (snd (handleMessage a m (s\<lparr>ss_srv := srv\<rparr>)))"
    if "fst (handleMessage a m (s\<lparr>ss_srv := srv\<rparr>)) \<noteq> Inl GoPanic"
    using that rd r(1)
    by (auto simp: hc_next_def and_then_def wrap_err_def on_srv_def split: prod.split sum.split)
  with that sel r(2) show ?thesis by blast
qed

lemma chunk_msg_ok: "utf8_valid rel \<Longrightarrow> msg_ok (chunk_msg rel c)"
  unfolding chunk_msg_def by (cases c) (auto intro!: msg_ok.file_data simp: data_chunk_def)

lemma hc_loop_chunk:
  assumes "a < length (sv_sessions (ss_srv s))" "cn_in (conn_at (ss_srv s) a) = (bs @ rest, e)" "srv_ok (ss_srv s)"
    and "Encode (chunk_msg rel (off, data, fin)) = Inr bs" "utf8_valid rel"
    and "wf_fs (ss_fs s)" "calm (ss_fs s)" "look (ss_fs s) p = Some nd" "n_kind nd = KFile d"
    and "Join (srv_base s) rel = render True p" "unat off < 2 ^ 63"
  obtains t nd' d' where "hc_loop (False # ds) a s = hc_loop ds a t"
    "chunk_writer (render True p) off data fin (ss_fs s) = (Inr (), ss_fs t)"
    "ss_engine t = ss_engine s" "ss_mon t = ss_mon s"
    "srv_ok (ss_srv t)" "length (sv_sessions (ss_srv t)) = length (sv_sessions (ss_srv s))"
    "cn_in (conn_at (ss_srv t) a) = (rest, e)"
    "wf_fs (ss_fs t)" "calm (ss_fs t)" "look (ss_fs t) p = Some nd'" "n_kind nd' = KFile d'"
proof -
  let ?m = "chunk_msg rel (off, data, fin)"
  obtain srv where srv: "srv_ok srv" "length (sv_sessions srv) = length (sv_sessions (ss_srv s))"
    "cn_in (conn_at srv a) = (rest, e)"
    and step: "fst (handleMessage a ?m (s\<lparr>ss_srv := srv\<rparr>)) \<noteq> Inl GoPanic \<Longrightarrow>
      hc_loop (False # ds) a s = hc_loop ds a (snd (handleMessage a ?m (s\<lparr>ss_srv := srv\<rparr>)))"
    by (rule hc_loop_message [OF assms(1,2) chunk_msg_ok [OF assms(5)] assms(4,3), of ds]) (rule that; assumption)
  let ?s = "s\<lparr>ss_srv := srv\<rparr>"
  have s: "wf_fs (ss_fs ?s)" "calm (ss_fs ?s)" "look (ss_fs ?s) p = Some nd" "Join (srv_base ?s) rel = render True p"
    using assms(6-8,10) by simp_all
  note h = handle_data_existing(1) [OF s(1-3) assms(9) s(4) assms(11), of a ?m data fin]
    handle_data_existing(2,3) [OF s(1-3) assms(9) s(4) assms(11), of data fin]
  define t where "t = snd (handle_data a ?m (data_chunk rel off data fin) ?s)"
  have hm: "handleMessage a ?m ?s = (Inr (), t)"
    using h(1) by (simp add: handleMessage_def chunk_msg_def msg_type_defs t_def)
  have t: "ss_fs t = snd (chunk_writer (render True p) off data fin (ss_fs s))" "ss_engine t = ss_engine s"
    "ss_mon t = ss_mon s" "ss_srv t = Broadcast (cs_ID (session_at srv a)) ?m srv"
    using h(1) by (simp_all add: t_def)
  have wf: "wf_fs (ss_fs t)" "calm (ss_fs t)"
    using WriteChunkAt.wf assms(6,7) by (simp_all add: t(1) chunk_writer_def WriteChunkAt.calm_act)
  obtain nd' d' where nd': "look (ss_fs t) p = Some nd'" "n_kind nd' = KFile d'" using h(3) t(1) by auto
  have ts: "srv_ok (ss_srv t)" "length (sv_sessions (ss_srv t)) = length (sv_sessions (ss_srv s))"
    "cn_in (conn_at (ss_srv t) a) = (rest, e)"
    using srv by (simp_all add: t(4) srv_ok_Broadcast Broadcast_sel)
  have "hc_loop (False # ds) a s = hc_loop ds a t"
    "chunk_writer (render True p) off data fin (ss_fs s) = (Inr (), ss_fs t)"
    using step h(2) t(1) by (simp_all add: hm prod_eq_iff)
  from that [OF this t(2,3) ts wf nd'] show ?thesis .
qed

lemma hc_loop_chunks:
  assumes "a < length (sv_sessions (ss_srv s))" "cn_in (conn_at (ss_srv s) a) = (bs @ rest, e)" "srv_ok (ss_srv s)"
    and "enc_all Encode (map (chunk_msg rel) cs) = Inr bs" "utf8_valid rel"
    and "wf_fs (ss_fs s)" "calm (ss_fs s)" "look (ss_fs s) p = Some nd" "n_kind nd = KFile d"
    and "Join (srv_base s) rel = render True p" "\<forall>(off, _, _) \<in> set cs. unat off < 2 ^ 63"
  shows "\<exists>s'. hc_loop (replicate (length cs) False @ ds) a s = hc_loop ds a s' \<and>
    feed (chunk_writer (render True p)) cs (ss_fs s) = (Inr (), ss_fs s') \<and>
    srv_ok (ss_srv s') \<and> length (sv_sessions (ss_srv s')) = length (sv_sessions (ss_srv s)) \<and>
    cn_in (conn_at (ss_srv s') a) = (rest, e) \<and> ss_engine s' = ss_engine s \<and> ss_mon s' = ss_mon s"
  using assms
proof (induction cs arbitrary: s bs nd d)
  case Nil
  then show ?case by auto
next
  case (Cons c cs)
  obtain off data fin where c: "c = (off, data, fin)" by (rule prod_cases3)
  obtain b bs' where b: "Encode (chunk_msg rel (off, data, fin)) = Inr b" "bs = b @ bs'"
    and enc: "enc_all Encode (map (chunk_msg rel) cs) = Inr bs'"
    using Cons.prems(4) c by (auto split: sum.splits)
  have off: "unat off < 2 ^ 63" and rest: "\<forall>(off, _, _) \<in> set cs. unat off < 2 ^ 63" using Cons.prems(11) c by auto
  have inp: "cn_in (conn_at (ss_srv s) a) = (b @ bs' @ rest, e)" using Cons.prems(2) b(2) by simp
  obtain t nd' d' where t: "hc_loop (False # replicate (length cs) False @ ds) a s = hc_loop (replicate (length cs) False @ ds) a t"
    "chunk_writer (render True p) off data fin (ss_fs s) = (Inr (), ss_fs t)"
    "ss_engine t = ss_engine s" "ss_mon t = ss_mon s"
    "srv_ok (ss_srv t)" "length (sv_sessions (ss_srv t)) = length (sv_sessions (ss_srv s))"
    "cn_in (conn_at (ss_srv t) a) = (bs' @ rest, e)"
    "wf_fs (ss_fs t)" "calm (ss_fs t)" "look (ss_fs t) p = Some nd'" "n_kind nd' = KFile d'"
    by (rule hc_loop_chunk [OF Cons.prems(1) inp Cons.prems(3) b(1) Cons.prems(5-10) off])
  have "a < length (sv_sessions (ss_srv t))" "Join (srv_base t) rel = render True p"
    using Cons.prems(1,10) t(3,6) by simp_all
  from Cons.IH [OF this(1) t(7,5) enc Cons.prems(5) t(8-11) this(2) rest] show ?case
    using t(1-4,6) by (auto simp: c)
qed

text \<open>Creating a file truncates what is there.\<close>

lemma applyFileCreate_plain:
  assumes "wf_fs fs" "calm fs" "placed fs p" "kind_at fs p = None \<or> (\<exists>d. kind_at fs p = Some (KFile d))"
    "Join base (fe_Path x) = render True p" "fe_EntryType x \<noteq> FileTypeDirectory"
  shows "\<exists>fs1 nd. applyFileCreate base x fs = (Inr (), fs1) \<and> wf_fs fs1 \<and> calm fs1 \<and>
    look fs1 p = Some nd \<and> n_kind nd = KFile [] \<and> (\<forall>q. q \<noteq> p \<longrightarrow> kind_at fs1 q = kind_at fs q)"
proof -
  have dir: "p \<noteq> []" "is_dir fs (butlast p)" "name_ok (last p)" using assms(3) by (auto simp: placed_def)
  have "Dir (render True p) = render True (butlast p)"
    using Dir_render [of "butlast p" "last p"] dir_names [OF assms(1) dir(2)] dir by simp
  then have ens: "EnsureDir (render True p) fs = (Inr (), fs)"
    using MkdirAll_existing [OF assms(1,2) dir(2)] by (simp add: EnsureDir_def)
  obtain fs0 nd where cr: "Create (render True p) fs = (Inr p, fs0)" "look fs0 p = Some nd" "n_kind nd = KFile []"
    "\<And>q. q \<noteq> p \<Longrightarrow> kind_at fs0 q = kind_at fs q"
  proof (cases "look fs p")
    case None
    let ?fs = "add_node fs p (new_node fs (KFile []) 438)"
    have k: "kind_at ?fs q = (if q = p then Some (KFile []) else kind_at fs q)" for q
      by (simp add: kind_add new_node_def)
    have "kind_at ?fs p = Some (KFile [])" using k by simp
    then obtain nd where "look ?fs p = Some nd" "n_kind nd = KFile []" unfolding kind_at_def by auto
    then show ?thesis
      using that [of ?fs nd] k open_create_plain(1) [OF assms(1,2,3) None] by (simp add: Create_def)
  next
    case (Some nd)
    then obtain d where "n_kind nd = KFile d" using assms(4) by (auto simp: kind_at_def)
    then show ?thesis
      using that [of "put fs p (nd\<lparr>n_kind := KFile [], n_mtime := fs_clock fs\<rparr>)"]
        open_create_plain(2) [OF assms(1,2) Some, of d True] by (simp add: Create_def kind_put)
  qed
  have wf: "wf_fs fs0" "calm fs0"
    using Create.wf [OF assms(1), of "render True p"] Create.calm_act [of "render True p" fs] assms(2) cr(1) by simp_all
  let ?nd = "nd\<lparr>n_mode := syscallMode (fe_Mode x), n_mtime := fe_MTime x, n_atime := fe_ATime x\<rparr>"
  have "ApplyAttrs (render True p) x fs0 = (Inr (), put fs0 p ?nd)"
    by (rule ApplyAttrs_plain [OF wf cr(2)]) (simp add: cr(3))
  then have "applyFileCreate base x fs = (Inr (), put fs0 p ?nd)"
    by (simp add: applyFileCreate_def Let_def assms(5,6) ens cr(1) and_then_def)
  moreover have "wf_fs (put fs0 p ?nd)" using wf cr(2) by (auto intro: wf_put)
  ultimately show ?thesis using wf(2) cr(3,4) by (auto simp: kind_put)
qed

text \<open>The announcement of a new file and its chunks, from the wire to the disk.\<close>

lemma hc_loop_upload:
  assumes "a < length (sv_sessions (ss_srv s))" "cn_in (conn_at (ss_srv s) a) = (bs0 @ bs @ rest, e)" "srv_ok (ss_srv s)"
    and x: "entry_ok x" "Encode ((blank_msg MSG_FILE_CREATE)\<lparr>m_FileCreate := Some x\<rparr>) = Inr bs0"
      "fe_EntryType x \<noteq> FileTypeDirectory"
    and "enc_all Encode (map (chunk_msg (fe_Path x)) (file_chunks data)) = Inr bs" "length data < 2 ^ 63"
    and "wf_fs (ss_fs s)" "calm (ss_fs s)" "placed (ss_fs s) p"
      "kind_at (ss_fs s) p = None \<or> (\<exists>d. kind_at (ss_fs s) p = Some (KFile d))"
    and "Join (srv_base s) (fe_Path x) = render True p"
  obtains s' where
    "hc_loop (replicate (Suc (length (file_chunks data))) False @ ds) a s = hc_loop ds a s'"
    "kind_at (ss_fs s') p = Some (KFile data)" "\<And>q. q \<noteq> p \<Longrightarrow> kind_at (ss_fs s') q = kind_at (ss_fs s) q"
    "cn_in (conn_at (ss_srv s') a) = (rest, e)"
proof -
  let ?m = "(blank_msg MSG_FILE_CREATE)\<lparr>m_FileCreate := Some x\<rparr>" and ?n = "length (file_chunks data)"
  obtain srv where srv: "srv_ok srv" "length (sv_sessions srv) = length (sv_sessions (ss_srv s))"
    "cn_in (conn_at srv a) = (bs @ rest, e)"
    and step: "fst (handleMessage a ?m (s\<lparr>ss_srv := srv\<rparr>)) \<noteq> Inl GoPanic \<Longrightarrow>
      hc_loop (False # replicate ?n False @ ds) a s =
        hc_loop (replicate ?n False @ ds) a (snd (handleMessage a ?m (s\<lparr>ss_srv := srv\<rparr>)))"
    using hc_loop_message [OF assms(1,2) msg_ok.file_create [OF x(1)] x(2) assms(3)] by metis
  obtain fs1 nd where fs1: "applyFileCreate (srv_base s) x (ss_fs s) = (Inr (), fs1)" "wf_fs fs1" "calm fs1"
    "look fs1 p = Some nd" "n_kind nd = KFile []" "\<And>q. q \<noteq> p \<Longrightarrow> kind_at fs1 q = kind_at (ss_fs s) q"
    using applyFileCreate_plain [OF assms(9-13) x(3)] by blast
  define t where "t = snd (handle_create x (s\<lparr>ss_srv := srv\<rparr>))"
  have "handle_create x (s\<lparr>ss_srv := srv\<rparr>) = (Inr (), t)" and t: "ss_fs t = fs1" "ss_srv t = srv" "srv_base t = srv_base s"
    using fs1(1) by (simp_all add: t_def handle_create_def Let_def and_then_def wrap_err_def on_fs_def ClearTombstone_def)
  then have hm: "handleMessage a ?m (s\<lparr>ss_srv := srv\<rparr>) = (Inr (), t)" by (simp add: handleMessage_def msg_type_defs)
  have off: "\<forall>(off, _, _) \<in> set (file_chunks data). unat off < 2 ^ 63" by (rule file_chunks_offsets [OF assms(8)])
  have "utf8_valid (fe_Path x)" using x(1) by (simp add: entry_ok_def)
  then obtain s' where s': "hc_loop (replicate ?n False @ ds) a t = hc_loop ds a s'"
    "feed (chunk_writer (render True p)) (file_chunks data) fs1 = (Inr (), ss_fs s')"
    "cn_in (conn_at (ss_srv s') a) = (rest, e)"
    using hc_loop_chunks [of a t bs rest e "fe_Path x" "file_chunks data" p nd "[]" ds] srv assms(1,7,13) fs1(2-5) off
    by (auto simp: t)
  have "foldl (\<lambda>cur (off, x, _). splice cur (unat off) x) [] (filter (\<lambda>(_, x, _). x \<noteq> []) (file_chunks data)) = data"
    using foldl_chunks_splice [of data "[]"] assms(8) by (simp add: file_chunks_nonempty)
  then have "kind_at (ss_fs s') p = Some (KFile data)" "\<And>q. q \<noteq> p \<Longrightarrow> kind_at (ss_fs s') q = kind_at fs1 q"
    using feed_chunk_writer [OF fs1(2-5) off] s'(2) by (auto simp: kind_at_def)
  moreover have "hc_loop (replicate (Suc ?n) False @ ds) a s = hc_loop ds a s'"
    using step hm s'(1) by simp
  ultimately show ?thesis using that fs1(6) s'(3) by auto
qed

section \<open>What the initial exchange orders\<close>

lemma Tombstones_eq: "flags_ok (e_tombstones e) \<Longrightarrow> gm_flag (Tombstones e) p = IsTombstoned e p"
proof -
  assume "flags_ok (e_tombstones e)"
  then have "gm_ok (e_tombstones e)" by (simp add: flags_ok_def)
  then have "Tombstones e = e_tombstones e"
    using fold_gm_set_fresh [of "[]" "e_tombstones e"] by (simp add: Tombstones_def gm_ok_def)
  then show ?thesis by (simp add: IsTombstoned_def)
qed

lemma in_tombstone_deletes:
  assumes "flags_ok (e_tombstones e)"
  shows "c \<in> set (tombstone_deletes e entries) \<longleftrightarrow>
    (\<exists>p. p \<in> fe_Path ` set entries \<and> Get (e_localTree e) p = None \<and> IsTombstoned e p \<and> c = delete_event p)"
  using assms by (auto simp: tombstone_deletes_def Let_def Tombstones_eq delete_event_def image_iff)

lemma delete_not_initial: "tree_ok l \<Longrightarrow> tree_ok r \<Longrightarrow> delete_event p \<notin> set (DiffInitial l r)"
  by (auto simp: in_DiffInitial)

lemma stream_file_sel [simp]:
  "ss_engine (stream_file a rel s) = ss_engine s" "ss_fs (stream_file a rel s) = ss_fs s"
  "ss_mon (stream_file a rel s) = ss_mon s"
  by (simp_all add: stream_file_def)

lemma stream_changes_sel [simp]:
  "ss_engine (fold (stream_change a) cs s) = ss_engine s" "ss_fs (fold (stream_change a) cs s) = ss_fs s"
  by (induction cs arbitrary: s) (simp_all add: stream_change_def split: option.split)

text \<open>After an exchange the engine knows the client's paths and has forgotten its tombstones.\<close>

lemma hc_exchange_engine:
  assumes "hc_exchange a tree s = (Inr u, s1)"
  obtains e1 where "SetRemoteTree (ss_engine s) tree = Inr e1"
    "ss_engine s1 = (AddToPreviousPaths e1 (map fe_Path (tree_entries tree)))\<lparr>e_tombstones := gm_make\<rparr>"
proof -
  from assms obtain e1 where e1: "SetRemoteTree (ss_engine s) tree = Inr e1"
    by (auto simp: hc_exchange_def split: sum.splits)
  have "ss_engine s1 = (AddToPreviousPaths e1 (map fe_Path (tree_entries tree)))\<lparr>e_tombstones := gm_make\<rparr>"
    using assms e1 unfolding hc_exchange_def Let_def
    by (auto simp: on_srv_def ClearTombstones_def elim!: and_then_okE dest!: wrap_err_okD split: prod.splits)
  with e1 that show ?thesis by blast
qed

lemma SetRemoteTree_sel:
  "SetRemoteTree e t = Inr e1 \<Longrightarrow> e_tombstones e1 = e_tombstones e \<and> e_previousPaths e1 = e_previousPaths e \<and>
     e_localTree e1 = e_localTree e \<and> e_baseDir e1 = e_baseDir e"
  by (auto simp: SetRemoteTree_def split: sum.splits)

lemma AddToPreviousPaths_sel [simp]:
  "e_tombstones (AddToPreviousPaths e ps) = e_tombstones e" "e_localTree (AddToPreviousPaths e ps) = e_localTree e"
  "e_remoteTree (AddToPreviousPaths e ps) = e_remoteTree e" "e_baseDir (AddToPreviousPaths e ps) = e_baseDir e"
  by (simp_all add: AddToPreviousPaths_def)

lemma SetRemoteTree_absent:
  assumes "SetRemoteTree e t = Inr e1" "p \<notin> fe_Path ` set (tree_entries t)"
  shows "Get (e_remoteTree e1) p = None"
proof -
  have "Get t1 p = Get t0 p"
    if "set_entries t0 es = Inr t1" "p \<notin> fe_Path ` set (List.map_filter (\<lambda>x. x) es)" for t0 es t1
    using that by (induction t0 es arbitrary: t1 rule: set_entries.induct) (auto simp: List.map_filter_simps)
  from this [of "NewFileTree (e_baseDir e)" "st_Entries t"] assms show ?thesis
    by (auto simp: SetRemoteTree_def tree_entries_def split: sum.splits)
qed

text \<open>The operations a tick sends, and what the one for a new file does on the other side.\<close>

lemma applyOp_createFile:
  "fe_EntryType x \<noteq> FileTypeDirectory \<Longrightarrow>
   applyOp base (blank_op\<lparr>op_Type := ''createFile'', op_Entry := Some x\<rparr>) = applyFileCreate base x"
  by (simp add: applyOp_def applyFileCreate_def Let_def fun_eq_iff)

lemma createFile_op:
  assumes "tree_ok l" "tree_ok r" "Get l p = Some x" "Get r p = None" "fe_EntryType x \<noteq> FileTypeDirectory"
  shows "blank_op\<lparr>op_Type := ''createFile'', op_Entry := Some x\<rparr> \<in> set (buildSyncOps (Diff l r))"
proof -
  have "create_event x \<in> set (Diff l r)" using assms(3,4) by (auto simp: in_Diff [OF assms(1,2)] in_DiffInitial [OF assms(1,2)])
  moreover have "sync_op_of (create_event x) = [blank_op\<lparr>op_Type := ''createFile'', op_Entry := Some x\<rparr>]"
    using assms(5) by (simp add: sync_op_of_def create_event_def)
  ultimately show ?thesis by (force simp: buildSyncOps_eq)
qed

lemma createFile_truncates:
  assumes "wf_fs fs" "calm fs" "placed fs (c @ r)" "kind_at fs (c @ r) = Some (KFile d)" "\<forall>w \<in> set r. name_ok w"
    "fe_Path x = join_slash r" "fe_EntryType x \<noteq> FileTypeDirectory"
  shows "\<exists>fs'. applyOp (render True c) (blank_op\<lparr>op_Type := ''createFile'', op_Entry := Some x\<rparr>) fs = (Inr (), fs') \<and>
    kind_at fs' (c @ r) = Some (KFile []) \<and> (\<forall>q. q \<noteq> c @ r \<longrightarrow> kind_at fs' q = kind_at fs q)"
proof -
  have "\<forall>w \<in> set c. name_ok w" using nameable_names [OF assms(1), of "c @ r"] assms(3) by (auto simp: nameable_def)
  then have "Join (render True c) (fe_Path x) = render True (c @ r)" using Join_names assms(5,6) by simp
  from applyFileCreate_plain [OF assms(1-3) _ this assms(7)] assms(4) show ?thesis
    by (auto simp: applyOp_createFile [OF assms(7)] kind_at_def)
qed

section \<open>Deleting\<close>

lemma RemoveAll_plain:
  assumes "wf_fs fs" "calm fs" "kind_at fs p \<noteq> None" "p \<noteq> []"
  shows "\<exists>fs'. RemoveAll (render True p) fs = (Inr (), fs') \<and>
    (\<forall>q. kind_at fs' q = (if prefix p q then None else kind_at fs q))"
proof -
  obtain b x where p: "p = b @ [x]" using assms(4) by (cases p rule: rev_cases) auto
  have names: "\<forall>w \<in> set p. name_ok w" using wf_names [OF assms(1,3)] by blast
  have r: "resolve fs False (render True p) = Inr p"
    using assms(1,3) by (intro resolve_plain) (auto simp: nameable_def)
  have "\<not> ends_with_dot (render True p)" "render True p \<noteq> []"
    using RemoveAll_path_ok [of b x] names p by simp_all
  moreover have st: "stuck fs q = None" if "q \<noteq> []" for q using that assms(2) by (simp add: stuck_None)
  ultimately have "RemoveAll (render True p) fs = (Inr (), stamp_dir (drop_tree fs p) (butlast p))"
    using r assms(3,4) by (auto simp: RemoveAll_def look_None_kind)
  moreover have "kind_at (drop_tree fs p) q = (if prefix p q then None else kind_at fs q)" for q
    using st [of q] assms(4) by (cases "q = []") (auto simp: kind_at_def look_drop_tree)
  ultimately show ?thesis by simp
qed

text \<open>The server's side of a deletion by a client.\<close>

lemma handle_delete_plain:
  assumes "engine_ok (ss_engine s)" "wf_fs (ss_fs s)" "calm (ss_fs s)" "is_dir (ss_fs s) b" "srv_base s = render True b"
    and "r \<noteq> []" "kind_at (ss_fs s) (b @ r) \<noteq> None" "m_FileDelete msg = join_slash r"
  shows "\<exists>s'. handle_delete a msg s = (Inr (), s') \<and>
    (\<forall>q. kind_at (ss_fs s') q = (if prefix (b @ r) q then None else kind_at (ss_fs s) q)) \<and>
    Get (e_localTree (ss_engine s')) (join_slash r) = None \<and>
    Get (e_remoteTree (ss_engine s')) (join_slash r) = None \<and> IsTombstoned (ss_engine s') (join_slash r) \<and>
    ss_srv s' = Broadcast (cs_ID (session_at (ss_srv s) a)) msg (ss_srv s)"
proof -
  let ?rel = "join_slash r"
  have names: "\<forall>w \<in> set (b @ r). name_ok w" using wf_names [OF assms(2,7)] by blast
  then have j: "Join (srv_base s) ?rel = render True (b @ r)" using Join_names [of b r] assms(5) by simp
  obtain fs' where fs': "RemoveAll (render True (b @ r)) (ss_fs s) = (Inr (), fs')"
    "\<And>q. kind_at fs' q = (if prefix (b @ r) q then None else kind_at (ss_fs s) q)"
    using RemoveAll_plain [OF assms(2,3,7)] assms(6) by auto
  have wf: "wf_fs fs'" "calm fs'"
    using RemoveAll.wf [OF assms(2)] RemoveAll.calm_act assms(3) fs'(1) by (metis snd_conv)+
  have dir: "is_dir fs' b" using assms(4,6) fs'(2) by (simp add: is_dir_kind)
  define e where "e = (let e = ss_engine s; e1 = e\<lparr>e_remoteTree := Remove (e_remoteTree e) ?rel\<rparr>
    in AddTombstone (e1\<lparr>e_localTree := Remove (e_localTree e1) ?rel\<rparr>) ?rel)"
  have ok: "engine_ok e" using assms(1) by (simp add: e_def Let_def engine_ok_calls)
  have base: "e_baseDir e = render True b" using assms(5) by (simp add: e_def Let_def AddTombstone_def)
  have gone: "?rel \<notin> disk_paths fs' b"
  proof
    assume "?rel \<in> disk_paths fs' b"
    then obtain r' where r': "?rel = join_slash r'" "kind_at fs' (b @ r') \<noteq> None" "r' \<noteq> []"
      by (auto simp: disk_paths_def look_None_kind)
    have "\<forall>w \<in> set r'. name_ok w" using wf_names [OF wf(1) r'(2)] by auto
    with names r'(1) assms(6) r'(3) have "r = r'" using join_slash_inject [of r r'] by simp
    with fs'(2) r'(2) show False by simp
  qed
  obtain e' where e': "ScanLocal e fs' = (Inr (), e')"
      "\<forall>p. Get (e_localTree e') p \<noteq> None \<longleftrightarrow> p \<in> disk_paths fs' b"
      "\<forall>p. IsTombstoned e' p \<longleftrightarrow> IsTombstoned e p \<or> (gm_flag (e_previousPaths e) p \<and> p \<notin> disk_paths fs' b)"
    using ScanLocal_picture [OF wf dir ok base] by (elim exE conjE) (rule that; assumption)
  have "IsTombstoned e ?rel" "Get (e_remoteTree e) ?rel = None"
    by (simp_all add: e_def Let_def AddTombstone_def IsTombstoned_def Get_Remove)
  moreover have "e_remoteTree e' = e_remoteTree e" using ScanLocal_remote [of e fs'] e'(1) by simp
  ultimately have facts: "IsTombstoned e' ?rel" "Get (e_localTree e') ?rel = None" "Get (e_remoteTree e') ?rel = None"
    using e'(2,3) [rule_format, of ?rel] gone by simp_all
  have "handle_delete a msg s = (Inr (), (ignore_path ?rel (2000 * Millisecond) s)\<lparr>ss_fs := fs', ss_engine := e',
      ss_srv := Broadcast (cs_ID (session_at (ss_srv s) a)) msg (ss_srv s)\<rparr>)"
    using fs'(1) e'(1) [unfolded e_def Let_def]
    by (simp add: handle_delete_def Let_def assms(8) j DeleteEntry_def and_then_def wrap_err_def on_fs_def rescan_def)
  then show ?thesis using facts fs'(2) by simp
qed

section \<open>Properties\<close>

definition demo_state :: SrvState where
  "demo_state = \<lparr>ss_engine = fresh_engine ''/d'', ss_fs = demo_fs, ss_srv = demo_server, ss_mon = demo_monitor\<rparr>"

lemma fresh_engine_ok [simp]: "engine_ok (fresh_engine d)"
  by (simp add: engine_ok_def fresh_engine_def)

lemma demo_state_inv: "main_inv demo_state"
  using NewMonitor_inv [OF demo_monitor_new] by (simp add: main_inv_def demo_state_def demo_server_def srv_ok_accept)

lemma demo_server_sessions:
  "length (sv_sessions demo_server) = 2" "conn_at demo_server 0 = NewConn ([], IoEOF) None"
  "conn_at demo_server 1 = NewConn ([], IoEOF) None" "cs_ID (session_at demo_server 0) = 1"
  by (simp_all add: demo_server_def accept_def Let_def NewServer_def)

lemma demo_fenced: "fenced [''d''] demo_fs"
  by (auto simp: fenced_def no_links_def placed_def is_dir_kind name_ok_def split: if_splits)


lemma demo_start:
  "\<exists>s0 fs'. server_start None (\<lambda>_. None) (DefaultServerConfig\<lparr>sc_ServerDir := render True [''d'']\<rparr>) 0 demo_fs = (Inr s0, fs')"
proof -
  have mk: "MkdirAll (render True [''d'']) 493 demo_fs = (Inr (), demo_fs)"
    by (rule MkdirAll_existing [OF wf_demo calm_sample demo_dir(1)])
  have base: "e_baseDir (NewEngine (render True [''d'']) demo_fs) = render True [''d'']" by code_simp
  obtain e where sc: "ScanLocal (NewEngine (render True [''d'']) demo_fs) demo_fs = (Inr (), e)"
    by (rule ScanLocal_plain [OF wf_demo calm_sample demo_dir(1) base]) blast
  show ?thesis
    using demo_monitor_new mk sc by (simp add: server_start_def and_then_def wrap_err_def)
qed


text \<open>C25: a connection cannot hold its handler for ever: every round of the message loop consumes at least
  a five-byte header, so on a connection that delivers \<open>n\<close> more bytes the loop returns within
  \<open>n div 5 + 1\<close> rounds.\<close>

theorem client_loop_ends:
  assumes "main_inv s" "a < length (sv_sessions (ss_srv s))"
    "length (fst (cn_in (conn_at (ss_srv s) a))) < 5 * length ds"
  shows "\<exists>r s'. hc_loop ds a s = (Some r, s')"
  using assms by (rule hc_loop_returns)

theorem client_loop_ends_witness:
  "\<exists>r s'. hc_loop [False] 0 demo_state = (Some r, s')"
  by (rule client_loop_ends [OF demo_state_inv])
    (simp_all add: demo_state_def demo_server_sessions NewConn_def)



text \<open>C21: in the initial exchange the server orders a client to delete a path exactly when the client
  announced it, the server does not have it, and the server has a tombstone for it.\<close>

theorem initial_delete_orders:
  assumes "engine_ok e"
  shows "delete_event p \<in> set (sync_changes e entries) \<longleftrightarrow>
    p \<in> fe_Path ` set entries \<and> Get (e_localTree e) p = None \<and> IsTombstoned e p"
  using engine_okD [OF assms] by (auto simp: sync_changes_def in_tombstone_deletes delete_not_initial)

theorem initial_delete_orders_witness:
  "delete_event ''old'' \<in> set (sync_changes demo_engine [blank_entry\<lparr>fe_Path := ''old''\<rparr>])"
  using initial_delete_orders [OF demo_engine_ok, of "''old''" "[blank_entry\<lparr>fe_Path := ''old''\<rparr>]"]
  by (simp add: fresh_engine_def IsTombstoned_def gm_flag_def gm_get_def)

text \<open>C20: an interrupted upload costs the client its file. The initial exchange records every path the
  client announced as known to the server; a path that is then not uploaded is taken for a deletion
  by the next scan, and when the client comes back and announces the file again the server orders
  it deleted.\<close>

theorem interrupted_upload_deletes:
  assumes "main_inv s" "srv_base s = render True b" "hc_exchange a tree s = (Inr u, s1)"
    and "wf_fs (ss_fs s1)" "calm (ss_fs s1)" "is_dir (ss_fs s1) b"
    and "p \<in> fe_Path ` set (tree_entries tree)" "p \<notin> disk_paths (ss_fs s1) b"
    and "SetRemoteTree (ss_engine (rescan s1)) tree' = Inr e" "p \<in> fe_Path ` set (tree_entries tree')"
  shows "delete_event p \<in> set (sync_changes (AddToPreviousPaths e (map fe_Path (tree_entries tree'))) (tree_entries tree'))"
proof -
  obtain e1 where e1: "SetRemoteTree (ss_engine s) tree = Inr e1"
    "ss_engine s1 = (AddToPreviousPaths e1 (map fe_Path (tree_entries tree)))\<lparr>e_tombstones := gm_make\<rparr>"
    by (rule hc_exchange_engine [OF assms(3)])
  have ok1: "engine_ok (ss_engine s1)" using hc_exchange_inv [OF assms(1), of a tree] assms(3) by (simp add: main_inv_def)
  have base: "e_baseDir (ss_engine s1) = render True b" using SetRemoteTree_sel [OF e1(1)] e1(2) assms(2) by simp
  have "gm_flag (e_previousPaths (ss_engine s1)) p"
    using assms(7) by (simp add: e1(2) AddToPreviousPaths_def flag_fold_set [of "\<lambda>x. x"] flip: set_map)
  moreover obtain e' where e': "ScanLocal (ss_engine s1) (ss_fs s1) = (Inr (), e')"
      "\<forall>p. Get (e_localTree e') p \<noteq> None \<longleftrightarrow> p \<in> disk_paths (ss_fs s1) b"
      "\<forall>p. IsTombstoned e' p \<longleftrightarrow> IsTombstoned (ss_engine s1) p \<or>
         (gm_flag (e_previousPaths (ss_engine s1)) p \<and> p \<notin> disk_paths (ss_fs s1) b)"
    using ScanLocal_picture [OF assms(4-6) ok1 base] by (elim exE conjE) (rule that; assumption)
  ultimately have p: "IsTombstoned e' p" "Get (e_localTree e') p = None" using assms(8) by blast+
  from e'(1) have sc: "ss_engine (rescan s1) = e'" by (simp add: rescan_def)
  have "engine_ok e'" using engine_ok_ScanLocal [OF ok1, of "ss_fs s1"] e'(1) by simp
  then have "engine_ok (AddToPreviousPaths e (map fe_Path (tree_entries tree')))"
    using engine_ok_SetRemoteTree assms(9) sc by (simp add: engine_ok_calls)
  note ok = engine_okD [OF this]
  have "Get (e_localTree e) p = None" "IsTombstoned (AddToPreviousPaths e ps) p" for ps
    using SetRemoteTree_sel [OF assms(9)] p sc by (simp_all add: IsTombstoned_def)
  then show ?thesis using ok(3) assms(10) by (auto simp: sync_changes_def in_tombstone_deletes)
qed

lemma Encode_small:
  "\<exists>d. Encode (sync_apply_msg []) = Inr d"
  "\<exists>d. Encode ((blank_msg MSG_ACK)\<lparr>m_Ack := Some \<lparr>ack_Seq = 0, ack_Status = 0\<rparr>\<rparr>) = Inr d"
proof -
  have "length (print_str ''ops'') \<le> 100" "length (print_str ''seq'') \<le> 100" "length (print_str ''status'') \<le> 100"
    using length_print_str [of "''ops''"] length_print_str [of "''seq''"] length_print_str [of "''status''"] by simp_all
  moreover have "length (print_nat 0) \<le> 100" using length_print_nat [of 0 0] by simp
  ultimately show "\<exists>d. Encode (sync_apply_msg []) = Inr d"
    "\<exists>d. Encode ((blank_msg MSG_ACK)\<lparr>m_Ack := Some \<lparr>ack_Seq = 0, ack_Status = 0\<rparr>\<rparr>) = Inr d"
    by (simp_all add: Encode_def jsonMarshal_def payload_def msg_type_defs enc_ptr_def sync_apply_msg_def buildSyncOps_eq
        enc_SyncApply_def enc_nil_slice_def enc_AckPayload_def enc_uint_def MaxFrameSize_def)
qed

lemma session_write_open:
  assumes "conn_open (conn_at s a)" "a < length (sv_sessions s)" "Encode m = Inr d"
  shows "fst (session_write m a s) = Inr ()" "conn_open (conn_at (snd (session_write m a s)) a)"
  using assms WriteMessage_open [OF assms(1,3)] conn_open_write [OF assms(1), of m]
  by (simp_all add: session_write_def split: prod.split)

text \<open>An exchange in which the server has nothing to send succeeds on an open connection.\<close>

lemma hc_exchange_quiet:
  assumes "SetRemoteTree (ss_engine s) tree = Inr e1"
    "sync_changes (AddToPreviousPaths e1 (map fe_Path (tree_entries tree))) (tree_entries tree) = []"
    "conn_open (conn_at (ss_srv s) a)" "a < length (sv_sessions (ss_srv s))"
  shows "\<exists>s1. hc_exchange a tree s = (Inr (), s1) \<and>
    ss_fs s1 = snd (Remove_path (Join (e_baseDir e1) TombstoneFile) (ss_fs s))"
proof -
  obtain d1 d2 where d: "Encode (sync_apply_msg []) = Inr d1"
    "Encode ((blank_msg MSG_ACK)\<lparr>m_Ack := Some \<lparr>ack_Seq = 0, ack_Status = 0\<rparr>\<rparr>) = Inr d2"
    using Encode_small by blast
  define v where "v = snd (session_write (sync_apply_msg []) a (ss_srv s))"
  note w1 = session_write_open [OF assms(3,4) d(1)]
  have v: "session_write (sync_apply_msg []) a (ss_srv s) = (Inr (), v)" "a < length (sv_sessions v)"
    using w1(1) assms(4) by (simp_all add: v_def prod_eq_iff)
  note w2 = session_write_open [OF w1(2) [folded v_def] v(2) d(2)]
  show ?thesis
    using w2(1) unfolding hc_exchange_def assms(1)
    by (auto simp: Let_def assms(2) on_srv_def and_then_def wrap_err_def v(1) ClearTombstones_def split: prod.split sum.split)
qed

text \<open>On the demonstration state, where nothing has been scanned yet, every exchange is of this kind.\<close>

lemma demo_exchange:
  assumes "None \<notin> set (st_Entries t)"
  shows "\<exists>s1. hc_exchange 0 t demo_state = (Inr (), s1) \<and> ss_fs s1 = demo_fs"
proof -
  have "resolve demo_fs False (Join ''/d'' TombstoneFile) = Inr [''d'', TombstoneFile]"
    "kind_at demo_fs [''d'', TombstoneFile] = None" by code_simp+
  then have rem: "snd (Remove_path (Join ''/d'' TombstoneFile) demo_fs) = demo_fs"
    by (simp add: Remove_path_def look_None_kind)
  have "set_entries t0 es \<noteq> Inl err" if "None \<notin> set es" for t0 es err
    using that by (induction t0 es rule: set_entries.induct) auto
  with assms obtain t1 where "set_entries (NewFileTree ''/d'') (st_Entries t) = Inr t1" by (metis sum.exhaust)
  then obtain e1 where e1: "SetRemoteTree (fresh_engine ''/d'') t = Inr e1"
    by (simp add: SetRemoteTree_def fresh_engine_def)
  note sel = SetRemoteTree_sel [OF e1]
  have "sync_changes (AddToPreviousPaths e1 (map fe_Path (tree_entries t))) (tree_entries t) = []"
    using sel by (simp add: sync_changes_def tombstone_deletes_def Tombstones_def fresh_engine_def DiffInitial_def Snapshot_def
        NewFileTree_def gm_flag_def gm_get_def Let_def)
  then show ?thesis
    using hc_exchange_quiet [of demo_state t e1 0] e1 sel rem
    by (auto simp: demo_state_def demo_server_sessions fresh_engine_def)
qed

theorem interrupted_upload_deletes_witness:
  "\<exists>e. delete_event ''new'' \<in> set (sync_changes e [blank_entry\<lparr>fe_Path := ''new''\<rparr>])"
proof -
  let ?x = "blank_entry\<lparr>fe_Path := ''new''\<rparr>" and ?b = "[''d'']"
  let ?t = "\<lparr>st_Entries = [Some ?x]\<rparr>"
  have te: "tree_entries ?t = [?x]" by (simp add: tree_entries_def)
  have base: "srv_base demo_state = render True ?b" by (simp add: demo_state_def fresh_engine_def)
  obtain s1 where s1: "hc_exchange 0 ?t demo_state = (Inr (), s1)" "ss_fs s1 = demo_fs"
    using demo_exchange [of ?t] by auto
  have new: "''new'' \<notin> disk_paths demo_fs ?b"
    by (auto simp: disk_paths_def look_None_kind split: if_splits)
  obtain e where "SetRemoteTree (ss_engine (rescan s1)) ?t = Inr e" by (simp add: SetRemoteTree_def)
  then show ?thesis
    using interrupted_upload_deletes [OF demo_state_inv base s1(1), of "''new''" ?t e] s1(2) new te by auto
qed

text \<open>C10: a client's deletion is carried out in full: the file, or the whole directory, disappears from the
  server's disk and nothing else does, both trees forget the path, a tombstone keeps it from being
  offered again, and every other client is sent the same deletion.\<close>

theorem client_delete_applies:
  assumes "main_inv s" "calm (ss_fs s)" "is_dir (ss_fs s) b" "srv_base s = render True b"
    and "r \<noteq> []" "kind_at (ss_fs s) (b @ r) \<noteq> None"
    and "msg = (blank_msg MSG_FILE_DELETE)\<lparr>m_FileDelete := join_slash r\<rparr>"
  shows "\<exists>s'. handleMessage a msg s = (Inr (), s') \<and>
    (\<forall>q. kind_at (ss_fs s') q = (if prefix (b @ r) q then None else kind_at (ss_fs s) q)) \<and>
    Get (e_localTree (ss_engine s')) (join_slash r) = None \<and>
    Get (e_remoteTree (ss_engine s')) (join_slash r) = None \<and> IsTombstoned (ss_engine s') (join_slash r) \<and>
    ss_srv s' = Broadcast (cs_ID (session_at (ss_srv s) a)) msg (ss_srv s)"
proof -
  have "engine_ok (ss_engine s)" "wf_fs (ss_fs s)" using assms(1) by (simp_all add: main_inv_def)
  moreover have "m_FileDelete msg = join_slash r" "handleMessage a msg s = handle_delete a msg s"
    by (simp_all add: assms(7) handleMessage_def msg_type_defs)
  ultimately show ?thesis using handle_delete_plain [OF _ _ assms(2-6)] by simp
qed

theorem client_delete_applies_witness:
  "\<exists>s'. handleMessage 0 ((blank_msg MSG_FILE_DELETE)\<lparr>m_FileDelete := join_slash [''f'']\<rparr>) demo_state = (Inr (), s') \<and>
    kind_at (ss_fs s') [''d'', ''f''] = None"
  using client_delete_applies [OF demo_state_inv, of "[''d'']" "[''f'']" _ 0]
  by (fastforce simp: demo_state_def fresh_engine_def kind_sample)

end
