(* ===== verification/TcpClient.thy ===== *)
theory TcpClient
  imports Wire
begin

text \<open>
  \<open>netlayer/client.go\<close>: the connection of a client to its server. Dialling is the operating system's;
  \<open>Connect\<close> runs on a list of \<open>attempt\<close>s that says how each round of its loop goes: the context is
  cancelled before the dial, the dial succeeds, or it fails and the wait that follows is completed or
  cut short by a cancellation. A list that ends while the loop is still retrying yields \<open>None\<close>.
  Calling a method of a nil connection is a panic, after the message has been encoded.
\<close>

section \<open>State\<close>

record Client =
  cl_addr :: string
  cl_conn :: "Conn option"
  cl_reconnect :: bool
  cl_maxDelay :: int

abbreviation Second :: int where "Second \<equiv> 1000000000"

definition NewClient :: "string \<Rightarrow> Client" where
  "NewClient addr = \<lparr>cl_addr = addr, cl_conn = None, cl_reconnect = True, cl_maxDelay = 60 * Second\<rparr>"

section \<open>Connecting\<close>

datatype attempt =
    Ctx_Done error
  | Dial_Ok reader "nat option"
  | Dial_Fails error
  | Dial_Fails_Cancelled error error

definition backoff :: "int \<Rightarrow> int \<Rightarrow> int" where
  "backoff maxDelay delay = (let d = delay * 2 in if d > maxDelay then maxDelay else d)"

text \<open>The loop returns the result, if it has one, and the delays it waited for in full.\<close>

fun connect_loop :: "int \<Rightarrow> attempt list \<Rightarrow> Client \<Rightarrow> unit res option \<times> int list \<times> Client" where
  "connect_loop delay [] c = (None, [], c)"
| "connect_loop delay (Ctx_Done e # as) c = (Some (Inl e), [], c)"
| "connect_loop delay (Dial_Ok input room # as) c =
     (Some (Inr ()), [], c\<lparr>cl_conn := Some (NewConn input room)\<rparr>)"
| "connect_loop delay (Dial_Fails e # as) c =
     (if cl_reconnect c
      then (case connect_loop (backoff (cl_maxDelay c) delay) as c of (r, waits, c') \<Rightarrow> (r, delay # waits, c'))
      else (Some (Inl (Wrap ''connect'' e)), [], c))"
| "connect_loop delay (Dial_Fails_Cancelled e e' # as) c =
     (if cl_reconnect c then (Some (Inl e'), [], c) else (Some (Inl (Wrap ''connect'' e)), [], c))"

definition Connect :: "attempt list \<Rightarrow> Client \<Rightarrow> unit res option \<times> int list \<times> Client" where
  "Connect as c = connect_loop (1 * Second) as (c\<lparr>cl_conn := None\<rparr>)"

section \<open>Messages\<close>

definition client_write :: "Message \<Rightarrow> Client \<Rightarrow> unit res \<times> Client" where
  "client_write msg cl =
     (case cl_conn cl of
        None \<Rightarrow> (case Encode msg of Inl err \<Rightarrow> Inl (Wrap ''encode message'' err) | Inr _ \<Rightarrow> Inl GoPanic, cl)
      | Some c \<Rightarrow> (case WriteMessage msg c of (r, c') \<Rightarrow> (r, cl\<lparr>cl_conn := Some c'\<rparr>)))"

definition client_read :: "Client \<Rightarrow> Message res \<times> Client" where
  "client_read cl =
     (case cl_conn cl of
        None \<Rightarrow> (Inl GoPanic, cl)
      | Some c \<Rightarrow> (case ReadMessage c of (r, c') \<Rightarrow> (r, cl\<lparr>cl_conn := Some c'\<rparr>)))"

definition SendHello :: "string \<Rightarrow> string \<Rightarrow> string \<Rightarrow> Client \<Rightarrow> HelloAckPayload res \<times> Client" where
  "SendHello clientID syncDir version =
     and_then (wrap_err ''send hello''
         (client_write ((blank_msg MSG_HELLO)\<lparr>m_Hello :=
            Some \<lparr>hp_ClientID = clientID, hp_SyncDir = syncDir, hp_Version = version\<rparr>\<rparr>)))
       (\<lambda>_. and_then (wrap_err ''read hello ack'' client_read)
         (\<lambda>resp cl.
            if m_Type resp \<noteq> MSG_HELLO_ACK then (Inl (ErrMsg ''expected HELLO_ACK''), cl)
            else
              (case m_HelloAck resp of
                 None \<Rightarrow> (Inl GoPanic, cl)
               | Some ack \<Rightarrow>
                   if ha_Status ack \<noteq> 0 then (Inl (ErrMsg ''hello ack status''), cl) else (Inr ack, cl))))"

definition Send :: "Message \<Rightarrow> Client \<Rightarrow> unit res \<times> Client" where
  "Send msg = client_write msg"

definition Receive :: "Client \<Rightarrow> Message res \<times> Client" where
  "Receive = client_read"

definition client_Close :: "Client \<Rightarrow> unit res \<times> Client" where
  "client_Close cl =
     (case cl_conn cl of
        Some c \<Rightarrow> (fst (conn_Close c), cl\<lparr>cl_conn := None\<rparr>)
      | None \<Rightarrow> (Inr (), cl))"

definition IsConnected :: "Client \<Rightarrow> bool" where
  "IsConnected cl \<longleftrightarrow> cl_conn cl \<noteq> None"

definition client_SetReadDeadline :: "int \<Rightarrow> Client \<Rightarrow> unit res \<times> Client" where
  "client_SetReadDeadline t cl =
     (case cl_conn cl of
        None \<Rightarrow> (Inr (), cl)
      | Some c \<Rightarrow> (case SetReadDeadline t c of (r, c') \<Rightarrow> (r, cl\<lparr>cl_conn := Some c'\<rparr>)))"

definition SendPing :: "Client \<Rightarrow> unit res \<times> Client" where
  "SendPing = client_write (blank_msg MSG_PING)"

definition SendPong :: "Client \<Rightarrow> unit res \<times> Client" where
  "SendPong = client_write (blank_msg MSG_PONG)"

definition SendAck :: "u64 \<Rightarrow> byte \<Rightarrow> Client \<Rightarrow> unit res \<times> Client" where
  "SendAck seq status = client_write ((blank_msg MSG_ACK)\<lparr>m_Ack := Some \<lparr>ack_Seq = seq, ack_Status = status\<rparr>\<rparr>)"

definition SendSyncInit :: "SyncTree \<Rightarrow> Client \<Rightarrow> unit res \<times> Client" where
  "SendSyncInit tree = client_write ((blank_msg MSG_SYNC_INIT)\<lparr>m_SyncInit := Some tree\<rparr>)"

definition SendFileCreate :: "FileEntry \<Rightarrow> Client \<Rightarrow> unit res \<times> Client" where
  "SendFileCreate entry = client_write ((blank_msg MSG_FILE_CREATE)\<lparr>m_FileCreate := Some entry\<rparr>)"

definition SendFileModify :: "FileEntry \<Rightarrow> Client \<Rightarrow> unit res \<times> Client" where
  "SendFileModify entry = client_write ((blank_msg MSG_FILE_MODIFY)\<lparr>m_FileModify := Some entry\<rparr>)"

definition SendFileDelete :: "string \<Rightarrow> Client \<Rightarrow> unit res \<times> Client" where
  "SendFileDelete path = client_write ((blank_msg MSG_FILE_DELETE)\<lparr>m_FileDelete := path\<rparr>)"

definition SendFileData :: "FileDataChunk \<Rightarrow> Client \<Rightarrow> unit res \<times> Client" where
  "SendFileData chunk = client_write ((blank_msg MSG_FILE_DATA)\<lparr>m_FileData := Some chunk\<rparr>)"

definition SendFileContent :: "string \<Rightarrow> string \<Rightarrow> fs \<Rightarrow> Client \<Rightarrow> unit res \<times> Client" where
  "SendFileContent fullPath relPath fs =
     ReadFileChunked fullPath fs (\<lambda>offset data isFinal. SendFileData (data_chunk relPath offset data isFinal))"

section \<open>Capped exponential backoff\<close>

text \<open>The contract of a retry delay: it doubles until it reaches a cap and stays there.\<close>

locale capped_backoff =
  fixes step :: "int \<Rightarrow> int" and cap :: int
  assumes step_min: "step d = min (2 * d) cap"
begin

lemma iterate:
  assumes "0 < d" "d \<le> cap"
  shows "(step ^^ n) d = min (2 ^ n * d) cap"
proof (induction n)
  case 0
  with assms show ?case by simp
next
  case (Suc n)
  have "min (2 * min (2 ^ n * d) cap) cap = min (2 ^ Suc n * d) cap"
    using assms by (auto simp: min_def)
  then show ?case using step_min [of "min (2 ^ n * d) cap"] by (simp add: Suc)
qed

lemma bounded: "0 < d \<Longrightarrow> d \<le> cap \<Longrightarrow> 0 < (step ^^ n) d \<and> (step ^^ n) d \<le> cap"
  by (simp add: iterate)

lemma reaches_cap:
  assumes "0 < d" "d \<le> cap" "cap \<le> 2 ^ n * d"
  shows "(step ^^ n) d = cap"
  using assms by (simp add: iterate)

text \<open>The time spent waiting grows at most linearly.\<close>

lemma total_wait:
  assumes "0 < d" "d \<le> cap"
  shows "(\<Sum>i < n. (step ^^ i) d) \<le> int n * cap"
proof -
  have "(\<Sum>i < n. (step ^^ i) d) \<le> (\<Sum>i < n. cap)" by (rule sum_mono) (simp add: bounded assms)
  then show ?thesis by simp
qed

end

interpretation backoff: capped_backoff "backoff cap" cap
  by unfold_locales (simp add: backoff_def Let_def min_def)

lemma connect_loop_retries:
  assumes "cl_reconnect c"
  shows "connect_loop d (map Dial_Fails es @ as) c =
    (case connect_loop ((backoff (cl_maxDelay c) ^^ length es) d) as c of
       (r, waits, c') \<Rightarrow> (r, map (\<lambda>i. (backoff (cl_maxDelay c) ^^ i) d) [0 ..< length es] @ waits, c'))"
proof (induction es arbitrary: d)
  case Nil
  show ?case by simp
next
  case (Cons e es)
  have "map (\<lambda>i. (backoff (cl_maxDelay c) ^^ i) d) [0 ..< Suc n] =
      d # map (\<lambda>i. (backoff (cl_maxDelay c) ^^ i) (backoff (cl_maxDelay c) d)) [0 ..< n]" for n
    by (induction n) (simp_all add: funpow_swap1)
  with Cons assms show ?case
    by (simp add: funpow_swap1 del: upt_Suc split: prod.split)
qed

section \<open>What reaches the server\<close>

text \<open>A connected client whose socket takes everything sends whole frames and nothing else.\<close>

definition cl_open :: "Client \<Rightarrow> bool" where
  "cl_open cl = (case cl_conn cl of None \<Rightarrow> False | Some c \<Rightarrow> conn_open c)"

definition cl_out :: "Client \<Rightarrow> byte list" where
  "cl_out cl = (case cl_conn cl of None \<Rightarrow> [] | Some c \<Rightarrow> cn_out c)"

lemma client_write_open:
  assumes "cl_open cl" "Encode m = Inr data"
  obtains cl' where "client_write m cl = (Inr (), cl')" "cl_open cl'" "cl_out cl' = cl_out cl @ data"
proof -
  obtain c where c: "cl_conn cl = Some c" "conn_open c" using assms(1) by (auto simp: cl_open_def split: option.splits)
  from WriteMessage_open [OF c(2) assms(2)] c that show ?thesis
    by (simp add: client_write_def cl_open_def cl_out_def conn_open_def)
qed

lemma client_write_sel [simp]:
  "cl_addr (snd (client_write m cl)) = cl_addr cl" "cl_reconnect (snd (client_write m cl)) = cl_reconnect cl"
  "cl_maxDelay (snd (client_write m cl)) = cl_maxDelay cl"
  "(cl_conn (snd (client_write m cl)) = None) = (cl_conn cl = None)"
  by (auto simp: client_write_def split: option.split prod.split)

text \<open>Chunks handed to \<open>SendFileData\<close> one after the other.\<close>

lemma feed_send_data:
  assumes "cl_open cl" "enc_all Encode (map (chunk_msg rel) cs) = Inr bs"
  shows "\<exists>cl'. feed (\<lambda>off data fin. SendFileData (data_chunk rel off data fin)) cs cl = (Inr (), cl') \<and> cl_open cl' \<and>
    cl_out cl' = cl_out cl @ bs"
  using assms
proof (induction cs arbitrary: cl bs)
  case Nil
  then show ?case by simp
next
  case (Cons c cs)
  obtain off data fin where c: "c = (off, data, fin)" by (rule prod_cases3)
  from Cons.prems(2) obtain b bs' where b: "Encode (chunk_msg rel c) = Inr b" "bs = b @ bs'"
    and rest: "enc_all Encode (map (chunk_msg rel) cs) = Inr bs'"
    by (auto split: sum.splits)
  obtain cl1 where cl1: "client_write (chunk_msg rel c) cl = (Inr (), cl1)" "cl_open cl1" "cl_out cl1 = cl_out cl @ b"
    by (rule client_write_open [OF Cons.prems(1) b(1)])
  from Cons.IH [OF cl1(2) rest] cl1 b(2) show ?case by (simp add: c SendFileData_def chunk_msg_def)
qed

lemma SendFileContent_sends:
  assumes "cl_open cl" "OpenRead fullPath fs = Inr f" "ReadFrom f fs = Inr data" "length data < 2 ^ 63"
    "length relPath \<le> 1000000"
  obtains cl' bs where "SendFileContent fullPath relPath fs cl = (Inr (), cl')" "cl_open cl'"
    "enc_all Encode (map (chunk_msg relPath) (file_chunks data)) = Inr bs" "cl_out cl' = cl_out cl @ bs"
proof -
  obtain bs where bs: "enc_all Encode (map (chunk_msg relPath) (file_chunks data)) = Inr bs"
    using chunk_msgs_fit [OF assms(5)] by blast
  have "SendFileContent fullPath relPath fs cl =
      feed (\<lambda>off data fin. SendFileData (data_chunk relPath off data fin)) (file_chunks data) cl"
    unfolding SendFileContent_def using assms(4) by (intro ReadFileChunked_feed [OF assms(2,3)]) simp
  with feed_send_data [OF assms(1) bs] bs that show ?thesis by auto
qed

section \<open>Properties\<close>

text \<open>C24: \<open>Connect\<close> keeps trying: however many dials fail, as long as one succeeds before the context
  is cancelled it returns without error, with a fresh connection in place of the old one. Before its
  \<open>k\<close>-th retry it waits one second doubled \<open>k\<close> times but never more than a minute, so the waits add up to
  at most a minute per failure.\<close>

theorem Connect_retries:
  assumes "cl_reconnect c" "cl_maxDelay c = 60 * Second"
  shows "\<exists>waits. Connect (map Dial_Fails es @ [Dial_Ok input room]) c =
      (Some (Inr ()), waits, c\<lparr>cl_conn := Some (NewConn input room)\<rparr>) \<and>
    waits = map (\<lambda>k. min (2 ^ k * Second) (60 * Second)) [0 ..< length es] \<and>
    sum_list waits \<le> int (length es) * (60 * Second)"
proof -
  let ?w = "map (\<lambda>k. min (2 ^ k * Second) (60 * Second)) [0 ..< length es]"
  have it: "(backoff (60 * Second) ^^ k) Second = min (2 ^ k * Second) (60 * Second)" for k
    using backoff.iterate [of Second "60 * Second" k] by simp
  have "Connect (map Dial_Fails es @ [Dial_Ok input room]) c = (Some (Inr ()), ?w, c\<lparr>cl_conn := Some (NewConn input room)\<rparr>)"
    using assms by (simp add: Connect_def connect_loop_retries it [simplified])
  moreover have "sum_list ?w \<le> int (length es) * (60 * Second)"
    using backoff.total_wait [of Second "60 * Second" "length es"]
    by (simp add: it [simplified] interv_sum_list_conv_sum_set_nat atLeast0LessThan)
  ultimately show ?thesis by blast
qed

theorem Connect_retries_witness:
  "\<exists>waits. Connect (map Dial_Fails [NetError, NetError] @ [Dial_Ok ([], IoEOF) None]) (NewClient ''s'') =
      (Some (Inr ()), waits, (NewClient ''s'')\<lparr>cl_conn := Some (NewConn ([], IoEOF) None)\<rparr>) \<and>
    waits = [Second, 2 * Second]"
  using Connect_retries [of "NewClient ''s''" "[NetError, NetError]" "([], IoEOF)" None]
  by (simp add: NewClient_def upt_rec [of 0] upt_rec [of 1])

end
