(* ===== verification/ClientMain.thy ===== *)
theory ClientMain
  imports Monitor TcpClient Config
begin

text \<open>
  \<open>cmd/client/main.go\<close>: the client program. A session has its own engine and monitor; the disk and the
  connection outlive it. A function that only logs its errors can still panic, so its result is
  \<open>Inl GoPanic\<close> or \<open>Inr ()\<close>. What the operating system and the user contribute to a session is its
  \<open>session_env\<close>: how dialling goes, whether the watcher can be made, and when the context is found
  cancelled.
\<close>

section \<open>State\<close>

record CliState =
  ct_engine :: Engine
  ct_fs :: fs
  ct_client :: Client
  ct_mon :: "Monitor option"

definition on_cfs :: "(fs \<Rightarrow> 'a res \<times> fs) \<Rightarrow> CliState \<Rightarrow> 'a res \<times> CliState" where
  "on_cfs f s = (case f (ct_fs s) of (r, fs) \<Rightarrow> (r, s\<lparr>ct_fs := fs\<rparr>))"

definition on_client :: "(Client \<Rightarrow> 'a res \<times> Client) \<Rightarrow> CliState \<Rightarrow> 'a res \<times> CliState" where
  "on_client f s = (case f (ct_client s) of (r, c) \<Rightarrow> (r, s\<lparr>ct_client := c\<rparr>))"

abbreviation cli_base :: "CliState \<Rightarrow> string" where
  "cli_base s \<equiv> e_baseDir (ct_engine s)"

definition cli_rescan :: "CliState \<Rightarrow> CliState" where
  "cli_rescan s = s\<lparr>ct_engine := snd (ScanLocal (ct_engine s) (ct_fs s))\<rparr>"

definition cli_ignore :: "string \<Rightarrow> CliState \<Rightarrow> CliState" where
  "cli_ignore path s = s\<lparr>ct_mon := map_option (Ignore path (2 * Second)) (ct_mon s)\<rparr>"

definition close_client :: "CliState \<Rightarrow> CliState" where
  "close_client s = s\<lparr>ct_client := snd (client_Close (ct_client s))\<rparr>"

text \<open>Logging an error and going on.\<close>

definition logged :: "'a res \<Rightarrow> unit res" where
  "logged r = (if r = Inl GoPanic then Inl GoPanic else Inr ())"

definition log_err :: "(CliState \<Rightarrow> 'a res \<times> CliState) \<Rightarrow> CliState \<Rightarrow> unit res \<times> CliState" where
  "log_err m s = (case m s of (r, s') \<Rightarrow> (logged r, s'))"

section \<open>Local changes\<close>

definition send_content :: "FileEntry \<Rightarrow> CliState \<Rightarrow> unit res \<times> CliState" where
  "send_content entry s =
     (if fe_EntryType entry = FileTypeRegularFile
      then on_client (SendFileContent (Join (cli_base s) (fe_Path entry)) (fe_Path entry) (ct_fs s)) s
      else (Inr (), s))"

definition handleLocalEvent :: "ChangeEvent \<Rightarrow> CliState \<Rightarrow> unit res \<times> CliState" where
  "handleLocalEvent event =
     (if ce_Type event = ''create'' then
        (case ce_Entry event of
           None \<Rightarrow> (\<lambda>s. (Inr (), s))
         | Some entry \<Rightarrow> log_err (and_then (on_client (SendFileCreate entry)) (\<lambda>_. send_content entry)))
      else if ce_Type event = ''modify'' then
        (case ce_Entry event of
           None \<Rightarrow> (\<lambda>s. (Inr (), s))
         | Some entry \<Rightarrow> log_err (and_then (on_client (SendFileModify entry)) (\<lambda>_. send_content entry)))
      else if ce_Type event = ''delete'' then log_err (on_client (SendFileDelete (ce_Path event)))
      else (\<lambda>s. (Inr (), s)))"

section \<open>Messages of the server\<close>

definition recv_data :: "FileDataChunk \<Rightarrow> CliState \<Rightarrow> unit res \<times> CliState" where
  "recv_data chunk s0 =
     (let s = cli_ignore (fd_Path chunk) s0;
          fullPath = Join (cli_base s) (fd_Path chunk)
      in wrap_err ''write chunk'' (on_cfs (WriteChunkAt fullPath (fd_Data chunk) (sint (fd_Offset chunk))))
           (snd (on_cfs (EnsureDir fullPath) s)))"

definition recv_delete :: "string \<Rightarrow> CliState \<Rightarrow> unit res \<times> CliState" where
  "recv_delete rel s =
     and_then (wrap_err ''delete file'' (on_cfs (DeleteEntry (Join (cli_base s) rel))))
       (\<lambda>_ s. (Inr (), cli_rescan (s\<lparr>ct_engine := (ct_engine s)\<lparr>e_remoteTree := Remove (e_remoteTree (ct_engine s)) rel\<rparr>\<rparr>)))
       (cli_ignore rel s)"

definition recv_apply :: "SyncOp option list \<Rightarrow> CliState \<Rightarrow> unit res \<times> CliState" where
  "recv_apply ops s =
     (case ApplyChanges (ct_engine s) ops (ct_fs s) of (r, e, fs) \<Rightarrow> (r, s\<lparr>ct_engine := e, ct_fs := fs\<rparr>))"

definition handleServerMessage :: "Message \<Rightarrow> CliState \<Rightarrow> unit res \<times> CliState" where
  "handleServerMessage msg s =
     (let t = m_Type msg
      in if t = MSG_FILE_CREATE then
           (case m_FileCreate msg of None \<Rightarrow> (Inl GoPanic, s) | Some entry \<Rightarrow> (Inr (), cli_ignore (fe_Path entry) s))
         else if t = MSG_FILE_MODIFY then
           (case m_FileModify msg of None \<Rightarrow> (Inl GoPanic, s) | Some entry \<Rightarrow> (Inr (), cli_ignore (fe_Path entry) s))
         else if t = MSG_FILE_DATA then
           (case m_FileData msg of None \<Rightarrow> (Inl GoPanic, s) | Some chunk \<Rightarrow> recv_data chunk s)
         else if t = MSG_FILE_DELETE then recv_delete (m_FileDelete msg) s
         else if t = MSG_SYNC_APPLY then
           (case m_SyncApply msg of
              None \<Rightarrow> (Inl GoPanic, s)
            | Some apply \<Rightarrow> wrap_err ''apply ops'' (recv_apply (sa_Ops apply)) s)
         else if t = MSG_PING then on_client SendPong s
         else (Inr (), s))"

section \<open>A session\<close>

record session_env =
  se_attempts :: "attempt list"
  se_newWatcher :: "error option"
  se_add :: "string \<Rightarrow> error option"
  se_now :: int
  se_rounds :: "(bool \<times> bool) list"

text \<open>An error on which the session closes its connection and returns.\<close>

definition or_close :: "string \<Rightarrow> (CliState \<Rightarrow> 'a res \<times> CliState) \<Rightarrow> CliState \<Rightarrow> 'a res \<times> CliState" where
  "or_close ctx m s =
     (case m s of
        (Inl err, s') \<Rightarrow> (Inl (add_ctx ctx err), if err = GoPanic then s' else close_client s')
      | (Inr x, s') \<Rightarrow> (Inr x, s'))"

text \<open>Chunks until the acknowledgement. Every message takes at least five bytes of input, so as many
  rounds as there are bytes are enough.\<close>

fun data_loop :: "nat \<Rightarrow> CliState \<Rightarrow> unit res \<times> CliState" where
  "data_loop 0 s = (Inl (ErrMsg ''out of rounds''), s)"
| "data_loop (Suc n) s =
     and_then (or_close ''receive initial sync data'' (on_client Receive))
       (\<lambda>msg s.
          if m_Type msg = MSG_ACK then (Inr (), s)
          else if m_Type msg = MSG_FILE_DATA
          then and_then (log_err (handleServerMessage msg)) (\<lambda>_. data_loop n) s
          else data_loop n s)
       s"

definition pending :: "CliState \<Rightarrow> nat" where
  "pending s = (case cl_conn (ct_client s) of None \<Rightarrow> 0 | Some c \<Rightarrow> length (fst (cn_in c)))"

text \<open>The operations the server ordered; an error is only logged.\<close>

definition apply_server_ops :: "Message \<Rightarrow> CliState \<Rightarrow> unit res \<times> CliState" where
  "apply_server_ops msg s =
     (if m_Type msg \<noteq> MSG_SYNC_APPLY then (Inr (), s)
      else
        (case m_SyncApply msg of
           None \<Rightarrow> (Inl GoPanic, s)
         | Some apply \<Rightarrow> if sa_Ops apply = [] then (Inr (), s) else log_err (recv_apply (sa_Ops apply)) s))"

fun each :: "('x \<Rightarrow> CliState \<Rightarrow> unit res \<times> CliState) \<Rightarrow> 'x list \<Rightarrow> CliState \<Rightarrow> unit res \<times> CliState" where
  "each f [] s = (Inr (), s)"
| "each f (x # xs) s = and_then (f x) (\<lambda>_. each f xs) s"

text \<open>What the client offers after a scan, and the deletions the server has not heard of.\<close>

definition send_local :: "CliState \<Rightarrow> unit res \<times> CliState" where
  "send_local s =
     each handleLocalEvent (DiffInitial (e_localTree (ct_engine s)) (e_remoteTree (ct_engine s))) s"

definition send_tombstones :: "CliState \<Rightarrow> unit res \<times> CliState" where
  "send_tombstones s =
     (let tombstones = Tombstones (ct_engine s); serverPaths = Paths (e_remoteTree (ct_engine s))
      in if tombstones = gm_make then (Inr (), s)
         else
           and_then
             (each (\<lambda>path. log_err (on_client (SendFileDelete path)))
               (filter (gm_flag serverPaths) (gm_keys tombstones)))
             (\<lambda>_ s. case ClearTombstones (ct_engine s) (ct_fs s) of (e, fs) \<Rightarrow> (Inr (), s\<lparr>ct_engine := e, ct_fs := fs\<rparr>))
             s)"

definition initial_sync :: "SyncTree \<Rightarrow> CliState \<Rightarrow> unit res \<times> CliState" where
  "initial_sync tree s =
     (case SetRemoteTree (ct_engine s) tree of
        Inl err \<Rightarrow> (Inl err, s)
      | Inr e \<Rightarrow>
          and_then (or_close ''receive sync apply'' (on_client Receive))
            (\<lambda>msg. and_then (apply_server_ops msg)
              (\<lambda>_ s. and_then (data_loop (Suc (pending s)))
                (\<lambda>_ s. and_then send_local (\<lambda>_. send_tombstones) (cli_rescan s)) s))
            (s\<lparr>ct_engine := e\<rparr>))"

text \<open>Handshake and initial synchronisation over a fresh connection.\<close>

definition greet :: "ClientConfig \<Rightarrow> CliState \<Rightarrow> unit res \<times> CliState" where
  "greet cfg =
     and_then (or_close ''handshake'' (on_client (SendHello (cc_ClientID cfg) (cc_LocalDir cfg) ''1.0.0'')))
       (\<lambda>_ s. and_then (or_close ''send sync init'' (on_client (SendSyncInit (BuildSyncTree (ct_engine s)))))
         (\<lambda>_. and_then (or_close ''receive sync init'' (on_client Receive))
           (\<lambda>msg s.
              if m_Type msg \<noteq> MSG_SYNC_INIT then (Inr (), s)
              else (case m_SyncInit msg of None \<Rightarrow> (Inl GoPanic, s) | Some tree \<Rightarrow> initial_sync tree s))) s)"

definition start_monitor :: "session_env \<Rightarrow> ClientConfig \<Rightarrow> CliState \<Rightarrow> unit res \<times> CliState" where
  "start_monitor env cfg s =
     (case NewMonitor (se_newWatcher env) (se_add env) (cc_LocalDir cfg) (se_now env) (ct_fs s) of
        Inl err \<Rightarrow> (Inl (add_ctx ''create monitor'' err), close_client s)
      | Inr m \<Rightarrow> (Inr (), s\<lparr>ct_mon := Some (Start m)\<rparr>))"

text \<open>The receive loop: for each round, whether the context is done before the read and, when the read
  fails, after it. \<open>None\<close>: still running when the list ends.\<close>

fun receive_loop :: "(bool \<times> bool) list \<Rightarrow> CliState \<Rightarrow> unit res option \<times> CliState" where
  "receive_loop [] s = (None, s)"
| "receive_loop ((before, after) # ds) s =
     (if before then (Some (Inr ()), close_client s)
      else
        (case on_client Receive s of
           (Inl err, s1) \<Rightarrow>
             if err = GoPanic then (Some (Inl GoPanic), s1)
             else if after then (Some (Inr ()), close_client s1)
             else (Some (Inl (add_ctx ''read'' err)), close_client s1)
         | (Inr msg, s1) \<Rightarrow>
             (case log_err (handleServerMessage msg) s1 of
                (Inl err, s2) \<Rightarrow> (Some (Inl err), s2)
              | (Inr _, s2) \<Rightarrow> receive_loop ds s2)))"

text \<open>The deferred calls: stop the monitor, save the tombstones.\<close>

definition end_session :: "CliState \<Rightarrow> CliState" where
  "end_session s =
     (let s1 = s\<lparr>ct_mon := map_option Stop (ct_mon s)\<rparr>
      in snd (on_cfs (SaveTombstones (ct_engine s1)) s1))"

definition session_body :: "session_env \<Rightarrow> ClientConfig \<Rightarrow> CliState \<Rightarrow> unit res option \<times> CliState" where
  "session_body env cfg s =
     (case ScanLocal (ct_engine s) (ct_fs s) of
        (Inl err, e) \<Rightarrow> (Some (Inl (add_ctx ''initial scan'' err)), s\<lparr>ct_engine := e\<rparr>)
      | (Inr _, e) \<Rightarrow>
          (case Connect (se_attempts env) (ct_client s) of
             (None, _, c) \<Rightarrow> (None, s\<lparr>ct_engine := e, ct_client := c\<rparr>)
           | (Some (Inl err), _, c) \<Rightarrow> (Some (Inl (add_ctx ''connect'' err)), s\<lparr>ct_engine := e, ct_client := c\<rparr>)
           | (Some (Inr _), _, c) \<Rightarrow>
               (case and_then (greet cfg) (\<lambda>_. start_monitor env cfg) (s\<lparr>ct_engine := e, ct_client := c\<rparr>) of
                  (Inl err, s1) \<Rightarrow> (Some (Inl err), s1)
                | (Inr _, s1) \<Rightarrow> receive_loop (se_rounds env) s1)))"

definition runSession :: "session_env \<Rightarrow> ClientConfig \<Rightarrow> fs \<times> Client \<Rightarrow> unit res option \<times> CliState" where
  "runSession env cfg fc =
     (case session_body env cfg
        \<lparr>ct_engine = NewEngine (cc_LocalDir cfg) (fst fc), ct_fs = fst fc, ct_client = snd fc, ct_mon = None\<rparr> of
        (None, s) \<Rightarrow> (None, s)
      | (Some r, s) \<Rightarrow> (Some r, end_session s))"

section \<open>The program\<close>

datatype exit = Exit_Ok | Exit_Error error | Exit_Panic

definition next_delay :: "int \<Rightarrow> int \<Rightarrow> int" where
  "next_delay maxReconnectDelay reconnectDelay =
     (let d = reconnectDelay * 2 in if d > maxReconnectDelay then maxReconnectDelay else d)"

definition maxReconnectDelay :: "ClientConfig \<Rightarrow> int" where
  "maxReconnectDelay cfg = (let d = cc_MaxDelaySec cfg * Second in if d = 0 then 60 * Second else d)"

text \<open>A round of the reconnection loop: whether shutdown was requested before the session, what happens in
  the session, whether shutdown was requested after it, and whether during the wait. The loop's
  result, and the waits it completed.\<close>

type_synonym main_round = "bool \<times> session_env \<times> bool \<times> bool"

fun reconnect_loop ::
    "int \<Rightarrow> main_round list \<Rightarrow> ClientConfig \<Rightarrow> fs \<times> Client \<Rightarrow> exit option \<times> int list \<times> fs \<times> Client" where
  "reconnect_loop delay [] cfg fc = (None, [], fc)"
| "reconnect_loop delay ((before, env, after, waiting) # rs) cfg fc =
     (if before then (Some Exit_Ok, [], fst fc, snd (client_Close (snd fc)))
      else
        (case runSession env cfg fc of
           (None, s) \<Rightarrow> (None, [], ct_fs s, ct_client s)
         | (Some (Inr _), s) \<Rightarrow> (Some Exit_Ok, [], ct_fs s, snd (client_Close (ct_client s)))
         | (Some (Inl err), s) \<Rightarrow>
             if err = GoPanic then (Some Exit_Panic, [], ct_fs s, ct_client s)
             else if after then (Some Exit_Ok, [], ct_fs s, snd (client_Close (ct_client s)))
             else if \<not> cc_Reconnect cfg then (Some (Exit_Error err), [], ct_fs s, snd (client_Close (ct_client s)))
             else if waiting then (Some Exit_Ok, [], ct_fs s, snd (client_Close (ct_client s)))
             else
               (case reconnect_loop (next_delay (maxReconnectDelay cfg) delay) rs cfg (ct_fs s, ct_client s) of
                  (x, waits, fc') \<Rightarrow> (x, delay # waits, fc'))))"

definition client_main :: "main_round list \<Rightarrow> ClientConfig \<Rightarrow> fs \<Rightarrow> exit option \<times> int list \<times> fs \<times> Client" where
  "client_main rs cfg fs =
     (case MkdirAll (cc_LocalDir cfg) 493 fs of
        (Inl err, fs1) \<Rightarrow> (Some (Exit_Error (add_ctx ''create sync dir'' err)), [], fs1, NewClient (cc_ServerAddr cfg))
      | (Inr _, fs1) \<Rightarrow> reconnect_loop (1 * Second) rs cfg (fs1, NewClient (cc_ServerAddr cfg)))"

section \<open>The loops end\<close>

lemma on_client_sel [simp]:
  "fst (on_client f s) = fst (f (ct_client s))" "snd (on_client f s) = s\<lparr>ct_client := snd (f (ct_client s))\<rparr>"
  by (simp_all add: on_client_def split: prod.split)

lemma on_cfs_sel [simp]:
  "fst (on_cfs f s) = fst (f (ct_fs s))" "snd (on_cfs f s) = s\<lparr>ct_fs := snd (f (ct_fs s))\<rparr>"
  by (simp_all add: on_cfs_def split: prod.split)

lemma Receive_consumes:
  assumes "on_client Receive s = (Inr msg, s1)"
  shows "pending s1 + 5 \<le> pending s"
proof -
  from assms have r: "fst (client_read (ct_client s)) = Inr msg" "ct_client s1 = snd (client_read (ct_client s))"
    by (auto simp: on_client_def Receive_def split: prod.splits)
  then obtain c c1 where "cl_conn (ct_client s) = Some c" "ReadMessage c = (Inr msg, c1)" "cl_conn (ct_client s1) = Some c1"
    by (auto simp: client_read_def split: option.splits prod.splits)
  then show ?thesis using ReadMessage_consumes by (simp add: pending_def)
qed

lemma snd_log_err [simp]: "snd (log_err m s) = snd (m s)"
  by (simp add: log_err_def split: prod.split)

lemma recv_data_client [simp]: "ct_client (snd (recv_data chunk s)) = ct_client s"
  by (simp add: recv_data_def Let_def cli_ignore_def)

lemma pending_write: "pending (s\<lparr>ct_client := snd (client_write m (ct_client s))\<rparr>) = pending s"
  by (cases "cl_conn (ct_client s)")
    (auto simp: pending_def client_write_def split: prod.split dest: arg_cong [where f = "\<lambda>x. cn_in (snd x)"])

lemma pending_handle: "pending (snd (handleServerMessage msg s)) = pending s"
proof -
  have "ct_client (snd (recv_delete rel s)) = ct_client s" for rel
    by (auto simp: recv_delete_def snd_and_then cli_rescan_def cli_ignore_def split: sum.split)
  moreover have "ct_client (snd (recv_apply ops s)) = ct_client s" for ops
    by (simp add: recv_apply_def split: prod.split)
  moreover have "pending (s\<lparr>ct_client := snd (SendPong (ct_client s))\<rparr>) = pending s"
    by (simp add: SendPong_def pending_write)
  ultimately show ?thesis
    by (auto simp: handleServerMessage_def Let_def pending_def cli_ignore_def split: option.split)
qed

lemma add_ctx_not_msg: "add_ctx ctx e \<noteq> ErrMsg m"
  by (simp add: add_ctx_def)

text \<open>The rounds given to the loop that collects the server's files are enough.\<close>

lemma data_loop_enough: "pending s \<le> n \<Longrightarrow> fst (data_loop (Suc n) s) \<noteq> Inl (ErrMsg ''out of rounds'')"
proof (induction n arbitrary: s rule: less_induct)
  case (less n)
  obtain r s1 where rd: "on_client Receive s = (r, s1)" by fastforce
  show ?case
  proof (cases r)
    case (Inl e)
    then show ?thesis using rd by (simp add: and_then_def or_close_def add_ctx_not_msg)
  next
    case (Inr msg)
    have p: "pending s1 + 5 \<le> pending s" using Receive_consumes rd Inr by simp
    with less.prems obtain k where k: "n = Suc k" "pending s1 \<le> k" "k < n" by (cases n) auto
    define s2 where "s2 = snd (handleServerMessage msg s1)"
    have "pending s2 \<le> k" using k(2) by (simp add: s2_def pending_handle)
    note ih = less.IH [OF k(3) k(2)] less.IH [OF k(3) this]
    have lg: "fst (log_err (handleServerMessage msg) s1) = Inl GoPanic \<or> fst (log_err (handleServerMessage msg) s1) = Inr ()"
      by (simp add: log_err_def logged_def split: prod.split)
    have ds: "data_loop (Suc n) s =
        (if m_Type msg = MSG_ACK then (Inr (), s1)
         else if m_Type msg = MSG_FILE_DATA then and_then (log_err (handleServerMessage msg)) (\<lambda>_. data_loop n) s1
         else data_loop n s1)"
      using rd Inr by (simp add: and_then_def or_close_def)
    have "fst (and_then (log_err (handleServerMessage msg)) (\<lambda>_. data_loop n) s1) \<noteq> Inl (ErrMsg ''out of rounds'')"
      using lg ih(2) k(1) snd_log_err [of "handleServerMessage msg" s1]
      by (auto simp: and_then_def s2_def split: prod.split sum.split simp del: data_loop.simps snd_log_err)
    then show ?thesis using ds ih(1) k(1) by (simp del: data_loop.simps)
  qed
qed

lemma receive_loop_returns:
  "pending s < 5 * length ds \<Longrightarrow> \<exists>r s'. receive_loop ds s = (Some r, s')"
proof (induction ds arbitrary: s)
  case (Cons d ds)
  obtain before after where d: "d = (before, after)" by fastforce
  obtain r s1 where rd: "on_client Receive s = (r, s1)" by fastforce
  show ?case
  proof (cases r)
    case (Inr msg)
    obtain x s2 where h: "log_err (handleServerMessage msg) s1 = (x, s2)" by fastforce
    have "pending s2 = pending s1" using snd_log_err [of "handleServerMessage msg" s1] h pending_handle by simp
    then have "pending s2 < 5 * length ds" using Receive_consumes [of s msg s1] rd Inr Cons.prems by simp
    from Cons.IH [OF this] show ?thesis using rd Inr h by (auto simp: d split: sum.split)
  qed (use rd in \<open>auto simp: d\<close>)
qed simp

section \<open>Reconnecting\<close>

interpretation reconnect: capped_backoff "next_delay cap" cap
  by unfold_locales (simp add: next_delay_def Let_def min_def)

lemma reconnect_loop_waits:
  "fst (snd (reconnect_loop d rs cfg fc)) =
     map (\<lambda>k. (next_delay (maxReconnectDelay cfg) ^^ k) d) [0 ..< length (fst (snd (reconnect_loop d rs cfg fc)))]"
proof (induction d rs cfg fc rule: reconnect_loop.induct)
  case (1 delay cfg fc)
  then show ?case by simp
next
  case (2 delay before env after waiting rs cfg fc)
  let ?next = "next_delay (maxReconnectDelay cfg)"
  have shift: "delay # map (\<lambda>k. (?next ^^ k) (?next delay)) [0 ..< n] = map (\<lambda>k. (?next ^^ k) delay) [0 ..< Suc n]" for n
    by (induction n) (simp_all add: funpow_swap1)
  obtain o' s where rs: "runSession env cfg fc = (o', s)" by fastforce
  show ?case
  proof (cases "\<not> before \<and> (\<exists>err. o' = Some (Inl err) \<and> err \<noteq> GoPanic \<and> \<not> after \<and> cc_Reconnect cfg \<and> \<not> waiting)")
    case True
    then obtain err where t: "\<not> before" "o' = Some (Inl err)" "err \<noteq> GoPanic" "\<not> after" "cc_Reconnect cfg" "\<not> waiting"
      by blast
    obtain x w fc' where rl: "reconnect_loop (?next delay) rs cfg (ct_fs s, ct_client s) = (x, w, fc')" by (rule prod_cases3)
    have "w = map (\<lambda>k. (?next ^^ k) (?next delay)) [0 ..< length w]"
      using "2.IH" [OF t(1) rs [symmetric] t(2) refl t(3,4)] t(5,6) rl by simp
    then have "delay # w = map (\<lambda>k. (?next ^^ k) delay) [0 ..< Suc (length w)]" using shift [of "length w"] by simp
    then show ?thesis using t rs rl by (simp del: upt_Suc)
  next
    case False
    then have "fst (snd (reconnect_loop delay ((before, env, after, waiting) # rs) cfg fc)) = []"
      using rs by (auto split: option.split sum.split)
    then show ?thesis by simp
  qed
qed

section \<open>Orders of the server stay inside the directory\<close>

definition order_local :: "Message \<Rightarrow> bool" where
  "order_local m \<longleftrightarrow> local_path (m_FileDelete m) \<and> (\<forall>c. m_FileData m = Some c \<longrightarrow> local_path (fd_Path c)) \<and>
     (\<forall>y op. m_SyncApply m = Some y \<and> Some op \<in> set (sa_Ops y) \<longrightarrow> op_safe op)"

lemma cli_ignore_sel [simp]:
  "ct_fs (cli_ignore p s) = ct_fs s" "ct_engine (cli_ignore p s) = ct_engine s" "ct_client (cli_ignore p s) = ct_client s"
  by (simp_all add: cli_ignore_def)

lemma handleServerMessage_keeps:
  assumes "fenced b (ct_fs s)" "cli_base s = render True b" "order_local msg"
  shows "keeps_fence b (ct_fs s) (ct_fs (snd (handleServerMessage msg s)))"
proof -
  have j: "inside b (Join (render True b) rel)" if "local_path rel" for rel
    using Join_inside [OF fenced_names [OF assms(1)] that] .
  have d: "keeps_fence b (ct_fs s) (ct_fs (snd (recv_data c s)))" if "local_path (fd_Path c)" for c
  proof -
    let ?p = "Join (render True b) (fd_Path c)"
    have "ct_fs (snd (recv_data c s)) =
        snd (WriteChunkAt ?p (fd_Data c) (sint (fd_Offset c)) (snd (EnsureDir ?p (ct_fs s))))"
      by (simp add: recv_data_def Let_def assms(2))
    moreover have "keeps_fence b (ct_fs s) (snd (EnsureDir ?p (ct_fs s)))"
      using assms(1) j [OF that] by (simp add: keeps_utils)
    ultimately show ?thesis using j [OF that] keeps_utils(4) [of b ?p] by (auto simp: keeps_fence_def same_outside_def)
  qed
  have x: "keeps_fence b (ct_fs s) (ct_fs (snd (recv_delete (m_FileDelete msg) s)))"
    using assms(1,3) j
    by (simp add: recv_delete_def snd_and_then assms(2) order_local_def keeps_utils cli_rescan_def split: sum.split)
  have a: "keeps_fence b (ct_fs s) (ct_fs (snd (recv_apply (sa_Ops y) s)))" if "m_SyncApply msg = Some y" for y
  proof -
    have "ct_fs (snd (recv_apply (sa_Ops y) s)) = snd (apply_ops (render True b) (sa_Ops y) (ct_fs s))"
      by (auto simp: recv_apply_def ApplyChanges_def assms(2) split: prod.split sum.split)
    moreover have "\<forall>op. Some op \<in> set (sa_Ops y) \<longrightarrow> op_safe op" using assms(3) that by (auto simp: order_local_def)
    ultimately show ?thesis using apply_ops.act_keeps assms(1) by simp
  qed
  show ?thesis
    using d x a assms(1,3)
    by (auto simp: handleServerMessage_def Let_def order_local_def keeps_refl split: option.split)
qed

section \<open>Properties\<close>

definition demo_client_state :: CliState where
  "demo_client_state = \<lparr>ct_engine = fresh_engine ''/d'', ct_fs = demo_fs,
     ct_client = (NewClient ''s'')\<lparr>cl_conn := Some (NewConn ([], IoEOF) None)\<rparr>, ct_mon = None\<rparr>"

text \<open>C26: the loops of a session end with the connection: the loop that collects the server's files ends
  within as many rounds as it is given, and the receive loop returns within \<open>n div 5 + 1\<close> rounds on
  a connection that delivers \<open>n\<close> more bytes.\<close>

theorem client_loops_end:
  assumes "pending s < 5 * length ds"
  shows "fst (data_loop (Suc (pending s)) s) \<noteq> Inl (ErrMsg ''out of rounds'') \<and>
    (\<exists>r s'. receive_loop ds s = (Some r, s'))"
  using data_loop_enough [of s "pending s"] receive_loop_returns [OF assms] by simp

theorem client_loops_end_witness:
  "\<exists>r s'. receive_loop [(False, False)] demo_client_state = (Some r, s')"
  using client_loops_end [of demo_client_state "[(False, False)]"]
  by (simp add: demo_client_state_def pending_def NewClient_def NewConn_def)

lemma DefaultClientConfig_delay:
  "cc_MaxDelaySec (DefaultClientConfig\<lparr>cc_LocalDir := d\<rparr>) = 60" "(1 :: int) \<le> 60"
  by (simp_all add: DefaultClientConfig_def)


definition demo_env :: session_env where
  "demo_env = \<lparr>se_attempts = [], se_newWatcher = None, se_add = (\<lambda>_. None), se_now = 0, se_rounds = []\<rparr>"






end
