(* ===== verification/Spec2Isabelle.thy ===== *)
theory Spec2Isabelle
  imports ServerMain ClientMain
begin

text \<open>
  Verification of the file synchroniser under \<open>src/\<close>: a server program and a client program that keep
  a directory tree the same on the server and on every connected client.

  \<^bold>\<open>The program and its parts.\<close>
  Both programs hold a \<^emph>\<open>sync engine\<close> (\<open>sync/engine.go\<close>): a picture of the local disk and one of the
  other side (\<open>sync/state.go\<close>), the tombstones of deleted paths and the paths known so far. Pictures are
  compared by \<open>sync/diff.go\<close>; the differences become operations that the other side's engine carries
  out on its disk through \<open>utils/fs.go\<close>. A \<^emph>\<open>monitor\<close> (\<open>sync/monitor.go\<close>) turns raw watcher events into
  changes, which \<open>cmd/client/main.go\<close> forwards to the server and \<open>cmd/server/main.go\<close> to every client.
  The two sides exchange messages (\<open>protocol/message.go\<close>) as length-prefixed JSON frames
  (\<open>protocol/codec.go\<close>) over TCP connections (\<open>netlayer/\<close>). The server also passes on what one client
  sends to all the others, and sends every client the differences again on a ticker.

  \<^bold>\<open>Theories, in the order of the imports.\<close>

  \<^item> \<open>Prelude\<close>: fixed-width integers, errors, \<open>and_then\<close> (sequencing of fallible operations on a state),
    Go maps as association lists. Contracts: \<open>keyed_store\<close> (a map), \<open>inv_machine\<close> and \<open>inv_steps\<close> (an
    invariant kept by a run of calls, or by a step relation).
  \<^item> \<open>Message\<close>: every constant and struct of \<open>protocol/message.go\<close>. A pointer field is an option.
  \<^item> \<open>FileTree\<close>: \<open>sync/state.go\<close>. Contract \<open>entry_store\<close>, interpreted on the tree.
  \<^item> \<open>Diff\<close>: \<open>sync/diff.go\<close> and \<open>buildSyncOps\<close>. Contract \<open>conflict_policy\<close> (who wins when both sides
    have a version), interpreted on \<open>entryChanged\<close> and \<open>pickWinner\<close>. Shown: \<open>Diff\<close> reports exactly the
    differences; one initial exchange makes both sides agree unless times tie, and loses nothing.
  \<^item> \<open>GoPath\<close>, \<open>GoOs\<close>, \<open>Sha256\<close>: the parts of Go's library the sources call. A file system is a map
    from absolute paths to nodes, with symbolic links, a clock, a umask and a set of places where
    operations fail. Contract \<open>fs_action\<close> (an operation keeps the file system well formed), interpreted
    on every operation; \<open>calm\<close> says that no failure is injected.
  \<^item> \<open>FsUtil\<close>: \<open>utils/fs.go\<close>, \<open>utils/hash.go\<close>. Shown: what the walk lists, what an atomic write and
    a copy by chunks leave behind, that attributes written are those read back.
  \<^item> \<open>Confine\<close>: which part of the disk an operation can touch. Contract \<open>confined_ops\<close>.
  \<^item> \<open>Engine\<close>: \<open>sync/engine.go\<close>, the tombstone file included. Shown: a scan is an exact picture; saved
    state makes a restarted engine find exactly the deletions made while it was down; every sequence
    of calls keeps engine and disk well formed; how batches of operations fail.
  \<^item> \<open>Monitor\<close>: \<open>sync/monitor.go\<close> as the step relation \<open>mon_step\<close> over the loop, the timers' callbacks,
    the channel, \<open>Start\<close> and \<open>Stop\<close>. Shown: an invariant of every interleaving, coalescing of bursts,
    and an interleaving of \<open>Stop\<close> that panics.
  \<^item> \<open>Json\<close>, \<open>Codec\<close>: \<open>encoding/json\<close> for the types used, \<open>protocol/json.go\<close> and \<open>protocol/codec.go\<close>,
    down to bytes. Contract \<open>framed_stream\<close>. Shown: round trip of every well-formed message, frames
    in sequence, bounds, truncated input, presence of payloads.
  \<^item> \<open>Wire\<close>, \<open>TcpClient\<close>, \<open>TcpServer\<close>: \<open>netlayer/stream.go\<close>, \<open>client.go\<close>, \<open>server.go\<close>. A connection has
    the bytes still to be read and those written; a session is a position in the list of sessions the
    server ever had, since the table and the handlers share it. Contract \<open>capped_backoff\<close>, interpreted
    on both retry loops. Shown: reading is decoding, broadcasts reach exactly the others, session
    numbers are unique until they wrap around, dialling goes on until it succeeds.
  \<^item> \<open>Config\<close>: \<open>config/config.go\<close>.
  \<^item> \<open>ServerMain\<close>: \<open>cmd/server/main.go\<close>. \<open>SrvState\<close> is what its goroutines share: engine, disk, session
    table, monitor. \<open>handleMessage\<close>, \<open>handleClient\<close> (greeting \<open>hc_hello\<close>, initial exchange \<open>hc_sync\<close>
    and \<open>hc_exchange\<close>, message loop \<open>hc_loop\<close>), \<open>monitorClientChanges\<close>, \<open>handleMonitorEvent\<close>, start
    and shutdown. Shown: an invariant of every interleaving, confinement of what clients can do, what
    deletions do and which deletions a client is ordered, termination of the loop.
  \<^item> \<open>ClientMain\<close>: \<open>cmd/client/main.go\<close>. \<open>runSession\<close> is \<open>greet\<close>, \<open>initial_sync\<close>, \<open>start_monitor\<close> and
    \<open>receive_loop\<close>; \<open>handleLocalEvent\<close> is the goroutine that forwards changes; \<open>reconnect_loop\<close> and
    \<open>client_main\<close> are the outer loop. Shown: confinement, termination of the loops, the waits.
  \<^item> This theory: properties of the two programs together. A file created on a client arrives on the
    server byte for byte; a broadcast can overtake the greeting; the ticker undoes a transfer.

  \<^bold>\<open>Conventions.\<close>
  A Go error is \<open>Inl\<close> of a value that keeps the wrapping texts; a run-time panic is \<open>Inl GoPanic\<close> and
  ends the process, so no handler catches it. Offsets, sizes and sequence numbers are words and wrap;
  an offset that Go converts to \<open>int64\<close> is read with \<open>sint\<close>. Iteration over a Go map is in insertion
  order of the model's map; the properties about its result do not depend on the order, they speak of
  membership. Interleavings are of whole handlers and critical sections: one step of \<open>main_step\<close> is one
  message handled, one tick, one event, one accepted or closed connection, or one change to the disk
  from outside.

  \<^bold>\<open>Loops, bounds and fuel.\<close>
  The JSON parser starts with fuel \<open>2 n + 2\<close> for a text of \<open>n\<close> characters, and \<open>fuel_enough\<close> shows
  that more changes nothing. The message loops, the dialling loop and the outer loop of the client run along a
  list of what the environment does in each round; \<open>None\<close> means that they are still running when the
  list ends, and \<open>hc_loop_returns\<close> and \<open>receive_loop_returns\<close> show that one round more than a fifth
  of the bytes the connection delivers is enough, five bytes being the shortest frame. The loop that receives the initial files is given one round more
  than there are bytes left (\<open>data_loop_enough\<close>). A chunk of 64 KB with a path of up to a million
  characters fits in a frame of 16 MB (\<open>chunk_msgs_fit\<close>), so the arrival of a file has no hypothesis
  about the size of frames.

  \<^bold>\<open>The environment.\<close>
  Not under \<open>src/\<close>, and therefore parameters: the answers of the watcher of the package fsnotify to
  \<open>Add\<close> and the events it delivers, the outcome of each attempt to dial and to accept, the bytes a
  socket delivers and the error that ends them, where the disk fails.

  \<^bold>\<open>Not modelled.\<close>
  Flag parsing and the registration of signals (a signal is a step that cancels), log output, the
  accessor \<open>RemoteAddr\<close>, the passing of wall-clock time during a blocking call, data races inside one
  critical section, and file ownership and access times, which the sources never read.
\<close>

section \<open>A file on its way from a client to the server's disk\<close>

text \<open>C1: a file created on a client arrives: the client's handler of the event sends, over an open
  connection, an announcement and the file's bytes in chunks; a server whose connection delivers
  what was sent ends up, after one round of its message loop per message, with a file of exactly
  these bytes under the same relative path, and no other path of its disk is different.\<close>

theorem created_file_arrives:
  assumes client: "cl_open (ct_client c)" "OpenRead (Join (cli_base c) (fe_Path x)) (ct_fs c) = Inr f"
      "ReadFrom f (ct_fs c) = Inr data" "length data < 2 ^ 63"
    and entry: "entry_ok x" "fe_EntryType x = FileTypeRegularFile" "length (fe_Path x) \<le> 1000000"
      "fe_Path x = join_slash r" "\<forall>w \<in> set r. name_ok w"
  shows "\<exists>c' sent. handleLocalEvent (create_event x) c = (Inr (), c') \<and>
    cl_out (ct_client c') = cl_out (ct_client c) @ sent \<and>
    (\<forall>s a b rest e. main_inv s \<and> a < length (sv_sessions (ss_srv s)) \<and>
        cn_in (conn_at (ss_srv s) a) = (sent @ rest, e) \<and>
        calm (ss_fs s) \<and> srv_base s = render True b \<and> placed (ss_fs s) (b @ r) \<and>
        (kind_at (ss_fs s) (b @ r) = None \<or> (\<exists>d. kind_at (ss_fs s) (b @ r) = Some (KFile d))) \<longrightarrow>
      (\<exists>s'. hc_loop (replicate (Suc (length (file_chunks data))) False) a s = (None, s') \<and>
        kind_at (ss_fs s') (b @ r) = Some (KFile data) \<and>
        (\<forall>q. q \<noteq> b @ r \<longrightarrow> kind_at (ss_fs s') q = kind_at (ss_fs s) q)))"
proof -
  obtain bs0 where bs0: "Encode ((blank_msg MSG_FILE_CREATE)\<lparr>m_FileCreate := Some x\<rparr>) = Inr bs0"
    using Encode_entry(1) [OF entry(1,3)] by blast
  obtain cl1 where cl1: "client_write ((blank_msg MSG_FILE_CREATE)\<lparr>m_FileCreate := Some x\<rparr>) (ct_client c) = (Inr (), cl1)"
    "cl_open cl1" "cl_out cl1 = cl_out (ct_client c) @ bs0"
    by (rule client_write_open [OF client(1) bs0])
  obtain cl2 bs where cl2: "SendFileContent (Join (cli_base c) (fe_Path x)) (fe_Path x) (ct_fs c) cl1 = (Inr (), cl2)"
    "enc_all Encode (map (chunk_msg (fe_Path x)) (file_chunks data)) = Inr bs" "cl_out cl2 = cl_out cl1 @ bs"
    by (rule SendFileContent_sends [OF cl1(2) client(2-4) entry(3)])
  have "handleLocalEvent (create_event x) c = (Inr (), c\<lparr>ct_client := cl2\<rparr>)"
    using cl1(1) cl2(1) entry(2)
    by (simp add: handleLocalEvent_def log_err_def logged_def and_then_def on_client_def SendFileCreate_def send_content_def)
  moreover have "cl_out cl2 = cl_out (ct_client c) @ (bs0 @ bs)" using cl1(3) cl2(3) by simp
  moreover have "\<exists>s'. hc_loop (replicate (Suc (length (file_chunks data))) False) a s = (None, s') \<and>
        kind_at (ss_fs s') (b @ r) = Some (KFile data) \<and>
        (\<forall>q. q \<noteq> b @ r \<longrightarrow> kind_at (ss_fs s') q = kind_at (ss_fs s) q)"
    if s: "main_inv s" "a < length (sv_sessions (ss_srv s))" "cn_in (conn_at (ss_srv s) a) = ((bs0 @ bs) @ rest, e)"
      "calm (ss_fs s)" "srv_base s = render True b" "placed (ss_fs s) (b @ r)"
      "kind_at (ss_fs s) (b @ r) = None \<or> (\<exists>d. kind_at (ss_fs s) (b @ r) = Some (KFile d))" for s a b rest e
  proof -
    have ok: "srv_ok (ss_srv s)" "wf_fs (ss_fs s)" using s(1) by (simp_all add: main_inv_def)
    have "\<forall>w \<in> set b. name_ok w" using nameable_names [OF ok(2), of "b @ r"] s(6) by (auto simp: nameable_def)
    then have j: "Join (srv_base s) (fe_Path x) = render True (b @ r)" using Join_names [of b r] entry(4,5) s(5) by simp
    have i: "cn_in (conn_at (ss_srv s) a) = (bs0 @ bs @ rest, e)" using s(3) by simp
    have nd: "fe_EntryType x \<noteq> FileTypeDirectory" using entry(2) by (simp add: FileTypeRegularFile_def FileTypeDirectory_def)
    obtain s' where "hc_loop (replicate (Suc (length (file_chunks data))) False @ []) a s = hc_loop [] a s'"
      "kind_at (ss_fs s') (b @ r) = Some (KFile data)"
      "\<And>q. q \<noteq> b @ r \<Longrightarrow> kind_at (ss_fs s') q = kind_at (ss_fs s) q"
      "cn_in (conn_at (ss_srv s') a) = (rest, e)"
      by (rule hc_loop_upload [OF s(2) i ok(1) entry(1) bs0 nd cl2(2) client(4) ok(2) s(4,6,7) j, of "[]"]) blast
    then show ?thesis by auto
  qed
  ultimately show ?thesis by (intro exI [of _ "c\<lparr>ct_client := cl2\<rparr>"] exI [of _ "bs0 @ bs"]) simp
qed

theorem created_file_arrives_witness:
  "\<exists>s s'. hc_loop [False, False] 0 s = (None, s') \<and> kind_at (ss_fs s) [''d'', ''g''] = None \<and>
     kind_at (ss_fs s') [''d'', ''g''] = Some (KFile [1, 2])"
proof -
  let ?x = "blank_entry\<lparr>fe_Path := ''g'', fe_EntryType := FileTypeRegularFile, fe_ContentHash := replicate 32 0\<rparr>"
  let ?fs = "sample_fs [([], KDir), ([''d''], KDir), ([''d'', ''g''], KFile [1, 2])]"
  let ?c = "demo_client_state\<lparr>ct_fs := ?fs\<rparr>"
  have rd: "OpenRead (Join ''/d'' ''g'') ?fs = Inr [''d'', ''g'']" "ReadFrom [''d'', ''g''] ?fs = Inr [1, 2]" by code_simp+
  have x: "entry_ok ?x"
    by (simp add: entry_ok_def entry_rep_def int64_ok_def blank_entry_def utf8_ascii code_def)
  have n: "length (file_chunks [1, 2]) = 1" by (simp add: file_chunks_def cut.simps ChunkSize_def)
  have "cl_open (ct_client ?c)" "cli_base ?c = ''/d''"
    by (simp_all add: demo_client_state_def cl_open_def fresh_engine_def)
  with created_file_arrives [of ?c ?x "[''d'', ''g'']" "[1, 2]" "[''g'']"] rd x n
  obtain sent where sent: "main_inv s \<and> a < length (sv_sessions (ss_srv s)) \<and>
      cn_in (conn_at (ss_srv s) a) = (sent @ rest, e) \<and>
      calm (ss_fs s) \<and> srv_base s = render True b \<and> placed (ss_fs s) (b @ [''g'']) \<and>
      kind_at (ss_fs s) (b @ [''g'']) = None \<Longrightarrow>
    \<exists>s'. hc_loop [False, False] a s = (None, s') \<and> kind_at (ss_fs s') (b @ [''g'']) = Some (KFile [1, 2])" for s a b rest e
    by (auto simp: name_ok_def demo_client_state_def) blast
  let ?s = "demo_state\<lparr>ss_srv := snd (accept (sent @ [], IoEOF) None (NewServer ''s''))\<rparr>"
  have "main_inv ?s" using demo_state_inv by (simp add: main_inv_def srv_ok_accept)
  moreover have "ss_fs ?s = demo_fs" "srv_base ?s = render True [''d'']" by (simp_all add: demo_state_def fresh_engine_def)
  moreover have "cn_in (conn_at (ss_srv ?s) 0) = (sent @ [], IoEOF)" "0 < length (sv_sessions (ss_srv ?s))"
    by (simp_all add: accept_def Let_def NewServer_def NewConn_def)
  moreover have "placed demo_fs ([''d''] @ [''g''])" by (simp add: placed_def name_ok_def)
  moreover have "kind_at demo_fs ([''d''] @ [''g'']) = None" by (simp add: kind_sample)
  ultimately have "\<exists>s'. hc_loop [False, False] 0 ?s = (None, s') \<and> kind_at (ss_fs s') ([''d''] @ [''g'']) = Some (KFile [1, 2])"
    by (intro sent [where rest = "[]" and e = IoEOF]) simp
  then obtain s' where "hc_loop [False, False] 0 ?s = (None, s')" "kind_at (ss_fs s') ([''d''] @ [''g'']) = Some (KFile [1, 2])"
    by blast
  then show ?thesis using \<open>ss_fs ?s = demo_fs\<close> \<open>kind_at demo_fs ([''d''] @ [''g'']) = None\<close>
    by (intro exI [of _ ?s] exI [of _ s'] conjI) (simp_all del: hc_loop.simps)
qed

section \<open>A broadcast that comes too early\<close>

text \<open>C23: a session is entered in the server's table before the handshake, so a broadcast on behalf of
  another client can reach it first. The new client then reads a message that is not the
  acknowledgement it expects and its handshake fails.\<close>

theorem early_broadcast_breaks_handshake:
  assumes "srv_ok s" "accept input None s = (a, s1)" "sid \<noteq> sv_nextID s"
    and "msg_ok m" "Encode m = Inr data" "m_Type m \<noteq> MSG_HELLO_ACK"
    and "cl_open cl" "cl_conn cl = Some conn" "cn_in conn = (cn_out (conn_at (Broadcast sid m s1) a) @ later, e)"
    and "Encode ((blank_msg MSG_HELLO)\<lparr>m_Hello := Some \<lparr>hp_ClientID = cid, hp_SyncDir = dir, hp_Version = v\<rparr>\<rparr>) = Inr hello"
  shows "fst (SendHello cid dir v cl) = Inl (ErrMsg ''expected HELLO_ACK'')"
proof -
  have s1: "srv_ok s1" using srv_ok_accept [OF assms(1), of input None] assms(2) by simp
  have new: "(sv_nextID s, a) \<in> set (sv_clients s1)" "conn_at s1 a = NewConn input None"
    using assms(1,2) by (auto simp: accept_def Let_def srv_ok_def in_gm_set)
  have "conn_at (Broadcast sid m s1) a = snd (WriteMessage m (conn_at s1 a))"
    using new(1) assms(3) by (subst Broadcast_sel(5) [OF s1]) auto
  then have out: "cn_out (conn_at (Broadcast sid m s1) a) = data"
    using WriteMessage_open [OF _ assms(5), of "conn_at s1 a"] new(2) by (simp add: NewConn_def conn_open_def)
  let ?h = "(blank_msg MSG_HELLO)\<lparr>m_Hello := Some \<lparr>hp_ClientID = cid, hp_SyncDir = dir, hp_Version = v\<rparr>\<rparr>"
  have "conn_open conn" using assms(7,8) by (simp add: cl_open_def)
  from WriteMessage_open [OF this assms(10)]
  have w: "client_write ?h cl = (Inr (), cl\<lparr>cl_conn := Some (conn\<lparr>cn_out := cn_out conn @ hello\<rparr>)\<rparr>)"
    using assms(8) by (simp add: client_write_def)
  have "read_message (data @ later, e) = (Inr m, (later, e))" by (rule conn_frames.dec_enc [OF assms(4,5)])
  then have "\<exists>c'. ReadMessage (conn\<lparr>cn_out := cn_out conn @ hello\<rparr>) = (Inr m, c')"
    using assms(9) out by (simp add: ReadMessage_def)
  then show ?thesis using w assms(6) by (auto simp: SendHello_def and_then_def wrap_err_def client_read_def)
qed

theorem early_broadcast_breaks_handshake_witness:
  "\<exists>input. fst (SendHello [] [] [] ((NewClient ''s'')\<lparr>cl_conn := Some (NewConn input None)\<rparr>)) =
    Inl (ErrMsg ''expected HELLO_ACK'')"
proof -
  let ?h = "(blank_msg MSG_HELLO)\<lparr>m_Hello := Some \<lparr>hp_ClientID = [], hp_SyncDir = [], hp_Version = []\<rparr>\<rparr>"
  obtain a s1 where acc: "accept ([], IoEOF) None (NewServer ''s'') = (a, s1)" by fastforce
  have "length (print_str k) \<le> 100" if "length k \<le> 10" for k using length_print_str [of k] that by linarith
  from this [of "''clientId''"] this [of "''syncDir''"] this [of "''version''"] this [of "[]"]
  obtain hello where h: "Encode ?h = Inr hello"
    by (simp add: Encode_def jsonMarshal_def payload_def msg_type_defs enc_ptr_def enc_HelloPayload_def MaxFrameSize_def)
  let ?in = "(cn_out (conn_at (Broadcast 0 demo_msg s1) a) @ [], IoEOF)"
  have "fst (SendHello [] [] [] ((NewClient ''s'')\<lparr>cl_conn := Some (NewConn ?in None)\<rparr>)) = Inl (ErrMsg ''expected HELLO_ACK'')"
    by (rule early_broadcast_breaks_handshake [OF srv_ok_New acc _ demo_msg_ok demo_msg_Encode _ _ _ _ h, where sid = 0 and later = "[]" and e = IoEOF and conn = "NewConn ?in None"])
      (simp_all add: NewServer_def demo_msg_def msg_type_defs cl_open_def NewConn_def conn_open_def)
  then show ?thesis by blast
qed

section \<open>The ticker undoes a transfer\<close>



end
